theory Spec2Isabelle
  imports Main "HOL-Library.Sublist"
begin

section \<open>Data model of \<^verbatim>\<open>scripts/codex-config.py\<close>\<close>

text \<open>
  The script works on the trees that \<^verbatim>\<open>tomllib.loads\<close> returns: Python dictionaries
  from string keys to values, a value being a boolean, an integer, a string, a list of
  such values, or again a dictionary.  A Python dictionary keeps its keys in insertion
  order and holds each key once, so a dictionary is an association list; \<open>wf_dict\<close>
  below is the invariant that the keys of every table are distinct.

  Floating-point values and TOML dates are left out of the model: the first have no
  faithful counterpart in HOL, the second make \<^verbatim>\<open>json.dumps\<close> and \<^verbatim>\<open>format_value\<close>
  raise.  Lists that hold tables are left out as well: the script treats every list as a
  leaf, and \<^verbatim>\<open>format_value\<close> raises on a table inside a list.  Every statement below
  is about trees of the remaining values.  For floating-point values Python's \<^verbatim>\<open>==\<close>
  would in addition identify \<^verbatim>\<open>1\<close> with \<^verbatim>\<open>1.0\<close> and tell \<^verbatim>\<open>nan\<close> from itself.

  Reading and writing of the TOML documents (\<^verbatim>\<open>tomllib\<close>, the text that
  \<^verbatim>\<open>dump_toml\<close> joins from its lines) is outside the model; the functions below are
  the computations between the read and the write.  The state file is modelled by what
  comes back from it: \<open>json_state\<close>, at the end of the model, sorts the keys of the
  tables stored in the ledger as \<^verbatim>\<open>json.dumps(state, sort_keys=True)\<close> does.
\<close>

datatype scalar = PBool bool | PInt int | PStr string | PList "scalar list"

datatype "value" = Scalar scalar | Table "(string \<times> value) list"

type_synonym dict = "(string \<times> value) list"

text \<open>\<^verbatim>\<open>is_dict(value)\<close>.\<close>

fun is_dict :: "value \<Rightarrow> bool" where
  "is_dict (Table d) = True"
| "is_dict (Scalar s) = False"

subsection \<open>Dictionary primitives\<close>

text \<open>\<^verbatim>\<open>key in d\<close>, \<^verbatim>\<open>d.get(key)\<close>, \<^verbatim>\<open>d[key] = v\<close> (an existing key keeps its
  position, a new key goes to the end) and \<^verbatim>\<open>del d[key]\<close>.\<close>

fun dict_get :: "dict \<Rightarrow> string \<Rightarrow> value option" where
  "dict_get [] key = None"
| "dict_get ((k, v) # rest) key = (if k = key then Some v else dict_get rest key)"

definition dict_contains :: "dict \<Rightarrow> string \<Rightarrow> bool" where
  "dict_contains d key = (dict_get d key \<noteq> None)"

fun dict_set :: "dict \<Rightarrow> string \<Rightarrow> value \<Rightarrow> dict" where
  "dict_set [] key v = [(key, v)]"
| "dict_set ((k, w) # rest) key v =
     (if k = key then (k, v) # rest else (k, w) # dict_set rest key v)"

fun dict_del :: "dict \<Rightarrow> string \<Rightarrow> dict" where
  "dict_del [] key = []"
| "dict_del ((k, w) # rest) key =
     (if k = key then rest else (k, w) # dict_del rest key)"

text \<open>The invariant of Python dictionaries: no key twice, at any depth.\<close>

fun wf_value :: "value \<Rightarrow> bool"
  and wf_dict :: "dict \<Rightarrow> bool" where
  "wf_value (Scalar s) = True"
| "wf_value (Table d) = wf_dict d"
| "wf_dict [] = True"
| "wf_dict ((k, v) # rest) = (dict_get rest k = None \<and> wf_value v \<and> wf_dict rest)"

subsection \<open>Python's \<^verbatim>\<open>==\<close>\<close>

text \<open>
  Python compares a boolean with an integer by value (\<^verbatim>\<open>True == 1\<close>), lists
  element by element, and dictionaries without regard to key order: equal length, and
  every key of the left one bound in the right one to an equal value.
\<close>

fun py_eq_scalar :: "scalar \<Rightarrow> scalar \<Rightarrow> bool"
  and py_eq_list :: "scalar list \<Rightarrow> scalar list \<Rightarrow> bool" where
  "py_eq_scalar (PBool a) (PBool b) = (a = b)"
| "py_eq_scalar (PBool a) (PInt n) = ((if a then 1 else 0) = n)"
| "py_eq_scalar (PInt m) (PBool b) = (m = (if b then 1 else 0))"
| "py_eq_scalar (PInt m) (PInt n) = (m = n)"
| "py_eq_scalar (PStr s) (PStr t) = (s = t)"
| "py_eq_scalar (PList xs) (PList ys) = py_eq_list xs ys"
| "py_eq_scalar _ _ = False"
| "py_eq_list [] [] = True"
| "py_eq_list (x # xs) (y # ys) = (py_eq_scalar x y \<and> py_eq_list xs ys)"
| "py_eq_list _ _ = False"

fun py_eq :: "value \<Rightarrow> value \<Rightarrow> bool"
  and py_eq_items :: "dict \<Rightarrow> dict \<Rightarrow> bool" where
  "py_eq (Scalar a) (Scalar b) = py_eq_scalar a b"
| "py_eq (Table d) (Table e) = (length d = length e \<and> py_eq_items d e)"
| "py_eq (Scalar a) (Table e) = False"
| "py_eq (Table d) (Scalar b) = False"
| "py_eq_items [] e = True"
| "py_eq_items ((k, v) # rest) e =
     ((case dict_get e k of None \<Rightarrow> False | Some w \<Rightarrow> py_eq v w) \<and> py_eq_items rest e)"

section \<open>The merger\<close>

text \<open>
  \<^verbatim>\<open>merge_dicts(base, overlay)\<close>: the first loop runs over the items of \<open>base\<close>, the
  second over the items of \<open>overlay\<close>; both store into \<open>merged\<close>, which starts empty.
\<close>

fun merge_overlay_loop :: "dict \<Rightarrow> dict \<Rightarrow> dict \<Rightarrow> dict" where
  "merge_overlay_loop [] base merged = merged"
| "merge_overlay_loop ((key, overlay_val) # rest) base merged =
     merge_overlay_loop rest base
       (if \<not> dict_contains base key then dict_set merged key overlay_val else merged)"

fun merge_dicts :: "dict \<Rightarrow> dict \<Rightarrow> dict"
  and merge_base_loop :: "dict \<Rightarrow> dict \<Rightarrow> dict \<Rightarrow> dict" where
  "merge_dicts base overlay =
     merge_overlay_loop overlay base (merge_base_loop base overlay [])"
| "merge_base_loop [] overlay merged = merged"
| "merge_base_loop ((key, base_val) # rest) overlay merged =
     merge_base_loop rest overlay
       (dict_set merged key
          (case dict_get overlay key of
             Some overlay_val \<Rightarrow>
               (case (base_val, overlay_val) of
                  (Table b, Table ov) \<Rightarrow> Table (merge_dicts b ov)
                | _ \<Rightarrow> overlay_val)
           | None \<Rightarrow> base_val))"

section \<open>The differ\<close>

text \<open>
  The entries of the ledger are the dictionaries \<^verbatim>\<open>{"path", "repo"}\<close> (an addition)
  and \<^verbatim>\<open>{"path", "previous", "repo"}\<close> (an override).
\<close>

record addition =
  entry_path :: "string list"
  entry_repo :: "value"

record override = addition +
  entry_previous :: "value"

text \<open>\<^verbatim>\<open>collect_additions(path, repo_val, additions)\<close> appends to \<open>additions\<close>; the
  model returns the list it has grown.\<close>

fun collect_additions :: "string list \<Rightarrow> value \<Rightarrow> addition list \<Rightarrow> addition list"
  and collect_additions_items :: "string list \<Rightarrow> dict \<Rightarrow> addition list \<Rightarrow> addition list" where
  "collect_additions path (Table d) adds = collect_additions_items path d adds"
| "collect_additions path (Scalar s) adds = adds @ [\<lparr>entry_path = path, entry_repo = Scalar s\<rparr>]"
| "collect_additions_items path [] adds = adds"
| "collect_additions_items path ((key, v) # rest) adds =
     collect_additions_items path rest (collect_additions (path @ [key]) v adds)"

text \<open>
  \<^verbatim>\<open>collect_changes(path, repo_val, existing_val, exists, additions, overrides)\<close>.
  The loop over \<^verbatim>\<open>repo_val.items()\<close> is \<open>collect_changes_items\<close>.
\<close>

fun collect_changes ::
    "string list \<Rightarrow> value \<Rightarrow> value \<Rightarrow> bool \<Rightarrow> addition list \<Rightarrow> override list
      \<Rightarrow> addition list \<times> override list"
  and collect_changes_items ::
    "string list \<Rightarrow> dict \<Rightarrow> dict \<Rightarrow> addition list \<Rightarrow> override list
      \<Rightarrow> addition list \<times> override list" where
  "collect_changes path (Table rd) existing_val exists adds ovs =
     (if exists \<and> \<not> is_dict existing_val then
        (adds, ovs @ [\<lparr>entry_path = path, entry_repo = Table rd, entry_previous = existing_val\<rparr>])
      else if \<not> exists then
        (collect_additions path (Table rd) adds, ovs)
      else
        (case existing_val of
           Table ed \<Rightarrow> collect_changes_items path rd ed adds ovs
         | Scalar s \<Rightarrow> (adds, ovs)))"
| "collect_changes path (Scalar rs) existing_val exists adds ovs =
     (if exists \<and> is_dict existing_val then
        (adds, ovs @ [\<lparr>entry_path = path, entry_repo = Scalar rs, entry_previous = existing_val\<rparr>])
      else if exists then
        (if \<not> py_eq existing_val (Scalar rs) then
           (adds, ovs @ [\<lparr>entry_path = path, entry_repo = Scalar rs, entry_previous = existing_val\<rparr>])
         else (adds, ovs))
      else
        (adds @ [\<lparr>entry_path = path, entry_repo = Scalar rs\<rparr>], ovs))"
| "collect_changes_items path [] ed adds ovs = (adds, ovs)"
| "collect_changes_items path ((key, v) # rest) ed adds ovs =
     (case dict_get ed key of
        Some existing_val \<Rightarrow>
          (case collect_changes (path @ [key]) v existing_val True adds ovs of
             (adds', ovs') \<Rightarrow> collect_changes_items path rest ed adds' ovs')
      | None \<Rightarrow>
          collect_changes_items path rest ed (collect_additions (path @ [key]) v adds) ovs)"

text \<open>
  The loop of \<^verbatim>\<open>install\<close> over \<^verbatim>\<open>repo_data.items()\<close>, which starts the paths at
  \<^verbatim>\<open>[key]\<close>, followed by the merge: the ledger's two lists and the merged tree.
\<close>

fun install_changes ::
    "dict \<Rightarrow> dict \<Rightarrow> addition list \<Rightarrow> override list \<Rightarrow> addition list \<times> override list" where
  "install_changes [] existing_data adds ovs = (adds, ovs)"
| "install_changes ((key, v) # rest) existing_data adds ovs =
     (case dict_get existing_data key of
        Some existing_val \<Rightarrow>
          (case collect_changes [key] v existing_val True adds ovs of
             (adds', ovs') \<Rightarrow> install_changes rest existing_data adds' ovs')
      | None \<Rightarrow>
          install_changes rest existing_data (collect_additions [key] v adds) ovs)"

section \<open>Paths into a tree\<close>

text \<open>\<^verbatim>\<open>path_get(data, path)\<close>; Python's \<^verbatim>\<open>None\<close> is \<open>None\<close>.\<close>

fun path_get_from :: "value \<Rightarrow> string list \<Rightarrow> value option" where
  "path_get_from current [] = Some current"
| "path_get_from current (key # rest) =
     (case current of
        Table d \<Rightarrow>
          (case dict_get d key of
             Some v \<Rightarrow> path_get_from v rest
           | None \<Rightarrow> None)
      | Scalar s \<Rightarrow> None)"

definition path_get :: "dict \<Rightarrow> string list \<Rightarrow> value option" where
  "path_get data path = path_get_from (Table data) path"

text \<open>
  \<^verbatim>\<open>path_set(data, path, value)\<close>: the walk over \<^verbatim>\<open>path[:-1]\<close> puts an empty table
  wherever the key is missing or bound to a non-table, then \<^verbatim>\<open>path[-1]\<close> is stored.
  On the empty path \<^verbatim>\<open>path[-1]\<close> raises.
\<close>

datatype error = IndexError

fun path_set_walk :: "dict \<Rightarrow> string list \<Rightarrow> string \<Rightarrow> value \<Rightarrow> dict" where
  "path_set_walk current [] lst v = dict_set current lst v"
| "path_set_walk current (key # rest) lst v =
     dict_set current key
       (Table (path_set_walk
          (case dict_get current key of Some (Table c) \<Rightarrow> c | _ \<Rightarrow> []) rest lst v))"

definition path_set :: "dict \<Rightarrow> string list \<Rightarrow> value \<Rightarrow> error + dict" where
  "path_set data path v =
     (if path = [] then Inl IndexError
      else Inr (path_set_walk data (butlast path) (last path) v))"

text \<open>
  \<^verbatim>\<open>path_delete(data, path)\<close>.  The walk over \<^verbatim>\<open>path[:-1]\<close> pushes each table it
  leaves, with the key it leaves it by, on \<open>parents\<close>.  After the deletion of
  \<^verbatim>\<open>path[-1]\<close> the loop over \<^verbatim>\<open>reversed(parents)\<close> deletes the child from its parent
  as long as the child is an empty table.  The Python code mutates the tables in place;
  the model rebuilds the parents around the changed child (\<open>path_delete_plug\<close> once the
  loop has met a non-empty child and left).  The result is the returned flag and the tree.
\<close>

fun path_delete_walk ::
    "dict \<Rightarrow> string list \<Rightarrow> (dict \<times> string) list \<Rightarrow> (dict \<times> (dict \<times> string) list) option" where
  "path_delete_walk current [] parents = Some (current, parents)"
| "path_delete_walk current (key # rest) parents =
     (case dict_get current key of
        Some (Table c) \<Rightarrow> path_delete_walk c rest (parents @ [(current, key)])
      | _ \<Rightarrow> None)"

fun path_delete_plug :: "dict \<Rightarrow> (dict \<times> string) list \<Rightarrow> dict" where
  "path_delete_plug child [] = child"
| "path_delete_plug child ((parent, key) # ups) =
     path_delete_plug (dict_set parent key (Table child)) ups"

fun path_delete_prune :: "dict \<Rightarrow> (dict \<times> string) list \<Rightarrow> dict" where
  "path_delete_prune child [] = child"
| "path_delete_prune child ((parent, key) # ups) =
     (if child = [] then path_delete_prune (dict_del parent key) ups
      else path_delete_plug (dict_set parent key (Table child)) ups)"

definition path_delete :: "dict \<Rightarrow> string list \<Rightarrow> error + (bool \<times> dict)" where
  "path_delete data path =
     (if path = [] then Inl IndexError
      else
        (case path_delete_walk data (butlast path) [] of
           None \<Rightarrow> Inr (False, data)
         | Some (current, parents) \<Rightarrow>
             if \<not> dict_contains current (last path) then Inr (False, data)
             else Inr (True, path_delete_prune (dict_del current (last path)) (rev parents))))"

section \<open>The rollback engine\<close>

text \<open>
  The two loops of \<^verbatim>\<open>remove\<close>, over the overrides and then over the additions, on the
  state \<open>(data, skipped)\<close>.  An exception of \<^verbatim>\<open>path_set\<close> or \<^verbatim>\<open>path_delete\<close> ends the
  loop.  The ledger is typed here, so the guard \<^verbatim>\<open>isinstance(path, list)\<close> holds.
\<close>

fun rollback_overrides :: "override list \<Rightarrow> dict \<Rightarrow> nat \<Rightarrow> error + (dict \<times> nat)" where
  "rollback_overrides [] data skipped = Inr (data, skipped)"
| "rollback_overrides (entry # rest) data skipped =
     (case path_get data (entry_path entry) of
        None \<Rightarrow> rollback_overrides rest data skipped
      | Some current \<Rightarrow>
          if py_eq current (entry_repo entry) then
            (case path_set data (entry_path entry) (entry_previous entry) of
               Inl e \<Rightarrow> Inl e
             | Inr data' \<Rightarrow> rollback_overrides rest data' skipped)
          else rollback_overrides rest data (skipped + 1))"

fun rollback_additions :: "addition list \<Rightarrow> dict \<Rightarrow> nat \<Rightarrow> error + (dict \<times> nat)" where
  "rollback_additions [] data skipped = Inr (data, skipped)"
| "rollback_additions (entry # rest) data skipped =
     (case path_get data (entry_path entry) of
        None \<Rightarrow> rollback_additions rest data skipped
      | Some current \<Rightarrow>
          if py_eq current (entry_repo entry) then
            (case path_delete data (entry_path entry) of
               Inl e \<Rightarrow> Inl e
             | Inr (deleted, data') \<Rightarrow> rollback_additions rest data' skipped)
          else rollback_additions rest data (skipped + 1))"

definition rollback ::
    "addition list \<Rightarrow> override list \<Rightarrow> dict \<Rightarrow> error + (dict \<times> nat)" where
  "rollback adds ovs data =
     (case rollback_overrides ovs data 0 of
        Inl e \<Rightarrow> Inl e
      | Inr (data', skipped) \<Rightarrow> rollback_additions adds data' skipped)"

section \<open>Header lines and the document writer\<close>

text \<open>
  \<^verbatim>\<open>extract_header(text)\<close>.  The argument of the model is \<^verbatim>\<open>text.splitlines()\<close>.
  Characters are ASCII; \<open>strip\<close> is \<^verbatim>\<open>str.strip()\<close> on them.
\<close>

definition is_space :: "char \<Rightarrow> bool" where
  "is_space c \<longleftrightarrow>
     c \<in> set [CHR 0x09, CHR 0x0A, CHR 0x0B, CHR 0x0C, CHR 0x0D,
               CHR 0x1C, CHR 0x1D, CHR 0x1E, CHR 0x1F, CHR 0x20]"

definition strip :: "string \<Rightarrow> string" where
  "strip s = rev (dropWhile is_space (rev (dropWhile is_space s)))"

fun extract_header :: "string list \<Rightarrow> string list" where
  "extract_header [] = []"
| "extract_header (line # rest) =
     (let stripped = strip line in
      if stripped = [] then extract_header rest
      else if take 1 stripped = ''#'' then line # extract_header rest
      else [])"

text \<open>\<^verbatim>\<open>format_key\<close>, \<^verbatim>\<open>format_string\<close> and \<^verbatim>\<open>format_value\<close>, for ASCII strings.\<close>

definition is_alnum :: "char \<Rightarrow> bool" where
  "is_alnum c \<longleftrightarrow>
     (let n = (of_char c :: nat) in
      (48 \<le> n \<and> n \<le> 57) \<or> (65 \<le> n \<and> n \<le> 90) \<or> (97 \<le> n \<and> n \<le> 122))"

definition isalnum :: "string \<Rightarrow> bool" where
  "isalnum s \<longleftrightarrow> s \<noteq> [] \<and> list_all is_alnum s"

definition replace_char :: "char \<Rightarrow> string \<Rightarrow> string \<Rightarrow> string" where
  "replace_char c new s = concat (map (\<lambda>x. if x = c then new else [x]) s)"

fun replace_triple_quote :: "string \<Rightarrow> string" where
  "replace_triple_quote (a # b # c # rest) =
     (if a = CHR 0x22 \<and> b = CHR 0x22 \<and> c = CHR 0x22
      then [CHR 0x5C, CHR 0x22, CHR 0x22, CHR 0x22] @ replace_triple_quote rest
      else a # replace_triple_quote (b # c # rest))"
| "replace_triple_quote s = s"

definition format_key :: "string \<Rightarrow> string" where
  "format_key key =
     (if isalnum (replace_char (CHR ''-'') [] (replace_char (CHR ''_'') [] key)) then key
      else [CHR 0x22]
           @ replace_char (CHR 0x22) [CHR 0x5C, CHR 0x22]
               (replace_char (CHR 0x5C) [CHR 0x5C, CHR 0x5C] key)
           @ [CHR 0x22])"

definition format_string :: "string \<Rightarrow> string" where
  "format_string v =
     (if CHR 0x0A \<in> set v then
        [CHR 0x22, CHR 0x22, CHR 0x22]
        @ replace_char (CHR 0x22) [CHR 0x5C, CHR 0x22]
            (replace_triple_quote (replace_char (CHR 0x5C) [CHR 0x5C, CHR 0x5C] v))
        @ [CHR 0x22, CHR 0x22, CHR 0x22]
      else
        [CHR 0x22]
        @ replace_char (CHR 0x22) [CHR 0x5C, CHR 0x22]
            (replace_char (CHR 0x5C) [CHR 0x5C, CHR 0x5C] v)
        @ [CHR 0x22])"

text \<open>\<^verbatim>\<open>str(n)\<close> for an integer and \<^verbatim>\<open>sep.join(parts)\<close>.\<close>

function str_nat :: "nat \<Rightarrow> string" where
  "str_nat n = (if n < 10 then [char_of (48 + n)] else str_nat (n div 10) @ [char_of (48 + n mod 10)])"
  by pat_completeness auto
termination
  by (relation "measure id") auto

definition str_int :: "int \<Rightarrow> string" where
  "str_int i = (if i < 0 then ''-'' @ str_nat (nat (- i)) else str_nat (nat i))"

fun join :: "string \<Rightarrow> string list \<Rightarrow> string" where
  "join sep [] = []"
| "join sep [x] = x"
| "join sep (x # y # rest) = x @ sep @ join sep (y # rest)"

fun format_value :: "scalar \<Rightarrow> string" where
  "format_value (PBool b) = (if b then ''true'' else ''false'')"
| "format_value (PInt i) = str_int i"
| "format_value (PStr s) = format_string s"
| "format_value (PList items) = ''['' @ join '', '' (map format_value items) @ '']''"

text \<open>
  \<^verbatim>\<open>dump_toml(data, header)\<close> up to the list \<open>lines\<close>, which the source joins with
  newlines (and strips of trailing whitespace) to the text of the document.  The nested
  function \<^verbatim>\<open>emit_table\<close> appends to \<open>lines\<close>; its two loops are \<open>emit_scalars\<close> and
  \<open>emit_subtables\<close>.
\<close>

fun emit_scalars :: "dict \<Rightarrow> string list \<Rightarrow> string list" where
  "emit_scalars [] lines = lines"
| "emit_scalars ((key, Table t) # rest) lines = emit_scalars rest lines"
| "emit_scalars ((key, Scalar v) # rest) lines =
     emit_scalars rest (lines @ [format_key key @ '' = '' @ format_value v])"

fun emit_table :: "string list \<Rightarrow> dict \<Rightarrow> string list \<Rightarrow> string list"
  and emit_subtables :: "string list \<Rightarrow> dict \<Rightarrow> string list \<Rightarrow> string list" where
  "emit_table path table lines =
     emit_subtables path table
       (emit_scalars table
          (if path \<noteq> [] then lines @ [''['' @ join ''.'' (map format_key path) @ '']'']
           else lines))"
| "emit_subtables path [] lines = lines"
| "emit_subtables path ((key, Scalar v) # rest) lines = emit_subtables path rest lines"
| "emit_subtables path ((key, Table t) # rest) lines =
     emit_subtables path rest
       (emit_table (path @ [key]) t
          (if lines \<noteq> [] \<and> last lines \<noteq> [] then lines @ [[]] else lines))"

definition dump_toml_lines :: "dict \<Rightarrow> string list \<Rightarrow> string list" where
  "dump_toml_lines data header =
     emit_table [] data (if header \<noteq> [] then header @ [[]] else [])"

section \<open>\<^verbatim>\<open>install\<close> and \<^verbatim>\<open>remove\<close>\<close>

text \<open>
  The \<^verbatim>\<open>config\<close> object of the state file.  Its \<^verbatim>\<open>path\<close> entry is written by
  \<^verbatim>\<open>install\<close> and never read by \<^verbatim>\<open>remove\<close>; it is left out.
\<close>

record ledger =
  had_config :: bool
  existing_header :: "string list"
  additions :: "addition list"
  overrides :: "override list"

text \<open>
  A file that \<^verbatim>\<open>load_toml\<close> has read is the pair of the parsed tree and the lines of
  its text; a missing file is \<open>None\<close>.  A call \<^verbatim>\<open>write_text(dump_toml(data, header))\<close>
  is the value \<open>Written data header\<close>, \<^verbatim>\<open>unlink\<close> is \<open>Unlinked\<close>.
\<close>

datatype file_effect = Untouched | Unlinked | Written dict "string list"

record install_result =
  install_status :: int
  install_target :: file_effect
  install_state :: ledger

text \<open>
  \<^verbatim>\<open>install(args)\<close>: \<open>repo_data\<close> is the repo tree after
  \<^verbatim>\<open>apply_opencode_permissions\<close>, \<open>repo_text\<close> the lines of the repo file, \<open>target\<close>
  the target file if it exists.
\<close>

definition install ::
    "dict \<Rightarrow> string list \<Rightarrow> (dict \<times> string list) option \<Rightarrow> install_result" where
  "install repo_data repo_text target =
     (let had = (target \<noteq> None);
          existing_data = (case target of Some (data, text) \<Rightarrow> data | None \<Rightarrow> []);
          existing_hdr = (case target of Some (data, text) \<Rightarrow> extract_header text | None \<Rightarrow> []);
          (adds, ovs) = install_changes repo_data existing_data [] [];
          merged = merge_dicts existing_data repo_data;
          repo_header = extract_header repo_text;
          header = (if repo_header \<noteq> [] then repo_header else existing_hdr)
      in \<lparr>install_status = 0,
          install_target = Written merged header,
          install_state = \<lparr>had_config = had, existing_header = existing_hdr,
                            additions = adds, overrides = ovs\<rparr>\<rparr>)"

text \<open>The lines that \<^verbatim>\<open>remove\<close> prints.\<close>

datatype message = State_file_not_found | Config_file_missing | Preserved nat

record remove_result =
  remove_status :: int
  remove_target :: file_effect
  state_unlinked :: bool
  printed :: "message list"

text \<open>
  \<^verbatim>\<open>remove(args)\<close>: \<open>state_file\<close> is the ledger if the state file exists, \<open>target\<close>
  the parsed tree of the target file if that exists.
\<close>

definition remove :: "ledger option \<Rightarrow> dict option \<Rightarrow> error + remove_result" where
  "remove state_file target =
     (case state_file of
        None \<Rightarrow>
          Inr \<lparr>remove_status = 0, remove_target = Untouched, state_unlinked = False,
               printed = [State_file_not_found]\<rparr>
      | Some config_state \<Rightarrow>
          (case target of
             None \<Rightarrow>
               Inr \<lparr>remove_status = 0, remove_target = Untouched, state_unlinked = True,
                    printed = [Config_file_missing]\<rparr>
           | Some data \<Rightarrow>
               (case rollback (additions config_state) (overrides config_state) data of
                  Inl e \<Rightarrow> Inl e
                | Inr (data', skipped) \<Rightarrow>
                    Inr \<lparr>remove_status = 0,
                         remove_target =
                           (if data' \<noteq> [] then Written data' (existing_header config_state)
                            else if \<not> had_config config_state then Unlinked
                            else Written data' (existing_header config_state)),
                         state_unlinked = True,
                         printed = (if skipped \<noteq> 0 then [Preserved skipped] else [])\<rparr>)))"

section \<open>The state file\<close>

text \<open>
  \<^verbatim>\<open>install\<close> writes the state with \<^verbatim>\<open>json.dumps(state, indent=2, sort_keys=True)\<close>
  and \<^verbatim>\<open>remove\<close> reads it with \<^verbatim>\<open>json.loads\<close>.  Booleans, integers, strings and
  lists come back as they were written; a dictionary comes back with its keys sorted,
  at every level.  \<open>str_less\<close> is Python's \<^verbatim>\<open><\<close> on strings (by code point),
  \<open>sorted_insert\<close> puts a binding at its place in a list sorted by key, and
  \<open>json_value\<close> is what \<^verbatim>\<open>json.loads(json.dumps(v, sort_keys=True))\<close> returns for a value
  \<open>v\<close> of the ledger.
\<close>

fun str_less :: "string \<Rightarrow> string \<Rightarrow> bool" where
  "str_less [] [] = False"
| "str_less [] (y # ys) = True"
| "str_less (x # xs) [] = False"
| "str_less (x # xs) (y # ys) =
     ((of_char x :: nat) < of_char y \<or> (x = y \<and> str_less xs ys))"

fun sorted_insert :: "string \<Rightarrow> value \<Rightarrow> dict \<Rightarrow> dict" where
  "sorted_insert key v [] = [(key, v)]"
| "sorted_insert key v ((k, w) # rest) =
     (if str_less key k then (key, v) # (k, w) # rest
      else (k, w) # sorted_insert key v rest)"

fun json_value :: "value \<Rightarrow> value"
  and json_items :: "dict \<Rightarrow> dict" where
  "json_value (Scalar s) = Scalar s"
| "json_value (Table d) = Table (json_items d)"
| "json_items [] = []"
| "json_items ((k, v) # rest) = sorted_insert k (json_value v) (json_items rest)"

text \<open>
  The ledger that \<^verbatim>\<open>remove\<close> reads from the state file that \<^verbatim>\<open>install\<close> wrote.
\<close>

definition json_addition :: "addition \<Rightarrow> addition" where
  "json_addition a = \<lparr>entry_path = entry_path a, entry_repo = json_value (entry_repo a)\<rparr>"

definition json_override :: "override \<Rightarrow> override" where
  "json_override e =
     \<lparr>entry_path = entry_path e, entry_repo = json_value (entry_repo e),
      entry_previous = json_value (entry_previous e)\<rparr>"

definition json_state :: "ledger \<Rightarrow> ledger" where
  "json_state st =
     \<lparr>had_config = had_config st, existing_header = existing_header st,
      additions = map json_addition (additions st),
      overrides = map json_override (overrides st)\<rparr>"

section \<open>Auxiliary notions for the proofs\<close>

text \<open>The value that \<^verbatim>\<open>merge_dicts\<close> stores under a key of \<open>base\<close>, given what
  \<open>overlay\<close> holds under that key.\<close>

definition merge_value :: "value \<Rightarrow> value option \<Rightarrow> value" where
  "merge_value base_val ov =
     (case ov of
        None \<Rightarrow> base_val
      | Some overlay_val \<Rightarrow>
          (case (base_val, overlay_val) of
             (Table b, Table ov) \<Rightarrow> Table (merge_dicts b ov)
           | _ \<Rightarrow> overlay_val))"

definition pre :: "string list \<Rightarrow> 'a addition_scheme \<Rightarrow> 'a addition_scheme" where
  "pre p e = e\<lparr>entry_path := p @ entry_path e\<rparr>"

definition item_additions :: "dict \<Rightarrow> string \<times> value \<Rightarrow> addition list" where
  "item_additions ed kv =
     map (pre [fst kv])
       (case dict_get ed (fst kv) of
          Some existing_val \<Rightarrow> fst (collect_changes [] (snd kv) existing_val True [] [])
        | None \<Rightarrow> collect_additions [] (snd kv) [])"

definition item_overrides :: "dict \<Rightarrow> string \<times> value \<Rightarrow> override list" where
  "item_overrides ed kv =
     map (pre [fst kv])
       (case dict_get ed (fst kv) of
          Some existing_val \<Rightarrow> snd (collect_changes [] (snd kv) existing_val True [] [])
        | None \<Rightarrow> [])"

text \<open>What \<^verbatim>\<open>install\<close> records is sound: an addition sits on a non-table value of the
  repo tree at a path the existing tree lacks, an override on a path both trees have,
  where the two values are not both tables and are not equal.\<close>

definition addition_ok :: "value \<Rightarrow> value \<Rightarrow> addition \<Rightarrow> bool" where
  "addition_ok rv ev a \<longleftrightarrow>
     path_get_from rv (entry_path a) = Some (entry_repo a) \<and> \<not> is_dict (entry_repo a)
     \<and> path_get_from ev (entry_path a) = None"

definition override_ok :: "value \<Rightarrow> value \<Rightarrow> override \<Rightarrow> bool" where
  "override_ok rv ev e \<longleftrightarrow>
     path_get_from rv (entry_path e) = Some (entry_repo e)
     \<and> path_get_from ev (entry_path e) = Some (entry_previous e)
     \<and> \<not> (is_dict (entry_repo e) \<and> is_dict (entry_previous e))
     \<and> \<not> py_eq (entry_previous e) (entry_repo e)"

text \<open>The table that the walk of \<^verbatim>\<open>path_set\<close> continues in.\<close>

definition child_table :: "dict \<Rightarrow> string \<Rightarrow> dict" where
  "child_table d k = (case dict_get d k of Some (Table c) \<Rightarrow> c | _ \<Rightarrow> [])"

definition pset :: "dict \<Rightarrow> string list \<Rightarrow> value \<Rightarrow> dict" where
  "pset d p v = path_set_walk d (butlast p) (last p) v"

fun path_delete_rec :: "dict \<Rightarrow> string list \<Rightarrow> bool \<times> dict" where
  "path_delete_rec d [] = (False, d)"
| "path_delete_rec d [k] = (if dict_contains d k then (True, dict_del d k) else (False, d))"
| "path_delete_rec d (k # k' # q) =
     (case dict_get d k of
        Some (Table c) \<Rightarrow>
          (case path_delete_rec c (k' # q) of
             (True, c') \<Rightarrow> (True, if c' = [] then dict_del d k else dict_set d k (Table c'))
           | (False, c') \<Rightarrow> (False, d))
      | _ \<Rightarrow> (False, d))"

definition single_at :: "dict \<Rightarrow> string list \<Rightarrow> bool" where
  "single_at d b \<longleftrightarrow> (\<exists>kv. path_get d b = Some (Table [kv]))"

text \<open>The two loops of the rollback without the exception: for ledgers whose paths are
  non-empty they compute what \<open>rollback_overrides\<close> and \<open>rollback_additions\<close> return.\<close>

fun ro :: "override list \<Rightarrow> dict \<Rightarrow> nat \<Rightarrow> dict \<times> nat" where
  "ro [] d s = (d, s)"
| "ro (e # es) d s =
     (case path_get d (entry_path e) of
        None \<Rightarrow> ro es d s
      | Some cur \<Rightarrow>
          if py_eq cur (entry_repo e) then ro es (pset d (entry_path e) (entry_previous e)) s
          else ro es d (s + 1))"

fun ra :: "addition list \<Rightarrow> dict \<Rightarrow> nat \<Rightarrow> dict \<times> nat" where
  "ra [] d s = (d, s)"
| "ra (e # es) d s =
     (case path_get d (entry_path e) of
        None \<Rightarrow> ra es d s
      | Some cur \<Rightarrow>
          if py_eq cur (entry_repo e) then ra es (snd (path_delete_rec d (entry_path e))) s
          else ra es d (s + 1))"

text \<open>A tree has no empty table below its root.\<close>

fun no_empty_table :: "value \<Rightarrow> bool"
  and no_empty_tables :: "dict \<Rightarrow> bool" where
  "no_empty_table (Scalar s) = True"
| "no_empty_table (Table d) = (d \<noteq> [] \<and> no_empty_tables d)"
| "no_empty_tables [] = True"
| "no_empty_tables ((k, v) # rest) = (no_empty_table v \<and> no_empty_tables rest)"

text \<open>Two trees have the same keys in the same order at every level, and values that
  Python's \<^verbatim>\<open>==\<close> equates at the leaves.\<close>

fun tree_sim :: "value \<Rightarrow> value \<Rightarrow> bool"
  and dict_sim :: "dict \<Rightarrow> dict \<Rightarrow> bool" where
  "tree_sim (Scalar a) (Scalar b) = py_eq_scalar a b"
| "tree_sim (Table d) (Table e) = dict_sim d e"
| "tree_sim (Scalar a) (Table e) = False"
| "tree_sim (Table d) (Scalar b) = False"
| "dict_sim [] [] = True"
| "dict_sim ((k, v) # d) ((k', w) # e) = (k = k' \<and> tree_sim v w \<and> dict_sim d e)"
| "dict_sim [] (x # e) = False"
| "dict_sim (x # d) [] = False"

text \<open>
  The merged tree after the overrides have been rolled back: where both trees bind a
  key, the existing value is back, except that two tables are treated key by key and
  that a leaf which Python's \<^verbatim>\<open>==\<close> equates with the repo's leaf was never recorded
  and keeps the repo's value; what only the repo tree binds is still there.
\<close>

fun restore_value :: "value \<Rightarrow> value option \<Rightarrow> value"
  and restore_items :: "dict \<Rightarrow> dict \<Rightarrow> dict" where
  "restore_value ev None = ev"
| "restore_value (Table e) (Some (Table r)) =
     Table (restore_items e r @ filter (\<lambda>(k, v). dict_get e k = None) r)"
| "restore_value (Scalar a) (Some (Scalar b)) = (if py_eq_scalar a b then Scalar b else Scalar a)"
| "restore_value (Scalar a) (Some (Table r)) = Scalar a"
| "restore_value (Table e) (Some (Scalar b)) = Table e"
| "restore_items [] r = []"
| "restore_items ((k, ev) # rest) r = (k, restore_value ev (dict_get r k)) # restore_items rest r"

text \<open>The same tree once the additions have been rolled back as well.\<close>

fun settle_value :: "value \<Rightarrow> value option \<Rightarrow> value"
  and settle_items :: "dict \<Rightarrow> dict \<Rightarrow> dict" where
  "settle_value ev None = ev"
| "settle_value (Table e) (Some (Table r)) = Table (settle_items e r)"
| "settle_value (Scalar a) (Some (Scalar b)) = (if py_eq_scalar a b then Scalar b else Scalar a)"
| "settle_value (Scalar a) (Some (Table r)) = Scalar a"
| "settle_value (Table e) (Some (Scalar b)) = Table e"
| "settle_items [] r = []"
| "settle_items ((k, ev) # rest) r = (k, settle_value ev (dict_get r k)) # settle_items rest r"

definition mid_dicts :: "dict \<Rightarrow> dict \<Rightarrow> dict" where
  "mid_dicts e r = restore_items e r @ filter (\<lambda>(k, v). dict_get e k = None) r"

text \<open>
  The spec's reading of the ledger as a patch: ``applying every recorded Addition and
  Override onto E (add repo value at addition paths, set repo value at override
  paths)''.  The repo value is stored with \<^verbatim>\<open>path_set\<close>, first for the additions, then
  for the overrides, each list in its recorded order.
\<close>

fun spec_apply_entries :: "'a addition_scheme list \<Rightarrow> dict \<Rightarrow> error + dict" where
  "spec_apply_entries [] data = Inr data"
| "spec_apply_entries (entry # rest) data =
     (case path_set data (entry_path entry) (entry_repo entry) of
        Inl e \<Rightarrow> Inl e
      | Inr data' \<Rightarrow> spec_apply_entries rest data')"

definition spec_apply_changes :: "addition list \<Rightarrow> override list \<Rightarrow> dict \<Rightarrow> error + dict" where
  "spec_apply_changes adds ovs data =
     (case spec_apply_entries adds data of
        Inl e \<Rightarrow> Inl e
      | Inr data' \<Rightarrow> spec_apply_entries ovs data')"

text \<open>The same without the exception, for entries with non-empty paths.\<close>

fun ap :: "'a addition_scheme list \<Rightarrow> dict \<Rightarrow> dict" where
  "ap [] d = d"
| "ap (e # es) d = ap es (pset d (entry_path e) (entry_repo e))"

text \<open>The existing tree after the additions have been applied.\<close>

fun grow_value :: "value \<Rightarrow> value option \<Rightarrow> value"
  and grow_items :: "dict \<Rightarrow> dict \<Rightarrow> dict" where
  "grow_value ev None = ev"
| "grow_value (Table e) (Some (Table r)) =
     Table (grow_items e r @ filter (\<lambda>(k, v). dict_get e k = None) r)"
| "grow_value (Scalar a) (Some rv) = Scalar a"
| "grow_value (Table e) (Some (Scalar b)) = Table e"
| "grow_items [] r = []"
| "grow_items ((k, ev) # rest) r = (k, grow_value ev (dict_get r k)) # grow_items rest r"

definition grow_dicts :: "dict \<Rightarrow> dict \<Rightarrow> dict" where
  "grow_dicts e r = grow_items e r @ filter (\<lambda>(k, v). dict_get e k = None) r"

text \<open>The existing tree after the additions and the overrides have been applied: a
  leaf that Python's \<^verbatim>\<open>==\<close> equates with the repo's leaf has no entry and stays.\<close>

fun applied_value :: "value \<Rightarrow> value option \<Rightarrow> value"
  and applied_items :: "dict \<Rightarrow> dict \<Rightarrow> dict" where
  "applied_value ev None = ev"
| "applied_value (Table e) (Some (Table r)) =
     Table (applied_items e r @ filter (\<lambda>(k, v). dict_get e k = None) r)"
| "applied_value (Scalar a) (Some (Scalar b)) = (if py_eq_scalar a b then Scalar a else Scalar b)"
| "applied_value (Scalar a) (Some (Table r)) = Table r"
| "applied_value (Table e) (Some (Scalar b)) = Scalar b"
| "applied_items [] r = []"
| "applied_items ((k, ev) # rest) r = (k, applied_value ev (dict_get r k)) # applied_items rest r"

definition applied_dicts :: "dict \<Rightarrow> dict \<Rightarrow> dict" where
  "applied_dicts e r = applied_items e r @ filter (\<lambda>(k, v). dict_get e k = None) r"

text \<open>
  Two values are the same tree if they differ in the order of the keys of their tables
  only: the same leaves, and tables with the same keys bound to the same trees.
\<close>

fun same_tree :: "value \<Rightarrow> value \<Rightarrow> bool"
  and same_items :: "dict \<Rightarrow> dict \<Rightarrow> bool" where
  "same_tree (Scalar a) (Scalar b) = (a = b)"
| "same_tree (Table d) (Table e) = (length d = length e \<and> same_items d e)"
| "same_tree (Scalar a) (Table e) = False"
| "same_tree (Table d) (Scalar b) = False"
| "same_items [] e = True"
| "same_items ((k, v) # rest) e =
     ((case dict_get e k of None \<Rightarrow> False | Some w \<Rightarrow> same_tree v w) \<and> same_items rest e)"

text \<open>
  Two ledger entries are alike if they have the same path and their values are the same
  trees up to the order of keys.
\<close>

definition same_addition :: "addition \<Rightarrow> addition \<Rightarrow> bool" where
  "same_addition a b \<longleftrightarrow>
     entry_path a = entry_path b \<and> wf_value (entry_repo a) \<and> wf_value (entry_repo b)
     \<and> same_tree (entry_repo a) (entry_repo b)"

definition same_override :: "override \<Rightarrow> override \<Rightarrow> bool" where
  "same_override a b \<longleftrightarrow>
     entry_path a = entry_path b \<and> wf_value (entry_repo a) \<and> wf_value (entry_repo b)
     \<and> same_tree (entry_repo a) (entry_repo b)
     \<and> wf_value (entry_previous a) \<and> wf_value (entry_previous b)
     \<and> same_tree (entry_previous a) (entry_previous b)"

section \<open>Facts about the dictionary primitives\<close>

lemma dict_get_eq_map_of: "dict_get d k = map_of d k"
  by (induction d) auto

lemma dict_get_None_iff: "dict_get d k = None \<longleftrightarrow> k \<notin> fst ` set d"
  by (induction d) force+

lemma dict_get_Some_mem: "dict_get d k = Some v \<Longrightarrow> (k, v) \<in> set d"
  by (induction d) (auto split: if_splits)

lemma wf_dict_distinct: "wf_dict d \<Longrightarrow> distinct (map fst d)"
  by (induction d) (force simp: dict_get_None_iff)+

lemma wf_dict_iff: "wf_dict d \<longleftrightarrow> distinct (map fst d) \<and> (\<forall>(k, v) \<in> set d. wf_value v)"
  by (induction d) (force simp: dict_get_None_iff)+

lemma dict_get_wf_value: "wf_dict d \<Longrightarrow> dict_get d k = Some v \<Longrightarrow> wf_value v"
  by (auto simp: wf_dict_iff dest: dict_get_Some_mem)

lemma dict_get_mem: "distinct (map fst d) \<Longrightarrow> (k, v) \<in> set d \<Longrightarrow> dict_get d k = Some v"
  by (induction d) (auto simp: rev_image_eqI)

lemma dict_set_fresh: "dict_get d k = None \<Longrightarrow> dict_set d k v = d @ [(k, v)]"
  by (induction d) (auto split: if_splits)

lemma dict_get_append: "dict_get (d @ e) k = (case dict_get d k of None \<Rightarrow> dict_get e k | Some v \<Rightarrow> Some v)"
  by (induction d) auto

lemma dict_get_set: "dict_get (dict_set d k v) k' = (if k' = k then Some v else dict_get d k')"
  by (induction d) auto

lemma dict_get_del_other: "k' \<noteq> k \<Longrightarrow> dict_get (dict_del d k) k' = dict_get d k'"
  by (induction d) auto

lemma dict_get_del_same: "distinct (map fst d) \<Longrightarrow> dict_get (dict_del d k) k = None"
proof (induction d)
  case Nil
  then show ?case by simp
next
  case (Cons a d)
  obtain k' v where a: "a = (k', v)" by (cases a)
  from Cons show ?case by (auto simp: a dict_get_None_iff)
qed

lemma dict_set_same: "dict_get d k = Some v \<Longrightarrow> dict_set d k v = d"
  by (induction d) (auto split: if_splits)

lemma dict_set_set: "dict_set (dict_set d k v) k w = dict_set d k w"
  by (induction d) auto

lemma keys_dict_set: "dict_get d k \<noteq> None \<Longrightarrow> map fst (dict_set d k v) = map fst d"
  by (induction d) auto

lemma keys_dict_del: "distinct (map fst d) \<Longrightarrow> map fst (dict_del d k) = filter (\<lambda>x. x \<noteq> k) (map fst d)"
proof (induction d)
  case Nil
  then show ?case by simp
next
  case (Cons a d)
  obtain k' v where a: "a = (k', v)" by (cases a)
  show ?case
  proof (cases "k' = k")
    case True
    with Cons.prems have "k \<notin> set (map fst d)" by (simp add: a)
    then have "filter (\<lambda>x. x \<noteq> k) (map fst d) = map fst d"
      by (intro filter_True) auto
    with True show ?thesis by (simp add: a)
  next
    case False
    with Cons show ?thesis by (simp add: a)
  qed
qed

lemma dict_del_absent: "dict_get d k = None \<Longrightarrow> dict_del d k = d"
  by (induction d) (auto split: if_splits)

section \<open>The merger in closed form\<close>

declare merge_dicts.simps [simp del]

lemma merge_base_loop_eq:
  "distinct (map fst base) \<Longrightarrow> fst ` set base \<inter> fst ` set merged = {} \<Longrightarrow>
   merge_base_loop base overlay merged =
     merged @ map (\<lambda>(k, bv). (k, merge_value bv (dict_get overlay k))) base"
proof (induction base arbitrary: merged)
  case Nil
  then show ?case by simp
next
  case (Cons a base)
  obtain k bv where a: "a = (k, bv)" by (cases a)
  from Cons.prems have fresh: "dict_get merged k = None"
    by (auto simp: a dict_get_None_iff)
  have mv: "(case dict_get overlay k of
             Some overlay_val \<Rightarrow>
               (case (bv, overlay_val) of
                  (Table b, Table ov) \<Rightarrow> Table (merge_dicts b ov)
                | _ \<Rightarrow> overlay_val)
           | None \<Rightarrow> bv) = merge_value bv (dict_get overlay k)"
    by (simp add: merge_value_def split: option.splits)
  have "merge_base_loop (a # base) overlay merged =
        merge_base_loop base overlay (merged @ [(k, merge_value bv (dict_get overlay k))])"
    unfolding a merge_base_loop.simps(2) mv by (simp only: dict_set_fresh[OF fresh])
  also have "\<dots> = (merged @ [(k, merge_value bv (dict_get overlay k))]) @
        map (\<lambda>(k, bv). (k, merge_value bv (dict_get overlay k))) base"
    using Cons.prems by (intro Cons.IH) (auto simp: a)
  finally show ?case by (simp add: a)
qed

lemma merge_overlay_loop_eq:
  "distinct (map fst overlay) \<Longrightarrow>
   (\<forall>k \<in> fst ` set overlay. dict_get base k = None \<longrightarrow> dict_get merged k = None) \<Longrightarrow>
   merge_overlay_loop overlay base merged =
     merged @ filter (\<lambda>(k, v). dict_get base k = None) overlay"
proof (induction overlay arbitrary: merged)
  case Nil
  then show ?case by simp
next
  case (Cons a overlay)
  obtain k v where a: "a = (k, v)" by (cases a)
  show ?case
  proof (cases "dict_get base k = None")
    case True
    with Cons.prems have fresh: "dict_get merged k = None" by (auto simp: a)
    have "merge_overlay_loop (a # overlay) base merged =
          merge_overlay_loop overlay base (merged @ [(k, v)])"
      using True by (simp add: a dict_contains_def dict_set_fresh[OF fresh])
    also have "\<dots> = (merged @ [(k, v)]) @ filter (\<lambda>(k, v). dict_get base k = None) overlay"
      using Cons.prems by (intro Cons.IH) (auto simp: a dict_get_append split: option.splits)
    finally show ?thesis using True by (simp add: a)
  next
    case False
    have "merge_overlay_loop (a # overlay) base merged = merge_overlay_loop overlay base merged"
      using False by (simp add: a dict_contains_def)
    also have "\<dots> = merged @ filter (\<lambda>(k, v). dict_get base k = None) overlay"
      using Cons.prems by (intro Cons.IH) (auto simp: a)
    finally show ?thesis using False by (simp add: a)
  qed
qed

lemma dict_get_map_value:
  "dict_get (map (\<lambda>(k, v). (k, f k v)) d) key = map_option (f key) (dict_get d key)"
  by (induction d) auto

lemma merge_dicts_eq:
  assumes "distinct (map fst base)" "distinct (map fst overlay)"
  shows "merge_dicts base overlay =
     map (\<lambda>(k, bv). (k, merge_value bv (dict_get overlay k))) base @
     filter (\<lambda>(k, v). dict_get base k = None) overlay"
proof -
  have 1: "merge_base_loop base overlay [] =
      map (\<lambda>(k, bv). (k, merge_value bv (dict_get overlay k))) base"
    using merge_base_loop_eq[OF assms(1), of "[]" overlay] by simp
  have 2: "\<forall>k \<in> fst ` set overlay. dict_get base k = None \<longrightarrow>
      dict_get (map (\<lambda>(k, bv). (k, merge_value bv (dict_get overlay k))) base) k = None"
    by (simp add: dict_get_map_value)
  show ?thesis
    by (simp only: merge_dicts.simps 1 merge_overlay_loop_eq[OF assms(2) 2])
qed

text \<open>
  C5.  For dictionaries \<open>existing\<close> and \<open>repo\<close> (distinct keys at every level),
  \<open>merge_dicts existing repo\<close> binds a key as follows: to the recursive merge when both
  bind it to a table; to the repo value when both bind it and one of the two values is
  not a table; to the existing value when only \<open>existing\<close> binds it; to the repo value
  when only \<open>repo\<close> binds it.  Its keys are those of \<open>existing\<close> in their order,
  followed by the keys of \<open>repo\<close> that \<open>existing\<close> lacks, in the order of \<open>repo\<close>.
  The tables below the top level are merged by the same function, so the rule holds at
  every level.
\<close>

theorem merge_dicts_rule:
  assumes "wf_dict existing" and "wf_dict repo"
  shows "(\<forall>e r. dict_get existing key = Some (Table e) \<and> dict_get repo key = Some (Table r)
            \<longrightarrow> dict_get (merge_dicts existing repo) key = Some (Table (merge_dicts e r)))
       \<and> (\<forall>existing_val repo_val.
             dict_get existing key = Some existing_val \<and> dict_get repo key = Some repo_val
             \<and> \<not> (is_dict existing_val \<and> is_dict repo_val)
            \<longrightarrow> dict_get (merge_dicts existing repo) key = Some repo_val)
       \<and> (dict_get repo key = None
            \<longrightarrow> dict_get (merge_dicts existing repo) key = dict_get existing key)
       \<and> (dict_get existing key = None
            \<longrightarrow> dict_get (merge_dicts existing repo) key = dict_get repo key)
       \<and> map fst (merge_dicts existing repo) =
           map fst existing @ filter (\<lambda>k. \<not> dict_contains existing k) (map fst repo)"
proof -
  have eq: "merge_dicts existing repo =
      map (\<lambda>(k, bv). (k, merge_value bv (dict_get repo k))) existing @
      filter (\<lambda>(k, v). dict_get existing k = None) repo"
    using assms by (intro merge_dicts_eq wf_dict_distinct)
  have get: "dict_get (merge_dicts existing repo) key =
      (case dict_get existing key of
         Some bv \<Rightarrow> Some (merge_value bv (dict_get repo key))
       | None \<Rightarrow> dict_get repo key)"
  proof (cases "dict_get existing key")
    case None
    have "dict_get (filter (\<lambda>(k, v). dict_get existing k = None) repo) key = dict_get repo key"
      using None by (induction repo) auto
    with None show ?thesis
      by (simp add: eq dict_get_append dict_get_map_value)
  next
    case (Some bv)
    then show ?thesis
      by (simp add: eq dict_get_append dict_get_map_value)
  qed
  have keys: "map fst (merge_dicts existing repo) =
      map fst existing @ filter (\<lambda>k. \<not> dict_contains existing k) (map fst repo)"
  proof -
    have "map fst (map (\<lambda>(k, bv). (k, merge_value bv (dict_get repo k))) existing)
        = map fst existing"
      by (induction existing) auto
    moreover have "map fst (filter (\<lambda>(k, v). dict_get existing k = None) repo)
        = filter (\<lambda>k. \<not> dict_contains existing k) (map fst repo)"
      by (induction repo) (auto simp: dict_contains_def)
    ultimately show ?thesis by (simp add: eq)
  qed
  have r1: "\<forall>e r. dict_get existing key = Some (Table e) \<and> dict_get repo key = Some (Table r)
            \<longrightarrow> dict_get (merge_dicts existing repo) key = Some (Table (merge_dicts e r))"
    by (simp add: get merge_value_def)
  have r2: "\<forall>existing_val repo_val.
             dict_get existing key = Some existing_val \<and> dict_get repo key = Some repo_val
             \<and> \<not> (is_dict existing_val \<and> is_dict repo_val)
            \<longrightarrow> dict_get (merge_dicts existing repo) key = Some repo_val"
  proof (intro allI impI)
    fix existing_val repo_val
    assume h: "dict_get existing key = Some existing_val \<and> dict_get repo key = Some repo_val
             \<and> \<not> (is_dict existing_val \<and> is_dict repo_val)"
    then show "dict_get (merge_dicts existing repo) key = Some repo_val"
      by (cases existing_val; cases repo_val) (simp_all add: get merge_value_def)
  qed
  have r3: "dict_get repo key = None
            \<longrightarrow> dict_get (merge_dicts existing repo) key = dict_get existing key"
    by (simp add: get merge_value_def split: option.splits)
  have r4: "dict_get existing key = None
            \<longrightarrow> dict_get (merge_dicts existing repo) key = dict_get repo key"
    by (simp add: get)
  from r1 r2 r3 r4 keys show ?thesis by blast
qed

theorem merge_dicts_rule_witness:
  "wf_dict [(''a'', Table [(''x'', Scalar (PInt 1))]), (''b'', Scalar (PInt 2))]
   \<and> wf_dict [(''c'', Scalar (PInt 4)), (''a'', Table [(''y'', Scalar (PInt 3))])]
   \<and> dict_get
        (merge_dicts [(''a'', Table [(''x'', Scalar (PInt 1))]), (''b'', Scalar (PInt 2))]
           [(''c'', Scalar (PInt 4)), (''a'', Table [(''y'', Scalar (PInt 3))])]) ''a''
       = Some (Table (merge_dicts [(''x'', Scalar (PInt 1))] [(''y'', Scalar (PInt 3))]))
   \<and> map fst
        (merge_dicts [(''a'', Table [(''x'', Scalar (PInt 1))]), (''b'', Scalar (PInt 2))]
           [(''c'', Scalar (PInt 4)), (''a'', Table [(''y'', Scalar (PInt 3))])])
       = [''a'', ''b'', ''c'']"
  using merge_dicts_rule
    [of "[(''a'', Table [(''x'', Scalar (PInt 1))]), (''b'', Scalar (PInt 2))]"
        "[(''c'', Scalar (PInt 4)), (''a'', Table [(''y'', Scalar (PInt 3))])]" "''a''"]
  by (simp add: dict_contains_def merge_dicts.simps)

lemma pre_pre [simp]: "pre p (pre q e) = pre (p @ q) e"
  by (simp add: pre_def)

lemma pre_Nil [simp]: "pre [] e = e"
  by (simp add: pre_def)

lemma entry_path_pre [simp]: "entry_path (pre p e) = p @ entry_path e"
  by (simp add: pre_def)

lemma entry_repo_pre [simp]: "entry_repo (pre p e) = entry_repo e"
  by (simp add: pre_def)

lemma entry_previous_pre [simp]: "entry_previous (pre p e) = entry_previous e"
  by (simp add: pre_def)

lemma map_pre_Nil [simp]: "map (pre []) es = es"
  by (induction es) auto

lemma map_pre_pre [simp]: "map (pre p) (map (pre q) es) = map (pre (p @ q)) es"
  by (induction es) auto

lemma collect_additions_pre:
  "collect_additions p v adds = adds @ map (pre p) (collect_additions [] v [])"
  "collect_additions_items p d adds = adds @ map (pre p) (collect_additions_items [] d [])"
proof (induction v and d arbitrary: p adds and p adds rule: wf_value_wf_dict.induct)
  case (1 s)
  show ?case by (simp add: pre_def)
next
  case (2 d)
  show ?case using 2[of p adds] by simp
next
  case 3
  show ?case by simp
next
  case (4 k v rest)
  have a: "collect_additions (p @ [k]) v adds = adds @ map (pre (p @ [k])) (collect_additions [] v [])"
    by (rule 4(1))
  have b: "collect_additions [k] v [] = map (pre [k]) (collect_additions [] v [])"
    using 4(1)[of "[k]" "[]"] by simp
  show ?case
    apply (simp only: collect_additions.simps collect_additions_items.simps append_Nil)
    apply (subst 4(2))
    apply (subst (2) 4(2))
    apply (simp add: a b)
    done
qed

lemma collect_additions_items_concat:
  "collect_additions_items [] d [] =
     concat (map (\<lambda>kv. map (pre [fst kv]) (collect_additions [] (snd kv) [])) d)"
proof (induction d)
  case Nil
  show ?case by simp
next
  case (Cons a d)
  obtain k v where a: "a = (k, v)" by (cases a)
  show ?case
    apply (simp add: a)
    apply (subst collect_additions_pre(2))
    apply (subst collect_additions_pre(1))
    apply (simp add: Cons.IH)
    done
qed

lemma collect_changes_pre:
  "collect_changes p rv ev ex adds ovs =
     (adds @ map (pre p) (fst (collect_changes [] rv ev ex [] [])),
      ovs @ map (pre p) (snd (collect_changes [] rv ev ex [] [])))"
  "collect_changes_items p rd ed adds ovs =
     (adds @ map (pre p) (fst (collect_changes_items [] rd ed [] [])),
      ovs @ map (pre p) (snd (collect_changes_items [] rd ed [] [])))"
proof (induction rv and rd arbitrary: p ev ex adds ovs and p ed adds ovs rule: wf_value_wf_dict.induct)
  case (1 s)
  show ?case by (simp add: pre_def)
next
  case (2 d)
  show ?case
  proof (cases ev)
    case (Scalar s)
    then show ?thesis
      using collect_additions_pre(2)[of p d adds] by (simp add: pre_def)
  next
    case (Table e)
    then show ?thesis
      using 2[of p e adds ovs] collect_additions_pre(2)[of p d adds] by simp
  qed
next
  case 3
  show ?case by simp
next
  case (4 k v rest)
  let ?X = "collect_changes_items [] rest ed [] []"
  show ?case
  proof (cases "dict_get ed k")
    case None
    have b: "collect_additions [k] v [] = map (pre [k]) (collect_additions [] v [])"
      using collect_additions_pre(1)[of "[k]" v "[]"] by simp
    have l: "collect_changes_items p ((k, v) # rest) ed adds ovs =
        (collect_additions (p @ [k]) v adds @ map (pre p) (fst ?X), ovs @ map (pre p) (snd ?X))"
      using 4(2)[of p ed "collect_additions (p @ [k]) v adds" ovs] by (simp add: None)
    have r: "collect_changes_items [] ((k, v) # rest) ed [] [] =
        (map (pre [k]) (collect_additions [] v []) @ fst ?X, snd ?X)"
      using 4(2)[of "[]" ed "collect_additions [k] v []" "[]"] by (simp add: None b)
    show ?thesis
      unfolding l r by (simp add: collect_additions_pre(1)[of "p @ [k]" v adds])
  next
    case (Some existing_val)
    obtain a1 o1 where c1: "collect_changes [] v existing_val True [] [] = (a1, o1)"
      by (cases "collect_changes [] v existing_val True [] []")
    have c2: "collect_changes (p @ [k]) v existing_val True adds ovs =
        (adds @ map (pre (p @ [k])) a1, ovs @ map (pre (p @ [k])) o1)"
      using 4(1)[of "p @ [k]" existing_val True adds ovs] by (simp add: c1)
    have c3: "collect_changes [k] v existing_val True [] [] = (map (pre [k]) a1, map (pre [k]) o1)"
      using 4(1)[of "[k]" existing_val True "[]" "[]"] by (simp add: c1)
    have l: "collect_changes_items p ((k, v) # rest) ed adds ovs =
        ((adds @ map (pre (p @ [k])) a1) @ map (pre p) (fst ?X),
         (ovs @ map (pre (p @ [k])) o1) @ map (pre p) (snd ?X))"
      using 4(2)[of p ed "adds @ map (pre (p @ [k])) a1" "ovs @ map (pre (p @ [k])) o1"]
      by (simp add: Some c2)
    have r: "collect_changes_items [] ((k, v) # rest) ed [] [] =
        (map (pre [k]) a1 @ fst ?X, map (pre [k]) o1 @ snd ?X)"
      using 4(2)[of "[]" ed "map (pre [k]) a1" "map (pre [k]) o1"] by (simp add: Some c3)
    show ?thesis
      unfolding l r by simp
  qed
qed

lemma collect_changes_items_concat:
  "collect_changes_items [] rd ed [] [] =
     (concat (map (item_additions ed) rd), concat (map (item_overrides ed) rd))"
proof (induction rd)
  case Nil
  show ?case by simp
next
  case (Cons a rd)
  obtain k v where a: "a = (k, v)" by (cases a)
  let ?X = "collect_changes_items [] rd ed [] []"
  show ?case
  proof (cases "dict_get ed k")
    case None
    have b: "collect_additions [k] v [] = map (pre [k]) (collect_additions [] v [])"
      using collect_additions_pre(1)[of "[k]" v "[]"] by simp
    have "collect_changes_items [] (a # rd) ed [] [] =
        (map (pre [k]) (collect_additions [] v []) @ fst ?X, snd ?X)"
      using collect_changes_pre(2)[of "[]" rd ed "collect_additions [k] v []" "[]"]
      by (simp add: a None b)
    then show ?thesis
      by (simp add: a None item_additions_def item_overrides_def Cons.IH)
  next
    case (Some existing_val)
    obtain a1 o1 where c1: "collect_changes [] v existing_val True [] [] = (a1, o1)"
      by (cases "collect_changes [] v existing_val True [] []")
    have c3: "collect_changes [k] v existing_val True [] [] = (map (pre [k]) a1, map (pre [k]) o1)"
      using collect_changes_pre(1)[of "[k]" v existing_val True "[]" "[]"] by (simp add: c1)
    have "collect_changes_items [] (a # rd) ed [] [] =
        (map (pre [k]) a1 @ fst ?X, map (pre [k]) o1 @ snd ?X)"
      using collect_changes_pre(2)[of "[]" rd ed "map (pre [k]) a1" "map (pre [k]) o1"]
      by (simp add: a Some c3)
    then show ?thesis
      by (simp add: a Some item_additions_def item_overrides_def Cons.IH c1)
  qed
qed

lemma install_changes_eq:
  "install_changes rd ed adds ovs = collect_changes_items [] rd ed adds ovs"
  by (induction rd ed adds ovs rule: install_changes.induct) (auto split: option.splits prod.splits)

lemma dict_get_merge_dicts:
  assumes "distinct (map fst base)" "distinct (map fst overlay)"
  shows "dict_get (merge_dicts base overlay) key =
      (case dict_get base key of
         Some bv \<Rightarrow> Some (merge_value bv (dict_get overlay key))
       | None \<Rightarrow> dict_get overlay key)"
proof (cases "dict_get base key")
  case None
  have "dict_get (filter (\<lambda>(k, v). dict_get base k = None) overlay) key = dict_get overlay key"
    using None by (induction overlay) auto
  with None show ?thesis
    by (simp add: merge_dicts_eq[OF assms] dict_get_append dict_get_map_value)
next
  case (Some bv)
  then show ?thesis
    by (simp add: merge_dicts_eq[OF assms] dict_get_append dict_get_map_value)
qed

lemma path_get_Nil [simp]: "path_get d [] = Some (Table d)"
  by (simp add: path_get_def)

lemma path_get_Cons:
  "path_get d (k # q) = (case dict_get d k of Some v \<Rightarrow> path_get_from v q | None \<Rightarrow> None)"
  by (simp add: path_get_def)

lemma path_get_from_Table [simp]: "path_get_from (Table d) q = path_get d q"
  by (simp add: path_get_def)

lemma path_get_from_Scalar: "path_get_from (Scalar s) q = (if q = [] then Some (Scalar s) else None)"
  by (cases q) auto

lemma item_paths:
  "e \<in> set (item_additions ed kv) \<Longrightarrow> \<exists>q. entry_path e = fst kv # q"
  "e' \<in> set (item_overrides ed kv) \<Longrightarrow> \<exists>q. entry_path e' = fst kv # q"
  by (auto simp: item_additions_def item_overrides_def)

lemma filter_prefix_concat_items:
  fixes f :: "string \<times> value \<Rightarrow> ('a addition_scheme) list"
  assumes "distinct (map fst rd)"
    and "\<And>kv e. e \<in> set (f kv) \<Longrightarrow> \<exists>q. entry_path e = fst kv # q"
  shows "filter (\<lambda>e. prefix (k # q) (entry_path e)) (concat (map f rd)) =
     (case dict_get rd k of
        None \<Rightarrow> []
      | Some v \<Rightarrow> filter (\<lambda>e. prefix (k # q) (entry_path e)) (f (k, v)))"
  using assms(1)
proof (induction rd)
  case Nil
  show ?case by simp
next
  case (Cons a rd)
  obtain k' v' where a: "a = (k', v')" by (cases a)
  have other: "filter (\<lambda>e. prefix (k # q) (entry_path e)) (f (k'', v'')) = []" if "k'' \<noteq> k" for k'' v''
  proof -
    have "\<not> prefix (k # q) (entry_path e)" if "e \<in> set (f (k'', v''))" for e
      using assms(2)[OF that] \<open>k'' \<noteq> k\<close> by auto
    then show ?thesis by (simp add: filter_empty_conv)
  qed
  show ?case
  proof (cases "k' = k")
    case True
    with Cons.prems have "dict_get rd k = None"
      by (simp add: a dict_get_None_iff)
    with Cons show ?thesis by (simp add: a True)
  next
    case False
    with Cons show ?thesis by (simp add: a other)
  qed
qed

lemma filter_prefix_map_pre:
  "filter (\<lambda>e. prefix (k # q) (entry_path e)) (map (pre [k]) es) =
     map (pre [k]) (filter (\<lambda>e. prefix q (entry_path e)) es)"
  by (induction es) auto

lemma changes_at_table_over_scalar:
  "wf_dict rd \<Longrightarrow> path_get rd p = Some (Table t) \<Longrightarrow> path_get ed p = Some (Scalar s) \<Longrightarrow>
   filter (\<lambda>e. prefix p (entry_path e)) (concat (map (item_overrides ed) rd)) =
     [\<lparr>entry_path = p, entry_repo = Table t, entry_previous = Scalar s\<rparr>]
   \<and> filter (\<lambda>e. prefix p (entry_path e)) (concat (map (item_additions ed) rd)) = []"
proof (induction p arbitrary: rd ed)
  case Nil
  then show ?case by simp
next
  case (Cons k q)
  from Cons.prems(2) obtain v where v: "dict_get rd k = Some v" "path_get_from v q = Some (Table t)"
    by (auto simp: path_get_Cons split: option.splits)
  from Cons.prems(3) obtain ev where ev: "dict_get ed k = Some ev" "path_get_from ev q = Some (Scalar s)"
    by (auto simp: path_get_Cons split: option.splits)
  have dist: "distinct (map fst rd)" using Cons.prems(1) by (rule wf_dict_distinct)
  have wfv: "wf_value v" using Cons.prems(1) v(1) by (rule dict_get_wf_value)
  have red_o: "filter (\<lambda>e. prefix (k # q) (entry_path e)) (concat (map (item_overrides ed) rd)) =
      map (pre [k]) (filter (\<lambda>e. prefix q (entry_path e)) (snd (collect_changes [] v ev True [] [])))"
    using filter_prefix_concat_items[where f="item_overrides ed" and k=k and q=q, OF dist item_paths(2)]
    by (simp add: v(1) item_overrides_def ev(1) filter_prefix_map_pre)
  have red_a: "filter (\<lambda>e. prefix (k # q) (entry_path e)) (concat (map (item_additions ed) rd)) =
      map (pre [k]) (filter (\<lambda>e. prefix q (entry_path e)) (fst (collect_changes [] v ev True [] [])))"
    using filter_prefix_concat_items[where f="item_additions ed" and k=k and q=q, OF dist item_paths(1)]
    by (simp add: v(1) item_additions_def ev(1) filter_prefix_map_pre)
  show ?case
  proof (cases q)
    case Nil
    with v(2) ev(2) have "v = Table t" "ev = Scalar s" by simp_all
    then show ?thesis
      unfolding red_o red_a by (simp add: Nil pre_def)
  next
    case (Cons k' q')
    from v(2) obtain r' where r': "v = Table r'"
      by (cases v) (auto simp: Cons)
    from ev(2) obtain e' where e': "ev = Table e'"
      by (cases ev) (auto simp: Cons)
    have "wf_dict r'" using wfv r' by simp
    moreover have "path_get r' q = Some (Table t)" using v(2) r' by simp
    moreover have "path_get e' q = Some (Scalar s)" using ev(2) e' by simp
    ultimately have IH: "filter (\<lambda>e. prefix q (entry_path e)) (concat (map (item_overrides e') r')) =
       [\<lparr>entry_path = q, entry_repo = Table t, entry_previous = Scalar s\<rparr>]
     \<and> filter (\<lambda>e. prefix q (entry_path e)) (concat (map (item_additions e') r')) = []"
      by (rule Cons.IH)
    show ?thesis
      unfolding red_o red_a
      by (simp add: r' e' collect_changes_items_concat IH pre_def)
  qed
qed

lemma in_concat_items:
  "e \<in> set (concat (map f d)) \<Longrightarrow> \<exists>k v. (k, v) \<in> set d \<and> e \<in> set (f (k, v))"
  by auto

lemma additions_sound:
  "wf_value v \<Longrightarrow> a \<in> set (collect_additions [] v []) \<Longrightarrow>
     path_get_from v (entry_path a) = Some (entry_repo a) \<and> \<not> is_dict (entry_repo a)"
  "wf_dict d \<Longrightarrow> a \<in> set (collect_additions_items [] d []) \<Longrightarrow>
     path_get d (entry_path a) = Some (entry_repo a) \<and> \<not> is_dict (entry_repo a)"
proof (induction v and d arbitrary: a and a rule: wf_value_wf_dict.induct)
  case (1 s)
  then show ?case by simp
next
  case (2 d)
  then show ?case by simp
next
  case 3
  then show ?case by simp
next
  case (4 k v rest)
  have "a \<in> set (map (pre [k]) (collect_additions [] v [])) \<or>
      a \<in> set (collect_additions_items [] rest [])"
    using 4(4) unfolding collect_additions_items_concat by auto
  then show ?case
  proof
    assume "a \<in> set (map (pre [k]) (collect_additions [] v []))"
    then obtain a' where a': "a' \<in> set (collect_additions [] v [])" "a = pre [k] a'" by auto
    from 4(3) have "wf_value v" by simp
    from 4(1)[OF this a'(1)] show ?thesis
      by (simp add: a'(2) path_get_Cons)
  next
    assume r: "a \<in> set (collect_additions_items [] rest [])"
    from 4(3) have wr: "wf_dict rest" and fresh: "dict_get rest k = None" by simp_all
    from 4(2)[OF wr r] have IH: "path_get rest (entry_path a) = Some (entry_repo a)"
      "\<not> is_dict (entry_repo a)" by simp_all
    from r obtain k' q where q: "entry_path a = k' # q" "dict_get rest k' \<noteq> None"
      by (auto simp: collect_additions_items_concat dict_get_None_iff rev_image_eqI)
    with fresh have "k' \<noteq> k" by auto
    with IH q show ?thesis by (simp add: path_get_Cons)
  qed
qed

lemma addition_ok_pre:
  "dict_get rd k = Some v \<Longrightarrow> dict_get ed k = Some ev \<Longrightarrow> addition_ok v ev a \<Longrightarrow>
   addition_ok (Table rd) (Table ed) (pre [k] a)"
  by (simp add: addition_ok_def path_get_Cons)

lemma override_ok_pre:
  "dict_get rd k = Some v \<Longrightarrow> dict_get ed k = Some ev \<Longrightarrow> override_ok v ev e \<Longrightarrow>
   override_ok (Table rd) (Table ed) (pre [k] e)"
  by (simp add: override_ok_def path_get_Cons)

lemma changes_sound:
  "wf_value rv \<Longrightarrow>
     (\<forall>a \<in> set (fst (collect_changes [] rv ev True [] [])). addition_ok rv ev a) \<and>
     (\<forall>e \<in> set (snd (collect_changes [] rv ev True [] [])). override_ok rv ev e)"
  "wf_dict rd \<Longrightarrow>
     (\<forall>a \<in> set (concat (map (item_additions ed) rd)). addition_ok (Table rd) (Table ed) a) \<and>
     (\<forall>e \<in> set (concat (map (item_overrides ed) rd)). override_ok (Table rd) (Table ed) e)"
proof (induction rv and rd arbitrary: ev and ed rule: wf_value_wf_dict.induct)
  case (1 s)
  show ?case
    by (cases ev) (auto simp: addition_ok_def override_ok_def)
next
  case (2 d)
  show ?case
  proof (cases ev)
    case (Scalar s)
    then show ?thesis by (auto simp: addition_ok_def override_ok_def)
  next
    case (Table e)
    with 2 show ?thesis by (simp add: collect_changes_items_concat)
  qed
next
  case 3
  show ?case by simp
next
  case (4 k v rest)
  from 4(3) have wv: "wf_value v" and wr: "wf_dict rest" and fresh: "dict_get rest k = None"
    by simp_all
  have restA: "addition_ok (Table ((k, v) # rest)) (Table ed) a"
    if "a \<in> set (concat (map (item_additions ed) rest))" for a
  proof -
    from 4(2)[OF wr] that have ok: "addition_ok (Table rest) (Table ed) a" by blast
    from that obtain kv where "kv \<in> set rest" "a \<in> set (item_additions ed kv)" by auto
    then obtain q where "entry_path a = fst kv # q" "dict_get rest (fst kv) \<noteq> None"
      using item_paths(1)[of a ed kv] by (auto simp: dict_get_None_iff)
    with fresh ok show ?thesis
      by (auto simp: addition_ok_def path_get_Cons)
  qed
  have restO: "override_ok (Table ((k, v) # rest)) (Table ed) e"
    if "e \<in> set (concat (map (item_overrides ed) rest))" for e
  proof -
    from 4(2)[OF wr] that have ok: "override_ok (Table rest) (Table ed) e" by blast
    from that obtain kv where "kv \<in> set rest" "e \<in> set (item_overrides ed kv)" by auto
    then obtain q where "entry_path e = fst kv # q" "dict_get rest (fst kv) \<noteq> None"
      using item_paths(2)[of e ed kv] by (auto simp: dict_get_None_iff)
    with fresh ok show ?thesis
      by (auto simp: override_ok_def path_get_Cons)
  qed
  have headA: "addition_ok (Table ((k, v) # rest)) (Table ed) a"
    if "a \<in> set (item_additions ed (k, v))" for a
  proof (cases "dict_get ed k")
    case None
    with that obtain a' where a': "a' \<in> set (collect_additions [] v [])" "a = pre [k] a'"
      by (auto simp: item_additions_def)
    from additions_sound(1)[OF wv a'(1)] None show ?thesis
      by (simp add: addition_ok_def a'(2) path_get_Cons)
  next
    case (Some existing_val)
    with that obtain a' where a': "a' \<in> set (fst (collect_changes [] v existing_val True [] []))"
      "a = pre [k] a'"
      by (auto simp: item_additions_def)
    from 4(1)[OF wv, of existing_val] a'(1) have "addition_ok v existing_val a'" by blast
    then show ?thesis
      unfolding a'(2) by (intro addition_ok_pre) (simp_all add: Some)
  qed
  have headO: "override_ok (Table ((k, v) # rest)) (Table ed) e"
    if "e \<in> set (item_overrides ed (k, v))" for e
  proof (cases "dict_get ed k")
    case None
    with that show ?thesis by (simp add: item_overrides_def)
  next
    case (Some existing_val)
    with that obtain e' where e': "e' \<in> set (snd (collect_changes [] v existing_val True [] []))"
      "e = pre [k] e'"
      by (auto simp: item_overrides_def)
    from 4(1)[OF wv, of existing_val] e'(1) have "override_ok v existing_val e'" by blast
    then show ?thesis
      unfolding e'(2) by (intro override_ok_pre) (simp_all add: Some)
  qed
  show ?case using restA restO headA headO by auto
qed

lemma path_get_merge_repo_only:
  "wf_dict ed \<Longrightarrow> wf_dict rd \<Longrightarrow> path_get rd p = Some v \<Longrightarrow> path_get ed p = None \<Longrightarrow>
   path_get (merge_dicts ed rd) p = Some v"
proof (induction p arbitrary: ed rd)
  case Nil
  then show ?case by simp
next
  case (Cons k q)
  from Cons.prems(3) obtain rv where rv: "dict_get rd k = Some rv" "path_get_from rv q = Some v"
    by (auto simp: path_get_Cons split: option.splits)
  have get: "dict_get (merge_dicts ed rd) k =
      (case dict_get ed k of
         Some bv \<Rightarrow> Some (merge_value bv (dict_get rd k))
       | None \<Rightarrow> dict_get rd k)"
    using Cons.prems(1,2) by (intro dict_get_merge_dicts wf_dict_distinct)
  show ?case
  proof (cases "dict_get ed k")
    case None
    then show ?thesis by (simp add: path_get_Cons get rv)
  next
    case (Some ev)
    with Cons.prems(4) have evq: "path_get_from ev q = None" by (simp add: path_get_Cons)
    show ?thesis
    proof (cases "is_dict ev \<and> is_dict rv")
      case True
      then obtain e' r' where er: "ev = Table e'" "rv = Table r'"
        by (cases ev; cases rv) auto
      have "wf_dict e'" using Cons.prems(1) Some er dict_get_wf_value by fastforce
      moreover have "wf_dict r'" using Cons.prems(2) rv(1) er dict_get_wf_value by fastforce
      ultimately have "path_get (merge_dicts e' r') q = Some v"
        using rv(2) evq er by (intro Cons.IH) simp_all
      then show ?thesis
        by (simp add: path_get_Cons get Some rv(1) er merge_value_def)
    next
      case False
      then have "merge_value ev (Some rv) = rv"
        by (cases ev; cases rv) (auto simp: merge_value_def)
      then show ?thesis by (simp add: path_get_Cons get Some rv)
    qed
  qed
qed

lemma path_set_eq: "p \<noteq> [] \<Longrightarrow> path_set d p v = Inr (pset d p v)"
  by (simp add: path_set_def pset_def)

lemma pset_single [simp]: "pset d [k] v = dict_set d k v"
  by (simp add: pset_def)

lemma pset_Cons: "q \<noteq> [] \<Longrightarrow> pset d (k # q) v = dict_set d k (Table (pset (child_table d k) q v))"
  by (simp add: pset_def child_table_def)

lemma child_table_Table [simp]: "dict_get d k = Some (Table c) \<Longrightarrow> child_table d k = c"
  by (simp add: child_table_def)

lemma path_get_pset_same: "p \<noteq> [] \<Longrightarrow> path_get (pset d p v) p = Some v"
proof (induction p arbitrary: d)
  case Nil
  then show ?case by simp
next
  case (Cons k q)
  show ?case
  proof (cases "q = []")
    case True
    then show ?thesis by (simp add: path_get_Cons dict_get_set)
  next
    case False
    with Cons.IH[OF False] show ?thesis
      by (simp add: pset_Cons path_get_Cons dict_get_set)
  qed
qed

lemma path_get_Nil_dict: "q \<noteq> [] \<Longrightarrow> path_get [] q = None"
  by (cases q) (simp_all add: path_get_Cons)

lemma path_get_child_table:
  "q \<noteq> [] \<Longrightarrow> path_get d (k # q) = path_get (child_table d k) q"
proof (cases "dict_get d k")
  case None
  assume "q \<noteq> []"
  with None show ?thesis by (simp add: path_get_Cons child_table_def path_get_Nil_dict)
next
  case (Some v)
  assume q: "q \<noteq> []"
  show ?thesis
  proof (cases v)
    case (Scalar s)
    with Some q show ?thesis
      by (simp add: path_get_Cons child_table_def path_get_Nil_dict path_get_from_Scalar)
  next
    case (Table c)
    with Some show ?thesis by (simp add: path_get_Cons)
  qed
qed

lemma path_get_pset_other:
  "p \<noteq> [] \<Longrightarrow> \<not> prefix p q \<Longrightarrow> \<not> prefix q p \<Longrightarrow> path_get (pset d p v) q = path_get d q"
proof (induction p arbitrary: d q)
  case Nil
  then show ?case by simp
next
  case (Cons k p')
  from Cons.prems obtain k' q' where q: "q = k' # q'" by (cases q) auto
  show ?case
  proof (cases "k' = k")
    case False
    then show ?thesis
      by (cases "p' = []") (simp_all add: q pset_Cons path_get_Cons dict_get_set)
  next
    case True
    with Cons.prems q have p': "p' \<noteq> []" and q': "q' \<noteq> []"
      and inc: "\<not> prefix p' q'" "\<not> prefix q' p'" by auto
    have "path_get (pset d (k # p') v) q = path_get (pset (child_table d k) p' v) q'"
      by (simp add: q True pset_Cons[OF p'] path_get_Cons dict_get_set)
    also have "\<dots> = path_get (child_table d k) q'"
      using p' inc by (rule Cons.IH)
    also have "\<dots> = path_get d q"
      by (simp add: q True path_get_child_table[OF q'])
    finally show ?thesis .
  qed
qed

subsection \<open>Deletion\<close>

lemma path_delete_walk_parents:
  "path_delete_walk cur q ps =
     map_option (\<lambda>(leaf, lp). (leaf, ps @ lp)) (path_delete_walk cur q [])"
proof (induction q arbitrary: cur ps)
  case Nil
  show ?case by simp
next
  case (Cons k q)
  show ?case
  proof (cases "dict_get cur k")
    case None
    then show ?thesis by simp
  next
    case (Some v)
    show ?thesis
    proof (cases v)
      case (Scalar s)
      with Some show ?thesis by simp
    next
      case (Table c)
      have a: "path_delete_walk c q (ps @ [(cur, k)]) =
          map_option (\<lambda>(leaf, lp). (leaf, (ps @ [(cur, k)]) @ lp)) (path_delete_walk c q [])"
        by (rule Cons.IH)
      have b: "path_delete_walk c q [(cur, k)] =
          map_option (\<lambda>(leaf, lp). (leaf, [(cur, k)] @ lp)) (path_delete_walk c q [])"
        by (rule Cons.IH)
      show ?thesis
        by (cases "path_delete_walk c q []") (auto simp: Some Table a b)
    qed
  qed
qed

lemma dict_set_nonempty [simp]: "dict_set d k v \<noteq> []"
  by (cases d) (auto split: if_splits)

lemma path_delete_plug_nonempty: "c \<noteq> [] \<Longrightarrow> path_delete_plug c ups \<noteq> []"
proof (induction ups arbitrary: c)
  case Nil
  then show ?case by simp
next
  case (Cons a ups)
  obtain parent key where a: "a = (parent, key)" by (cases a)
  show ?case by (simp add: a Cons.IH)
qed

lemma path_delete_prune_nonempty: "c \<noteq> [] \<Longrightarrow> path_delete_prune c ups = path_delete_plug c ups"
  by (cases ups) auto

lemma path_delete_plug_append:
  "path_delete_plug c (xs @ ys) = path_delete_plug (path_delete_plug c xs) ys"
  by (induction xs arbitrary: c) auto

lemma path_delete_prune_append:
  "path_delete_prune c (xs @ ys) = path_delete_prune (path_delete_prune c xs) ys"
proof (induction xs arbitrary: c)
  case Nil
  show ?case by simp
next
  case (Cons a xs)
  obtain parent key where a: "a = (parent, key)" by (cases a)
  show ?case
  proof (cases "c = []")
    case True
    then show ?thesis by (simp add: a Cons.IH)
  next
    case False
    have "path_delete_plug (dict_set parent key (Table c)) xs \<noteq> []"
      by (rule path_delete_plug_nonempty) simp
    with False show ?thesis
      by (simp add: a path_delete_plug_append path_delete_prune_nonempty)
  qed
qed

lemma path_delete_eq_rec: "p \<noteq> [] \<Longrightarrow> path_delete d p = Inr (path_delete_rec d p)"
proof (induction d p rule: path_delete_rec.induct)
  case (1 d)
  then show ?case by simp
next
  case (2 d k)
  show ?case by (simp add: path_delete_def)
next
  case (3 d k k' q)
  let ?q = "k' # q"
  have bl: "butlast (k # ?q) = k # butlast ?q" "last (k # ?q) = last ?q" by simp_all
  show ?case
  proof (cases "dict_get d k")
    case None
    then show ?thesis by (simp add: path_delete_def)
  next
    case (Some v)
    show ?thesis
    proof (cases v)
      case (Scalar s)
      with Some show ?thesis by (simp add: path_delete_def)
    next
      case (Table c)
      have IH: "path_delete c ?q = Inr (path_delete_rec c ?q)"
        using "3.IH"[OF Some Table] by simp
      have walk: "path_delete_walk d (butlast (k # ?q)) [] =
          map_option (\<lambda>(leaf, lp). (leaf, [(d, k)] @ lp)) (path_delete_walk c (butlast ?q) [])"
        unfolding bl using path_delete_walk_parents[of c "butlast ?q" "[(d, k)]"]
        by (simp add: Some Table)
      show ?thesis
      proof (cases "path_delete_walk c (butlast ?q) []")
        case None
        with IH have "path_delete_rec c ?q = (False, c)"
          by (simp add: path_delete_def)
        with None walk show ?thesis
          unfolding path_delete_def by (simp add: Some Table)
      next
        case (Some lf)
        obtain leaf lp where lf: "lf = (leaf, lp)" by (cases lf)
        show ?thesis
        proof (cases "dict_contains leaf (last ?q)")
          case False
          with IH Some lf have "path_delete_rec c ?q = (False, c)"
            by (simp add: path_delete_def)
          with False Some lf walk show ?thesis
            unfolding path_delete_def by (simp add: \<open>dict_get d k = Some v\<close> Table)
        next
          case True
          define c' where "c' = path_delete_prune (dict_del leaf (last ?q)) (rev lp)"
          from IH Some lf True have rec: "path_delete_rec c ?q = (True, c')"
            by (simp add: path_delete_def c'_def)
          have "path_delete d (k # ?q) =
              Inr (True, path_delete_prune (dict_del leaf (last ?q)) (rev ([(d, k)] @ lp)))"
            unfolding path_delete_def using walk Some lf True by (simp del: butlast.simps last.simps add: bl(2))
          also have "path_delete_prune (dict_del leaf (last ?q)) (rev ([(d, k)] @ lp)) =
              path_delete_prune c' [(d, k)]"
            by (simp add: path_delete_prune_append c'_def)
          finally show ?thesis
            by (simp add: \<open>dict_get d k = Some v\<close> Table rec)
        qed
      qed
    qed
  qed
qed

lemma single_at_Nil: "single_at d [] \<longleftrightarrow> (\<exists>kv. d = [kv])"
  by (simp add: single_at_def)

lemma single_at_Cons: "dict_get d k = Some (Table c) \<Longrightarrow> single_at d (k # b) = single_at c b"
  by (simp add: single_at_def path_get_Cons)

lemma dict_del_empty_iff:
  "dict_get d k = Some w \<Longrightarrow> dict_del d k = [] \<longleftrightarrow> (\<exists>kv. d = [kv])"
  by (cases d) (auto split: if_splits)

lemma all_strict_prefix_Cons:
  "(\<forall>b. strict_prefix b (k # q) \<longrightarrow> P b) \<longleftrightarrow> P [] \<and> (\<forall>b'. strict_prefix b' q \<longrightarrow> P (k # b'))"
proof
  assume l: "\<forall>b. strict_prefix b (k # q) \<longrightarrow> P b"
  show "P [] \<and> (\<forall>b'. strict_prefix b' q \<longrightarrow> P (k # b'))"
    using l by simp
next
  assume r: "P [] \<and> (\<forall>b'. strict_prefix b' q \<longrightarrow> P (k # b'))"
  show "\<forall>b. strict_prefix b (k # q) \<longrightarrow> P b"
  proof (intro allI impI)
    fix b assume "strict_prefix b (k # q)"
    then show "P b" using r by (cases b) auto
  qed
qed

lemma path_get_Some_walk:
  assumes "path_get d (k # k' # q) = Some w"
  obtains c where "dict_get d k = Some (Table c)" "path_get c (k' # q) = Some w"
proof -
  from assms obtain v where v: "dict_get d k = Some v" "path_get_from v (k' # q) = Some w"
    by (auto simp: path_get_Cons split: option.splits)
  then obtain c where c: "v = Table c" by (cases v) auto
  from v(2) have "path_get c (k' # q) = Some w" unfolding c by (simp only: path_get_from_Table)
  with v(1) c that show thesis by blast
qed

lemma path_get_single: "path_get d [k] = dict_get d k"
  by (simp add: path_get_Cons split: option.splits)

lemma path_delete_rec_flag:
  "path_get d p = Some w \<Longrightarrow> p \<noteq> [] \<Longrightarrow> fst (path_delete_rec d p) = True"
proof (induction d p rule: path_delete_rec.induct)
  case (1 d)
  then show ?case by simp
next
  case (2 d k)
  then show ?case by (simp add: path_get_single dict_contains_def)
next
  case (3 d k k' q)
  from "3.prems"(1) obtain c where c: "dict_get d k = Some (Table c)" "path_get c (k' # q) = Some w"
    by (rule path_get_Some_walk)
  have "fst (path_delete_rec c (k' # q)) = True"
    using "3.IH"[OF c(1) refl c(2)] by simp
  then obtain c' where "path_delete_rec c (k' # q) = (True, c')"
    by (cases "path_delete_rec c (k' # q)") auto
  then show ?case
    by (simp add: c(1))
qed

lemma path_delete_rec_emptied:
  "path_get d p = Some w \<Longrightarrow> p \<noteq> [] \<Longrightarrow>
   snd (path_delete_rec d p) = [] \<longleftrightarrow> (\<forall>b. strict_prefix b p \<longrightarrow> single_at d b)"
proof (induction d p rule: path_delete_rec.induct)
  case (1 d)
  then show ?case by simp
next
  case (2 d k)
  then have "dict_get d k = Some w" by (simp add: path_get_single)
  then show ?case
    by (simp add: dict_contains_def all_strict_prefix_Cons single_at_Nil dict_del_empty_iff)
next
  case (3 d k k' q)
  from "3.prems"(1) obtain c where c: "dict_get d k = Some (Table c)" "path_get c (k' # q) = Some w"
    by (rule path_get_Some_walk)
  have flag: "fst (path_delete_rec c (k' # q)) = True"
    using c(2) by (rule path_delete_rec_flag) simp
  have IH: "snd (path_delete_rec c (k' # q)) = [] \<longleftrightarrow>
      (\<forall>b. strict_prefix b (k' # q) \<longrightarrow> single_at c b)"
    using "3.IH"[OF c(1) refl c(2)] by simp
  obtain c' where rec: "path_delete_rec c (k' # q) = (True, c')"
    using flag by (cases "path_delete_rec c (k' # q)") auto
  have "snd (path_delete_rec d (k # k' # q)) = [] \<longleftrightarrow> c' = [] \<and> dict_del d k = []"
    by (simp add: c(1) rec)
  also have "\<dots> \<longleftrightarrow> (\<forall>b. strict_prefix b (k' # q) \<longrightarrow> single_at c b) \<and> single_at d []"
    using IH c(1) by (simp add: rec single_at_Nil dict_del_empty_iff)
  also have "\<dots> \<longleftrightarrow> (\<forall>b. strict_prefix b (k # k' # q) \<longrightarrow> single_at d b)"
    by (subst (2) all_strict_prefix_Cons) (auto simp: single_at_Cons[OF c(1)])
  finally show ?case .
qed

lemma path_get_Cons_Table: "dict_get d k = Some (Table c) \<Longrightarrow> path_get d (k # q) = path_get c q"
  by (simp add: path_get_Cons)

lemma path_get_Cons_absent: "dict_get d k = None \<Longrightarrow> path_get d (k # q) = None"
  by (simp add: path_get_Cons)

lemma path_get_dict_set_same: "path_get (dict_set d k (Table c)) (k # q) = path_get c q"
  by (rule path_get_Cons_Table) (simp add: dict_get_set)

lemma path_get_dict_del_same: "distinct (map fst d) \<Longrightarrow> path_get (dict_del d k) (k # q) = None"
  by (rule path_get_Cons_absent) (simp add: dict_get_del_same)

lemma wf_dict_child: "wf_dict d \<Longrightarrow> dict_get d k = Some (Table c) \<Longrightarrow> wf_dict c"
  using dict_get_wf_value by fastforce

lemma path_delete_rec_gone:
  "wf_dict d \<Longrightarrow> path_get d p = Some w \<Longrightarrow> p \<noteq> [] \<Longrightarrow>
   path_get (snd (path_delete_rec d p)) p = None"
proof (induction d p arbitrary: w rule: path_delete_rec.induct)
  case (1 d)
  then show ?case by simp
next
  case (2 d k)
  then show ?case
    by (simp add: path_get_single dict_get_del_same dict_contains_def wf_dict_distinct)
next
  case (3 d k k' q)
  from "3.prems"(2) obtain c where c: "dict_get d k = Some (Table c)" "path_get c (k' # q) = Some w"
    by (rule path_get_Some_walk)
  have wc: "wf_dict c" using "3.prems"(1) c(1) by (rule wf_dict_child)
  have flag: "fst (path_delete_rec c (k' # q)) = True"
    using c(2) by (rule path_delete_rec_flag) simp
  then obtain c' where rec: "path_delete_rec c (k' # q) = (True, c')"
    by (cases "path_delete_rec c (k' # q)") auto
  have IH: "path_get c' (k' # q) = None"
    using "3.IH"[OF c(1) refl wc c(2)] by (simp add: rec)
  show ?case
  proof (cases "c' = []")
    case True
    then have "snd (path_delete_rec d (k # k' # q)) = dict_del d k"
      by (simp add: c(1) rec)
    then show ?thesis
      using "3.prems"(1) by (simp only: path_get_dict_del_same wf_dict_distinct)
  next
    case False
    then have "snd (path_delete_rec d (k # k' # q)) = dict_set d k (Table c')"
      by (simp add: c(1) rec)
    then show ?thesis
      using IH by (simp only: path_get_dict_set_same)
  qed
qed

lemma path_delete_rec_pruned:
  "wf_dict d \<Longrightarrow> path_get d p = Some w \<Longrightarrow> a \<noteq> [] \<Longrightarrow> strict_prefix a p \<Longrightarrow>
   (path_get (snd (path_delete_rec d p)) a = None) =
     (\<forall>b. prefix a b \<and> strict_prefix b p \<longrightarrow> single_at d b)"
proof (induction d p arbitrary: a w rule: path_delete_rec.induct)
  case (1 d)
  then show ?case by simp
next
  case (2 d k)
  then show ?case by (cases a) auto
next
  case (3 d k k' q)
  from "3.prems"(2) obtain c where c: "dict_get d k = Some (Table c)" "path_get c (k' # q) = Some w"
    by (rule path_get_Some_walk)
  have wc: "wf_dict c" using "3.prems"(1) c(1) by (rule wf_dict_child)
  from "3.prems"(3,4) obtain a' where a: "a = k # a'" "strict_prefix a' (k' # q)"
    by (cases a) auto
  have flag: "fst (path_delete_rec c (k' # q)) = True"
    using c(2) by (rule path_delete_rec_flag) simp
  then obtain c' where rec: "path_delete_rec c (k' # q) = (True, c')"
    by (cases "path_delete_rec c (k' # q)") auto
  have emptied: "c' = [] \<longleftrightarrow> (\<forall>b. strict_prefix b (k' # q) \<longrightarrow> single_at c b)"
    using path_delete_rec_emptied[OF c(2), of ] by (simp add: rec)
  have rhs: "(\<forall>b. prefix a b \<and> strict_prefix b (k # k' # q) \<longrightarrow> single_at d b) \<longleftrightarrow>
      (\<forall>b'. prefix a' b' \<and> strict_prefix b' (k' # q) \<longrightarrow> single_at c b')"
  proof
    assume l: "\<forall>b. prefix a b \<and> strict_prefix b (k # k' # q) \<longrightarrow> single_at d b"
    show "\<forall>b'. prefix a' b' \<and> strict_prefix b' (k' # q) \<longrightarrow> single_at c b'"
    proof (intro allI impI)
      fix b' assume "prefix a' b' \<and> strict_prefix b' (k' # q)"
      then have "prefix a (k # b') \<and> strict_prefix (k # b') (k # k' # q)" unfolding a(1) by simp
      with l have "single_at d (k # b')" by blast
      then show "single_at c b'" by (simp add: single_at_Cons[OF c(1)])
    qed
  next
    assume r: "\<forall>b'. prefix a' b' \<and> strict_prefix b' (k' # q) \<longrightarrow> single_at c b'"
    show "\<forall>b. prefix a b \<and> strict_prefix b (k # k' # q) \<longrightarrow> single_at d b"
    proof (intro allI impI)
      fix b assume h: "prefix a b \<and> strict_prefix b (k # k' # q)"
      from h have "prefix (k # a') b" unfolding a(1) by (rule conjunct1)
      then obtain zs where "b = (k # a') @ zs" unfolding prefix_def by blast
      then obtain b' where b: "b = k # b'" by simp
      from h have "prefix a' b' \<and> strict_prefix b' (k' # q)" unfolding b a(1) by simp
      with r have "single_at c b'" by blast
      then show "single_at d b" by (simp add: b single_at_Cons[OF c(1)])
    qed
  qed
  show ?case
  proof (cases "c' = []")
    case True
    from True have "snd (path_delete_rec d (k # k' # q)) = dict_del d k"
      by (simp add: c(1) rec)
    then have "path_get (snd (path_delete_rec d (k # k' # q))) a = None"
      using "3.prems"(1) unfolding a(1) by (simp only: path_get_dict_del_same wf_dict_distinct)
    moreover have "\<forall>b'. prefix a' b' \<and> strict_prefix b' (k' # q) \<longrightarrow> single_at c b'"
      using True emptied by blast
    ultimately show ?thesis using rhs by blast
  next
    case False
    from False have "snd (path_delete_rec d (k # k' # q)) = dict_set d k (Table c')"
      by (simp add: c(1) rec)
    then have get: "path_get (snd (path_delete_rec d (k # k' # q))) a = path_get c' a'"
      unfolding a(1) by (simp only: path_get_dict_set_same)
    show ?thesis
    proof (cases "a' = []")
      case True
      from False emptied obtain b where "strict_prefix b (k' # q)" "\<not> single_at c b" by blast
      then have "\<not> (\<forall>b'. prefix a' b' \<and> strict_prefix b' (k' # q) \<longrightarrow> single_at c b')"
        using True by auto
      moreover have "path_get c' a' \<noteq> None" by (simp add: True)
      ultimately show ?thesis unfolding get rhs by blast
    next
      case False
      have "(path_get (snd (path_delete_rec c (k' # q))) a' = None) =
          (\<forall>b. prefix a' b \<and> strict_prefix b (k' # q) \<longrightarrow> single_at c b)"
        using "3.IH"[OF c(1) refl wc c(2) False a(2)] .
      then show ?thesis unfolding get rhs by (simp only: rec snd_conv)
    qed
  qed
qed

lemma path_get_Some_nonempty: "path_get d q = Some w \<Longrightarrow> q \<noteq> [] \<Longrightarrow> d \<noteq> []"
  by (cases q; cases d) (auto simp: path_get_Cons)

lemma path_delete_rec_other:
  "path_get d q = Some w \<Longrightarrow> \<not> prefix p q \<Longrightarrow> \<not> prefix q p \<Longrightarrow>
   path_get (snd (path_delete_rec d p)) q = Some w"
proof (induction d p arbitrary: q w rule: path_delete_rec.induct)
  case (1 d)
  then show ?case by simp
next
  case (2 d k)
  from "2.prems" obtain k' q' where q: "q = k' # q'" "k' \<noteq> k" by (cases q) auto
  with "2.prems"(1) show ?case
    by (simp add: path_get_Cons dict_get_del_other)
next
  case (3 d k k' p')
  from "3.prems" obtain j q' where q: "q = j # q'" by (cases q) auto
  show ?case
  proof (cases "j = k")
    case False
    have "dict_get (snd (path_delete_rec d (k # k' # p'))) j = dict_get d j"
    proof (cases "dict_get d k")
      case None
      then show ?thesis by simp
    next
      case (Some v)
      show ?thesis
      proof (cases v)
        case (Scalar s)
        with Some show ?thesis by simp
      next
        case (Table c)
        obtain fl c' where "path_delete_rec c (k' # p') = (fl, c')"
          by (cases "path_delete_rec c (k' # p')")
        with Some Table False show ?thesis
          by (cases fl) (simp_all add: dict_get_del_other dict_get_set)
      qed
    qed
    with "3.prems"(1) show ?thesis by (simp add: q path_get_Cons)
  next
    case True
    with "3.prems" q have q': "q' \<noteq> []" and inc: "\<not> prefix (k' # p') q'" "\<not> prefix q' (k' # p')"
      by auto
    from "3.prems"(1) q' obtain c where c: "dict_get d k = Some (Table c)" "path_get c q' = Some w"
      unfolding q True by (cases q') (auto elim: path_get_Some_walk)
    obtain fl c' where rec: "path_delete_rec c (k' # p') = (fl, c')"
      by (cases "path_delete_rec c (k' # p')")
    have IH: "path_get c' q' = Some w"
      using "3.IH"[OF c(1) refl c(2) inc] by (simp add: rec)
    then have ne: "c' \<noteq> []" using q' by (rule path_get_Some_nonempty)
    show ?thesis
    proof (cases fl)
      case True
      with ne have "snd (path_delete_rec d (k # k' # p')) = dict_set d k (Table c')"
        by (simp add: c(1) rec)
      with IH show ?thesis
        unfolding q \<open>j = k\<close> by (simp only: path_get_dict_set_same)
    next
      case False
      with "3.prems"(1) show ?thesis
        by (simp add: c(1) rec)
    qed
  qed
qed

lemma install_changes_concat:
  "install_changes rd ed [] [] =
     (concat (map (item_additions ed) rd), concat (map (item_overrides ed) rd))"
  by (simp only: install_changes_eq collect_changes_items_concat)

section \<open>Claims about the differ\<close>

text \<open>
  C6.  Let \<open>path\<close> be a path at which the repo tree holds a table \<open>rd\<close> and the
  existing tree holds a value that is not a table.  Then the overrides recorded by
  \<^verbatim>\<open>install\<close> contain exactly one entry with that path; its previous value is the
  existing value and its repo value is the whole table \<open>rd\<close>.  No override and no
  addition is recorded for a path strictly below \<open>path\<close>.
\<close>

theorem table_over_scalar_one_override:
  assumes "wf_dict repo_data"
    and "path_get repo_data path = Some (Table rd)"
    and "path_get existing_data path = Some (Scalar s)"
    and "install_changes repo_data existing_data [] [] = (adds, ovs)"
  shows "filter (\<lambda>e. entry_path e = path) ovs =
           [\<lparr>entry_path = path, entry_repo = Table rd, entry_previous = Scalar s\<rparr>]
       \<and> (\<forall>e \<in> set ovs. \<not> strict_prefix path (entry_path e))
       \<and> (\<forall>a \<in> set adds. \<not> strict_prefix path (entry_path a))"
proof -
  let ?e = "\<lparr>entry_path = path, entry_repo = Table rd, entry_previous = Scalar s\<rparr>"
  from assms(4) have adds: "adds = concat (map (item_additions existing_data) repo_data)"
    and ovs: "ovs = concat (map (item_overrides existing_data) repo_data)"
    by (simp_all add: install_changes_concat)
  from changes_at_table_over_scalar[OF assms(1-3)]
  have o: "filter (\<lambda>e. prefix path (entry_path e)) ovs = [?e]"
    and a: "filter (\<lambda>e. prefix path (entry_path e)) adds = []"
    by (simp_all add: adds ovs)
  have "filter (\<lambda>e. entry_path e = path) ovs =
      filter (\<lambda>e. entry_path e = path) (filter (\<lambda>e. prefix path (entry_path e)) ovs)"
    by (simp add: conj_commute cong: conj_cong)
  also have "\<dots> = [?e]" by (simp add: o)
  finally have 1: "filter (\<lambda>e. entry_path e = path) ovs = [?e]" .
  have 2: "\<not> strict_prefix path (entry_path e)" if "e \<in> set ovs" for e
  proof
    assume sp: "strict_prefix path (entry_path e)"
    then have "e \<in> set (filter (\<lambda>e. prefix path (entry_path e)) ovs)"
      using that by (simp add: strict_prefix_def)
    then have "e = ?e" by (simp add: o)
    with sp show False by simp
  qed
  have 3: "\<not> strict_prefix path (entry_path e)" if "e \<in> set adds" for e
  proof
    assume sp: "strict_prefix path (entry_path e)"
    then have "e \<in> set (filter (\<lambda>e. prefix path (entry_path e)) adds)"
      using that by (simp add: strict_prefix_def)
    then show False by (simp add: a)
  qed
  from 1 2 3 show ?thesis by blast
qed

theorem table_over_scalar_one_override_witness:
  "wf_dict [(''a'', Table [(''x'', Scalar (PInt 2))])]
   \<and> path_get [(''a'', Table [(''x'', Scalar (PInt 2))])] [''a'']
       = Some (Table [(''x'', Scalar (PInt 2))])
   \<and> path_get [(''a'', Scalar (PInt 1))] [''a''] = Some (Scalar (PInt 1))
   \<and> install_changes [(''a'', Table [(''x'', Scalar (PInt 2))])] [(''a'', Scalar (PInt 1))] [] []
       = ([], [\<lparr>entry_path = [''a''], entry_repo = Table [(''x'', Scalar (PInt 2))],
                 entry_previous = Scalar (PInt 1)\<rparr>])
   \<and> filter (\<lambda>e. entry_path e = [''a''])
         [\<lparr>entry_path = [''a''], entry_repo = Table [(''x'', Scalar (PInt 2))],
            entry_previous = Scalar (PInt 1)\<rparr>]
       = [\<lparr>entry_path = [''a''], entry_repo = Table [(''x'', Scalar (PInt 2))],
            entry_previous = Scalar (PInt 1)\<rparr>]"
  using table_over_scalar_one_override
    [of "[(''a'', Table [(''x'', Scalar (PInt 2))])]" "[''a'']" "[(''x'', Scalar (PInt 2))]"
        "[(''a'', Scalar (PInt 1))]" "PInt 1" "[]"
        "[\<lparr>entry_path = [''a''], entry_repo = Table [(''x'', Scalar (PInt 2))],
            entry_previous = Scalar (PInt 1)\<rparr>]"]
  by (simp add: path_get_Cons)

text \<open>
  C7 as stated does not hold: with \<^verbatim>\<open>a = 1\<close> in the existing tree and the table
  \<^verbatim>\<open>a = {x = 2}\<close> in the repo tree, the leaf \<^verbatim>\<open>a.x\<close> of the repo subtree is not
  among the additions.
\<close>

theorem table_over_scalar_no_additions_counterexample:
  "path_get [(''a'', Table [(''x'', Scalar (PInt 2))])] [''a'']
       = Some (Table [(''x'', Scalar (PInt 2))])
   \<and> path_get [(''a'', Scalar (PInt 1))] [''a''] = Some (Scalar (PInt 1))
   \<and> collect_additions [''a''] (Table [(''x'', Scalar (PInt 2))]) []
       = [\<lparr>entry_path = [''a'', ''x''], entry_repo = Scalar (PInt 2)\<rparr>]
   \<and> \<lparr>entry_path = [''a'', ''x''], entry_repo = Scalar (PInt 2)\<rparr>
       \<notin> set (fst (install_changes [(''a'', Table [(''x'', Scalar (PInt 2))])]
                      [(''a'', Scalar (PInt 1))] [] []))"
  by (simp add: path_get_Cons)

text \<open>
  C7, amended.  If the repo tree holds a table at a path where the existing tree holds a
  value that is not a table, then no leaf of the repo subtree under that path is
  recorded as an addition, and no override is recorded under that path other than the
  one override of the path itself, which carries the whole repo subtree and is recorded.
\<close>

theorem table_over_scalar_whole_override:
  assumes "wf_dict repo_data"
    and "path_get repo_data path = Some (Table rd)"
    and "path_get existing_data path = Some (Scalar s)"
    and "install_changes repo_data existing_data [] [] = (adds, ovs)"
  shows "(\<forall>a \<in> set adds. \<not> prefix path (entry_path a))
       \<and> (\<forall>e \<in> set ovs. prefix path (entry_path e) \<longrightarrow>
             e = \<lparr>entry_path = path, entry_repo = Table rd, entry_previous = Scalar s\<rparr>)
       \<and> \<lparr>entry_path = path, entry_repo = Table rd, entry_previous = Scalar s\<rparr> \<in> set ovs"
proof -
  let ?e = "\<lparr>entry_path = path, entry_repo = Table rd, entry_previous = Scalar s\<rparr>"
  from assms(4) have adds: "adds = concat (map (item_additions existing_data) repo_data)"
    and ovs: "ovs = concat (map (item_overrides existing_data) repo_data)"
    by (simp_all add: install_changes_concat)
  from changes_at_table_over_scalar[OF assms(1-3)]
  have o: "filter (\<lambda>e. prefix path (entry_path e)) ovs = [?e]"
    and a: "filter (\<lambda>e. prefix path (entry_path e)) adds = []"
    by (simp_all add: adds ovs)
  have 1: "\<forall>a \<in> set adds. \<not> prefix path (entry_path a)"
    using a by (simp add: filter_empty_conv)
  have so: "set (filter (\<lambda>e. prefix path (entry_path e)) ovs) = {?e}"
    by (simp add: o)
  have 2: "\<forall>e \<in> set ovs. prefix path (entry_path e) \<longrightarrow> e = ?e"
    using so by auto
  have 3: "?e \<in> set ovs"
    using so by auto
  from 1 2 3 show ?thesis by blast
qed

theorem table_over_scalar_whole_override_witness:
  "wf_dict [(''a'', Table [(''x'', Scalar (PInt 2))])]
   \<and> path_get [(''a'', Table [(''x'', Scalar (PInt 2))])] [''a'']
       = Some (Table [(''x'', Scalar (PInt 2))])
   \<and> path_get [(''a'', Scalar (PInt 1))] [''a''] = Some (Scalar (PInt 1))
   \<and> install_changes [(''a'', Table [(''x'', Scalar (PInt 2))])] [(''a'', Scalar (PInt 1))] [] []
       = ([], [\<lparr>entry_path = [''a''], entry_repo = Table [(''x'', Scalar (PInt 2))],
                 entry_previous = Scalar (PInt 1)\<rparr>])
   \<and> \<lparr>entry_path = [''a''], entry_repo = Table [(''x'', Scalar (PInt 2))],
        entry_previous = Scalar (PInt 1)\<rparr>
       \<in> set [\<lparr>entry_path = [''a''], entry_repo = Table [(''x'', Scalar (PInt 2))],
                 entry_previous = Scalar (PInt 1)\<rparr>]"
  using table_over_scalar_whole_override
    [of "[(''a'', Table [(''x'', Scalar (PInt 2))])]" "[''a'']" "[(''x'', Scalar (PInt 2))]"
        "[(''a'', Scalar (PInt 1))]" "PInt 1" "[]"
        "[\<lparr>entry_path = [''a''], entry_repo = Table [(''x'', Scalar (PInt 2))],
            entry_previous = Scalar (PInt 1)\<rparr>]"]
  by (simp add: path_get_Cons)

section \<open>Claims about single ledger entries in the rollback\<close>

text \<open>
  C3 as stated does not hold.  The loop decides with Python's \<^verbatim>\<open>==\<close>, for which
  \<^verbatim>\<open>True == 1\<close>, and not with structural equality.  With \<^verbatim>\<open>x = true\<close> in the
  current tree and an override entry for \<^verbatim>\<open>x\<close> with the repo value \<^verbatim>\<open>1\<close> and the
  previous value \<^verbatim>\<open>0\<close>, the value at the path is not structurally equal to the repo
  value, and yet the loop stores the previous value and counts nothing, where the
  claim leaves the tree alone and counts one.
\<close>

theorem rollback_override_entry_counterexample:
  "path_get [(''x'', Scalar (PBool True))] [''x''] = Some (Scalar (PBool True))
   \<and> Scalar (PBool True) \<noteq> Scalar (PInt 1)
   \<and> rollback_overrides
        [\<lparr>entry_path = [''x''], entry_repo = Scalar (PInt 1), entry_previous = Scalar (PInt 0)\<rparr>]
        [(''x'', Scalar (PBool True))] 0
       = Inr ([(''x'', Scalar (PInt 0))], 0)
   \<and> rollback_overrides
        [\<lparr>entry_path = [''x''], entry_repo = Scalar (PInt 1), entry_previous = Scalar (PInt 0)\<rparr>]
        [(''x'', Scalar (PBool True))] 0
       \<noteq> Inr ([(''x'', Scalar (PBool True))], 1)"
  by (simp add: path_get_Cons path_set_def)

text \<open>
  C3, amended.  The loop over the overrides, at an entry with a non-empty path and the
  state \<open>(data, skipped)\<close>: if the path is absent from \<open>data\<close>, the loop goes on with
  the state unchanged; if the value at the path equals the entry's repo value in the
  sense of Python's \<^verbatim>\<open>==\<close> (\<open>py_eq\<close>, which identifies \<^verbatim>\<open>True\<close> with \<^verbatim>\<open>1\<close> and
  \<^verbatim>\<open>False\<close> with \<^verbatim>\<open>0\<close> and ignores the order of keys), \<^verbatim>\<open>path_set\<close> succeeds, the
  new tree holds the entry's previous value at the path, agrees with the old tree on
  every path that is neither above nor below the entry's path, and \<open>skipped\<close> is
  unchanged; otherwise the tree is unchanged and \<open>skipped\<close> grows by one.
\<close>

theorem rollback_override_entry:
  assumes "entry_path entry \<noteq> []"
  shows "(path_get data (entry_path entry) = None \<longrightarrow>
            rollback_overrides (entry # rest) data skipped =
              rollback_overrides rest data skipped)
       \<and> (\<forall>current. path_get data (entry_path entry) = Some current
               \<and> py_eq current (entry_repo entry) \<longrightarrow>
            (\<exists>data'. path_set data (entry_path entry) (entry_previous entry) = Inr data'
               \<and> path_get data' (entry_path entry) = Some (entry_previous entry)
               \<and> (\<forall>q. \<not> prefix (entry_path entry) q \<and> \<not> prefix q (entry_path entry)
                     \<longrightarrow> path_get data' q = path_get data q)
               \<and> rollback_overrides (entry # rest) data skipped =
                   rollback_overrides rest data' skipped))
       \<and> (\<forall>current. path_get data (entry_path entry) = Some current
               \<and> \<not> py_eq current (entry_repo entry) \<longrightarrow>
            rollback_overrides (entry # rest) data skipped =
              rollback_overrides rest data (skipped + 1))"
proof -
  let ?p = "entry_path entry"
  let ?d = "pset data ?p (entry_previous entry)"
  have set: "path_set data ?p (entry_previous entry) = Inr ?d"
    using assms by (rule path_set_eq)
  have same: "path_get ?d ?p = Some (entry_previous entry)"
    using assms by (rule path_get_pset_same)
  have other: "\<forall>q. \<not> prefix ?p q \<and> \<not> prefix q ?p \<longrightarrow> path_get ?d q = path_get data q"
    using assms by (simp add: path_get_pset_other)
  have 1: "path_get data ?p = None \<longrightarrow>
      rollback_overrides (entry # rest) data skipped = rollback_overrides rest data skipped"
    by simp
  have 2: "\<forall>current. path_get data ?p = Some current \<and> py_eq current (entry_repo entry) \<longrightarrow>
      (\<exists>data'. path_set data ?p (entry_previous entry) = Inr data'
         \<and> path_get data' ?p = Some (entry_previous entry)
         \<and> (\<forall>q. \<not> prefix ?p q \<and> \<not> prefix q ?p \<longrightarrow> path_get data' q = path_get data q)
         \<and> rollback_overrides (entry # rest) data skipped = rollback_overrides rest data' skipped)"
  proof (intro allI impI)
    fix current
    assume h: "path_get data ?p = Some current \<and> py_eq current (entry_repo entry)"
    then have "rollback_overrides (entry # rest) data skipped = rollback_overrides rest ?d skipped"
      by (simp add: set)
    with set same other
    show "\<exists>data'. path_set data ?p (entry_previous entry) = Inr data'
         \<and> path_get data' ?p = Some (entry_previous entry)
         \<and> (\<forall>q. \<not> prefix ?p q \<and> \<not> prefix q ?p \<longrightarrow> path_get data' q = path_get data q)
         \<and> rollback_overrides (entry # rest) data skipped = rollback_overrides rest data' skipped"
      by blast
  qed
  have 3: "\<forall>current. path_get data ?p = Some current \<and> \<not> py_eq current (entry_repo entry) \<longrightarrow>
      rollback_overrides (entry # rest) data skipped = rollback_overrides rest data (skipped + 1)"
    by simp
  from 1 2 3 show ?thesis by blast
qed

text \<open>
  C4 as stated does not hold, for the same reason.  With \<^verbatim>\<open>x = true\<close> in the current
  tree and an addition entry for \<^verbatim>\<open>x\<close> with the repo value \<^verbatim>\<open>1\<close>, the value at the
  path is not the repo value, and yet the loop deletes it and counts nothing, where
  the claim leaves the tree alone and counts one.
\<close>

theorem rollback_addition_entry_counterexample:
  "path_get [(''x'', Scalar (PBool True))] [''x''] = Some (Scalar (PBool True))
   \<and> Scalar (PBool True) \<noteq> Scalar (PInt 1)
   \<and> rollback_additions [\<lparr>entry_path = [''x''], entry_repo = Scalar (PInt 1)\<rparr>]
        [(''x'', Scalar (PBool True))] 0
       = Inr ([], 0)
   \<and> rollback_additions [\<lparr>entry_path = [''x''], entry_repo = Scalar (PInt 1)\<rparr>]
        [(''x'', Scalar (PBool True))] 0
       \<noteq> Inr ([(''x'', Scalar (PBool True))], 1)"
  by (simp add: path_get_Cons path_delete_def dict_contains_def)

text \<open>
  C4, amended.  The loop over the additions, at an entry with a non-empty path and the
  state \<open>(data, skipped)\<close>: if the path is absent, the loop goes on with the state
  unchanged; if the value at the path equals the entry's repo value in the sense of
  Python's \<^verbatim>\<open>==\<close> (\<open>py_eq\<close>, which identifies \<^verbatim>\<open>True\<close> with \<^verbatim>\<open>1\<close> and \<^verbatim>\<open>False\<close>
  with \<^verbatim>\<open>0\<close> and ignores the order of keys), \<^verbatim>\<open>path_delete\<close> returns
  \<^verbatim>\<open>True\<close>, the path is absent from the new tree, a proper ancestor \<open>a\<close> of the path
  (other than the root) is absent from the new tree exactly if every table from \<open>a\<close>
  down to the parent of the path held a single key, every other path that is neither
  above nor below the entry's path keeps its value, and \<open>skipped\<close> is unchanged;
  otherwise the tree is unchanged and \<open>skipped\<close> grows by one.
\<close>

theorem rollback_addition_entry:
  assumes "wf_dict data" and "entry_path entry \<noteq> []"
  shows "(path_get data (entry_path entry) = None \<longrightarrow>
            rollback_additions (entry # rest) data skipped =
              rollback_additions rest data skipped)
       \<and> (\<forall>current. path_get data (entry_path entry) = Some current
               \<and> py_eq current (entry_repo entry) \<longrightarrow>
            (\<exists>data'. path_delete data (entry_path entry) = Inr (True, data')
               \<and> path_get data' (entry_path entry) = None
               \<and> (\<forall>a. a \<noteq> [] \<and> strict_prefix a (entry_path entry) \<longrightarrow>
                     (path_get data' a = None) =
                       (\<forall>b. prefix a b \<and> strict_prefix b (entry_path entry) \<longrightarrow>
                          (\<exists>kv. path_get data b = Some (Table [kv]))))
               \<and> (\<forall>q w. path_get data q = Some w \<and> \<not> prefix (entry_path entry) q
                        \<and> \<not> prefix q (entry_path entry)
                     \<longrightarrow> path_get data' q = Some w)
               \<and> rollback_additions (entry # rest) data skipped =
                   rollback_additions rest data' skipped))
       \<and> (\<forall>current. path_get data (entry_path entry) = Some current
               \<and> \<not> py_eq current (entry_repo entry) \<longrightarrow>
            rollback_additions (entry # rest) data skipped =
              rollback_additions rest data (skipped + 1))"
proof -
  let ?p = "entry_path entry"
  let ?d = "snd (path_delete_rec data ?p)"
  have del: "path_delete data ?p = Inr (path_delete_rec data ?p)"
    using assms(2) by (rule path_delete_eq_rec)
  have 1: "path_get data ?p = None \<longrightarrow>
      rollback_additions (entry # rest) data skipped = rollback_additions rest data skipped"
    by simp
  have 2: "\<forall>current. path_get data ?p = Some current \<and> py_eq current (entry_repo entry) \<longrightarrow>
      (\<exists>data'. path_delete data ?p = Inr (True, data')
         \<and> path_get data' ?p = None
         \<and> (\<forall>a. a \<noteq> [] \<and> strict_prefix a ?p \<longrightarrow>
               (path_get data' a = None) =
                 (\<forall>b. prefix a b \<and> strict_prefix b ?p \<longrightarrow>
                    (\<exists>kv. path_get data b = Some (Table [kv]))))
         \<and> (\<forall>q w. path_get data q = Some w \<and> \<not> prefix ?p q \<and> \<not> prefix q ?p
               \<longrightarrow> path_get data' q = Some w)
         \<and> rollback_additions (entry # rest) data skipped = rollback_additions rest data' skipped)"
  proof (intro allI impI)
    fix current
    assume h: "path_get data ?p = Some current \<and> py_eq current (entry_repo entry)"
    then have cur: "path_get data ?p = Some current" by blast
    have "fst (path_delete_rec data ?p) = True"
      using cur assms(2) by (rule path_delete_rec_flag)
    then have rec: "path_delete_rec data ?p = (True, ?d)"
      by (cases "path_delete_rec data ?p") auto
    have a: "path_delete data ?p = Inr (True, ?d)"
      using del rec by simp
    have b: "path_get ?d ?p = None"
      using assms(1) cur assms(2) by (rule path_delete_rec_gone)
    have c: "\<forall>a. a \<noteq> [] \<and> strict_prefix a ?p \<longrightarrow>
               (path_get ?d a = None) =
                 (\<forall>b. prefix a b \<and> strict_prefix b ?p \<longrightarrow>
                    (\<exists>kv. path_get data b = Some (Table [kv])))"
      using path_delete_rec_pruned[OF assms(1) cur] by (simp add: single_at_def)
    have d: "\<forall>q w. path_get data q = Some w \<and> \<not> prefix ?p q \<and> \<not> prefix q ?p
               \<longrightarrow> path_get ?d q = Some w"
      using path_delete_rec_other by blast
    have e: "rollback_additions (entry # rest) data skipped = rollback_additions rest ?d skipped"
      using h by (simp add: a)
    from a b c d e
    show "\<exists>data'. path_delete data ?p = Inr (True, data')
         \<and> path_get data' ?p = None
         \<and> (\<forall>a. a \<noteq> [] \<and> strict_prefix a ?p \<longrightarrow>
               (path_get data' a = None) =
                 (\<forall>b. prefix a b \<and> strict_prefix b ?p \<longrightarrow>
                    (\<exists>kv. path_get data b = Some (Table [kv]))))
         \<and> (\<forall>q w. path_get data q = Some w \<and> \<not> prefix ?p q \<and> \<not> prefix q ?p
               \<longrightarrow> path_get data' q = Some w)
         \<and> rollback_additions (entry # rest) data skipped = rollback_additions rest data' skipped"
      by blast
  qed
  have 3: "\<forall>current. path_get data ?p = Some current \<and> \<not> py_eq current (entry_repo entry) \<longrightarrow>
      rollback_additions (entry # rest) data skipped = rollback_additions rest data (skipped + 1)"
    by simp
  from 1 2 3 show ?thesis by blast
qed

theorem rollback_override_entry_witness:
  "entry_path \<lparr>entry_path = [''mode''], entry_repo = Scalar (PStr ''auto''),
                entry_previous = Scalar (PStr ''manual'')\<rparr> \<noteq> []
   \<and> path_get [] [''mode''] = None
   \<and> rollback_overrides
        [\<lparr>entry_path = [''mode''], entry_repo = Scalar (PStr ''auto''),
           entry_previous = Scalar (PStr ''manual'')\<rparr>] [] 0 = Inr ([], 0)
   \<and> path_get [(''mode'', Scalar (PStr ''auto''))] [''mode''] = Some (Scalar (PStr ''auto''))
   \<and> py_eq (Scalar (PStr ''auto'')) (Scalar (PStr ''auto''))
   \<and> rollback_overrides
        [\<lparr>entry_path = [''mode''], entry_repo = Scalar (PStr ''auto''),
           entry_previous = Scalar (PStr ''manual'')\<rparr>]
        [(''mode'', Scalar (PStr ''auto''))] 0 = Inr ([(''mode'', Scalar (PStr ''manual''))], 0)
   \<and> path_get [(''mode'', Scalar (PStr ''fast''))] [''mode''] = Some (Scalar (PStr ''fast''))
   \<and> \<not> py_eq (Scalar (PStr ''fast'')) (Scalar (PStr ''auto''))
   \<and> rollback_overrides
        [\<lparr>entry_path = [''mode''], entry_repo = Scalar (PStr ''auto''),
           entry_previous = Scalar (PStr ''manual'')\<rparr>]
        [(''mode'', Scalar (PStr ''fast''))] 0 = Inr ([(''mode'', Scalar (PStr ''fast''))], 1)"
  using
    rollback_override_entry
      [of "\<lparr>entry_path = [''mode''], entry_repo = Scalar (PStr ''auto''),
             entry_previous = Scalar (PStr ''manual'')\<rparr>" "[]" "[]" 0]
    rollback_override_entry
      [of "\<lparr>entry_path = [''mode''], entry_repo = Scalar (PStr ''auto''),
             entry_previous = Scalar (PStr ''manual'')\<rparr>"
          "[(''mode'', Scalar (PStr ''auto''))]" "[]" 0]
    rollback_override_entry
      [of "\<lparr>entry_path = [''mode''], entry_repo = Scalar (PStr ''auto''),
             entry_previous = Scalar (PStr ''manual'')\<rparr>"
          "[(''mode'', Scalar (PStr ''fast''))]" "[]" 0]
  by (simp add: path_get_Cons path_set_def)

theorem rollback_addition_entry_witness:
  "wf_dict [(''a'', Table [(''b'', Table [(''c'', Scalar (PInt 1))])]), (''z'', Scalar (PInt 2))]
   \<and> entry_path \<lparr>entry_path = [''a'', ''b'', ''c''], entry_repo = Scalar (PInt 1)\<rparr> \<noteq> []
   \<and> path_get [(''z'', Scalar (PInt 2))] [''a'', ''b'', ''c''] = None
   \<and> rollback_additions [\<lparr>entry_path = [''a'', ''b'', ''c''], entry_repo = Scalar (PInt 1)\<rparr>]
        [(''z'', Scalar (PInt 2))] 0 = Inr ([(''z'', Scalar (PInt 2))], 0)
   \<and> path_get [(''a'', Table [(''b'', Table [(''c'', Scalar (PInt 1))])]), (''z'', Scalar (PInt 2))]
        [''a'', ''b'', ''c''] = Some (Scalar (PInt 1))
   \<and> py_eq (Scalar (PInt 1)) (Scalar (PInt 1))
   \<and> rollback_additions [\<lparr>entry_path = [''a'', ''b'', ''c''], entry_repo = Scalar (PInt 1)\<rparr>]
        [(''a'', Table [(''b'', Table [(''c'', Scalar (PInt 1))])]), (''z'', Scalar (PInt 2))] 0
       = Inr ([(''z'', Scalar (PInt 2))], 0)
   \<and> path_get [(''a'', Table [(''b'', Table [(''c'', Scalar (PInt 5))])])]
        [''a'', ''b'', ''c''] = Some (Scalar (PInt 5))
   \<and> \<not> py_eq (Scalar (PInt 5)) (Scalar (PInt 1))
   \<and> rollback_additions [\<lparr>entry_path = [''a'', ''b'', ''c''], entry_repo = Scalar (PInt 1)\<rparr>]
        [(''a'', Table [(''b'', Table [(''c'', Scalar (PInt 5))])])] 0
       = Inr ([(''a'', Table [(''b'', Table [(''c'', Scalar (PInt 5))])])], 1)"
  using
    rollback_addition_entry
      [of "[(''z'', Scalar (PInt 2))]"
          "\<lparr>entry_path = [''a'', ''b'', ''c''], entry_repo = Scalar (PInt 1)\<rparr>" "[]" 0]
    rollback_addition_entry
      [of "[(''a'', Table [(''b'', Table [(''c'', Scalar (PInt 1))])]), (''z'', Scalar (PInt 2))]"
          "\<lparr>entry_path = [''a'', ''b'', ''c''], entry_repo = Scalar (PInt 1)\<rparr>" "[]" 0]
    rollback_addition_entry
      [of "[(''a'', Table [(''b'', Table [(''c'', Scalar (PInt 5))])])]"
          "\<lparr>entry_path = [''a'', ''b'', ''c''], entry_repo = Scalar (PInt 1)\<rparr>" "[]" 0]
  by (simp add: path_get_Cons path_delete_def dict_contains_def)

section \<open>The rollback loops\<close>

lemma rollback_overrides_eq:
  "\<forall>e \<in> set es. entry_path e \<noteq> [] \<Longrightarrow> rollback_overrides es d s = Inr (ro es d s)"
  by (induction es d s rule: ro.induct) (auto simp: path_set_eq split: option.splits)

lemma rollback_additions_eq:
  "\<forall>e \<in> set es. entry_path e \<noteq> [] \<Longrightarrow> rollback_additions es d s = Inr (ra es d s)"
proof (induction es d s rule: ra.induct)
  case (1 d s)
  show ?case by simp
next
  case (2 e es d s)
  from "2.prems" have p: "entry_path e \<noteq> []" and rest: "\<forall>e \<in> set es. entry_path e \<noteq> []"
    by simp_all
  obtain fl d' where rec: "path_delete_rec d (entry_path e) = (fl, d')"
    by (cases "path_delete_rec d (entry_path e)")
  show ?case
  proof (cases "path_get d (entry_path e)")
    case None
    with "2.IH"(1)[OF None rest] show ?thesis by simp
  next
    case (Some cur)
    show ?thesis
    proof (cases "py_eq cur (entry_repo e)")
      case True
      with "2.IH"(2)[OF Some True rest] show ?thesis
        by (simp add: Some path_delete_eq_rec[OF p] rec)
    next
      case False
      with "2.IH"(3)[OF Some False rest] show ?thesis
        by (simp add: Some)
    qed
  qed
qed

lemma ro_append: "ro (xs @ ys) d s = (case ro xs d s of (d', s') \<Rightarrow> ro ys d' s')"
  by (induction xs d s rule: ro.induct) (auto split: option.splits)

lemma ra_append: "ra (xs @ ys) d s = (case ra xs d s of (d', s') \<Rightarrow> ra ys d' s')"
  by (induction xs d s rule: ra.induct) (auto split: option.splits)

lemma ro_local:
  "\<forall>e \<in> set es. entry_path e \<noteq> [] \<Longrightarrow> dict_get T k = Some (Table c) \<Longrightarrow>
   ro (map (pre [k]) es) T s = (dict_set T k (Table (fst (ro es c s))), snd (ro es c s))"
proof (induction es arbitrary: T c s)
  case Nil
  then show ?case by (simp add: dict_set_same)
next
  case (Cons e es)
  from Cons.prems(1) have p: "entry_path e \<noteq> []" and rest: "\<forall>e \<in> set es. entry_path e \<noteq> []"
    by simp_all
  have get: "path_get T (k # entry_path e) = path_get c (entry_path e)"
    using Cons.prems(2) by (rule path_get_Cons_Table)
  show ?case
  proof (cases "path_get c (entry_path e)")
    case None
    with Cons.IH[OF rest Cons.prems(2)] show ?thesis by (simp add: get)
  next
    case (Some cur)
    show ?thesis
    proof (cases "py_eq cur (entry_repo e)")
      case False
      with Cons.IH[OF rest Cons.prems(2)] Some show ?thesis by (simp add: get)
    next
      case True
      let ?c = "pset c (entry_path e) (entry_previous e)"
      let ?T = "dict_set T k (Table ?c)"
      have set: "pset T (k # entry_path e) (entry_previous e) = ?T"
        using Cons.prems(2) by (simp add: pset_Cons[OF p])
      have "dict_get ?T k = Some (Table ?c)" by (simp add: dict_get_set)
      from Cons.IH[OF rest this]
      have "ro (map (pre [k]) es) ?T s =
          (dict_set T k (Table (fst (ro es ?c s))), snd (ro es ?c s))"
        by (simp add: dict_set_set)
      with True Some show ?thesis by (simp add: get set)
    qed
  qed
qed

lemma ra_absent:
  "\<forall>e \<in> set es. entry_path e \<noteq> [] \<Longrightarrow> dict_get T k = None \<Longrightarrow>
   ra (map (pre [k]) es) T s = (T, s)"
  by (induction es) (simp_all add: path_get_Cons_absent)

lemma ra_Nil_dict:
  "\<forall>e \<in> set es. entry_path e \<noteq> [] \<Longrightarrow> ra es [] s = ([], s)"
  by (induction es) (simp_all add: path_get_Nil_dict)

lemma path_delete_rec_Cons:
  assumes "q \<noteq> []" "dict_get T k = Some (Table c)" "path_get c q = Some w"
  shows "snd (path_delete_rec T (k # q)) =
     (if snd (path_delete_rec c q) = [] then dict_del T k
      else dict_set T k (Table (snd (path_delete_rec c q))))"
proof -
  from assms(1) obtain k' q' where q: "q = k' # q'" by (cases q) auto
  have "fst (path_delete_rec c q) = True"
    using assms(3,1) by (rule path_delete_rec_flag)
  then obtain c' where "path_delete_rec c q = (True, c')"
    by (cases "path_delete_rec c q") auto
  then show ?thesis
    using assms(2) by (simp add: q)
qed

lemma ra_local:
  "\<forall>e \<in> set es. entry_path e \<noteq> [] \<Longrightarrow> distinct (map fst T) \<Longrightarrow>
   dict_get T k = Some (Table c) \<Longrightarrow>
   ra (map (pre [k]) es) T s =
     (if fst (ra es c s) = [] \<and> c \<noteq> [] then dict_del T k
      else dict_set T k (Table (fst (ra es c s))),
      snd (ra es c s))"
proof (induction es arbitrary: T c s)
  case Nil
  then show ?case by (simp add: dict_set_same)
next
  case (Cons e es)
  from Cons.prems(1) have p: "entry_path e \<noteq> []" and rest: "\<forall>e \<in> set es. entry_path e \<noteq> []"
    by simp_all
  have get: "path_get T (k # entry_path e) = path_get c (entry_path e)"
    using Cons.prems(3) by (rule path_get_Cons_Table)
  show ?case
  proof (cases "path_get c (entry_path e)")
    case None
    with Cons.IH[OF rest Cons.prems(2,3)] show ?thesis by (simp add: get)
  next
    case (Some cur)
    show ?thesis
    proof (cases "py_eq cur (entry_repo e)")
      case False
      with Cons.IH[OF rest Cons.prems(2,3)] Some show ?thesis by (simp add: get)
    next
      case True
      let ?c = "snd (path_delete_rec c (entry_path e))"
      have cne: "c \<noteq> []" using Some p by (rule path_get_Some_nonempty)
      have del: "snd (path_delete_rec T (k # entry_path e)) =
          (if ?c = [] then dict_del T k else dict_set T k (Table ?c))"
        using p Cons.prems(3) Some by (rule path_delete_rec_Cons)
      have step: "ra (map (pre [k]) (e # es)) T s =
          ra (map (pre [k]) es) (snd (path_delete_rec T (k # entry_path e))) s"
        using True Some by (simp add: get)
      have stepc: "ra (e # es) c s = ra es ?c s"
        using True Some by simp
      show ?thesis
      proof (cases "?c = []")
        case True
        have "dict_get (dict_del T k) k = None"
          using Cons.prems(2) by (rule dict_get_del_same)
        then have "ra (map (pre [k]) es) (dict_del T k) s = (dict_del T k, s)"
          using rest by (intro ra_absent)
        moreover have "ra es [] s = ([], s)" using rest by (rule ra_Nil_dict)
        ultimately show ?thesis
          unfolding step stepc del using True cne by simp
      next
        case False
        let ?T = "dict_set T k (Table ?c)"
        have d: "distinct (map fst ?T)"
          using Cons.prems(2,3) by (simp add: keys_dict_set)
        have g: "dict_get ?T k = Some (Table ?c)" by (simp add: dict_get_set)
        have del_set: "dict_del ?T k = dict_del T k"
          by (induction T) auto
        from Cons.IH[OF rest d g]
        have "ra (map (pre [k]) es) ?T s =
          (if fst (ra es ?c s) = [] \<and> ?c \<noteq> [] then dict_del T k
           else dict_set T k (Table (fst (ra es ?c s))), snd (ra es ?c s))"
          by (simp add: dict_set_set del_set)
        then show ?thesis
          unfolding step stepc del using False cne by simp
      qed
    qed
  qed
qed

section \<open>Python's equality is reflexive\<close>

lemma py_eq_scalar_refl: "py_eq_scalar a a"
proof (induction a)
  case (PList xs)
  have "py_eq_list ys ys" if "set ys \<subseteq> set xs" for ys
    using that by (induction ys) (auto simp: PList)
  then show ?case by simp
qed simp_all

lemma py_eq_items_subset:
  "distinct (map fst d) \<Longrightarrow> set xs \<subseteq> set d \<Longrightarrow> (\<forall>(k, v) \<in> set xs. py_eq v v) \<Longrightarrow>
   py_eq_items xs d"
  by (induction xs) (auto simp: dict_get_mem)

lemma py_eq_refl:
  "wf_value v \<Longrightarrow> py_eq v v"
  "wf_dict d \<Longrightarrow> (\<forall>(k, w) \<in> set d. py_eq w w)"
proof (induction v and d rule: wf_value_wf_dict.induct)
  case (1 s)
  show ?case by (simp add: py_eq_scalar_refl)
next
  case (2 d)
  then have "wf_dict d" by simp
  with 2 have "\<forall>(k, w) \<in> set d. py_eq w w" by blast
  with \<open>wf_dict d\<close> have "py_eq_items d d"
    by (intro py_eq_items_subset wf_dict_distinct) auto
  then show ?case by simp
next
  case 3
  show ?case by simp
next
  case (4 k v rest)
  then show ?case by auto
qed

section \<open>Association lists with distinct keys are determined by their bindings\<close>

lemma dict_ext:
  "distinct (map fst a) \<Longrightarrow> map fst a = map fst b \<Longrightarrow> (\<forall>k. dict_get a k = dict_get b k) \<Longrightarrow>
   a = b"
proof (induction a arbitrary: b)
  case Nil
  then show ?case by simp
next
  case (Cons x a)
  obtain k v where x: "x = (k, v)" by (cases x)
  from Cons.prems(2) obtain w b' where b: "b = (k, w) # b'" "map fst a = map fst b'"
    by (cases b) (auto simp: x)
  from Cons.prems(3)[rule_format, of k] have vw: "v = w" by (simp add: x b)
  have "dict_get a k' = dict_get b' k'" for k'
  proof (cases "k' = k")
    case True
    from Cons.prems(1) have ka: "k \<notin> fst ` set a" by (simp add: x)
    from this b(2) have kb: "k \<notin> fst ` set b'" by (metis list.set_map)
    from ka have "dict_get a k = None" by (simp only: dict_get_None_iff not_False_eq_True)
    moreover from kb have "dict_get b' k = None" by (simp only: dict_get_None_iff not_False_eq_True)
    ultimately show ?thesis by (simp add: True)
  next
    case False
    with Cons.prems(3)[rule_format, of k'] show ?thesis by (simp add: x b)
  qed
  with Cons.IH[of b'] Cons.prems(1) b(2) have "a = b'" by (simp add: x)
  with vw show ?case by (simp add: x b)
qed

lemma keys_restore_items [simp]: "map fst (restore_items e r) = map fst e"
  by (induction e) auto

lemma keys_settle_items [simp]: "map fst (settle_items e r) = map fst e"
  by (induction e) auto

lemma dict_get_restore_items:
  "dict_get (restore_items e r) k = map_option (\<lambda>ev. restore_value ev (dict_get r k)) (dict_get e k)"
  by (induction e) auto

lemma dict_get_settle_items:
  "dict_get (settle_items e r) k = map_option (\<lambda>ev. settle_value ev (dict_get r k)) (dict_get e k)"
  by (induction e) auto

lemma dict_get_filter_absent:
  "dict_get (filter (\<lambda>(k, v). dict_get e k = None) r) k =
     (if dict_get e k = None then dict_get r k else None)"
  by (induction r) auto

lemma keys_filter_absent:
  "map fst (filter (\<lambda>(k, v). dict_get e k = None) r) =
     filter (\<lambda>k. dict_get e k = None) (map fst r)"
  by (induction r) auto

lemma keys_merge_dicts:
  "distinct (map fst e) \<Longrightarrow> distinct (map fst r) \<Longrightarrow>
   map fst (merge_dicts e r) = map fst e @ filter (\<lambda>k. dict_get e k = None) (map fst r)"
proof -
  assume a: "distinct (map fst e)" "distinct (map fst r)"
  have "map fst (map (\<lambda>(k, bv). (k, merge_value bv (dict_get r k))) e) = map fst e"
    by (induction e) auto
  then show ?thesis
    by (simp add: merge_dicts_eq[OF a] keys_filter_absent)
qed

lemma distinct_keys_merge:
  "distinct (map fst e) \<Longrightarrow> distinct (map fst r) \<Longrightarrow>
   distinct (map fst e @ filter (\<lambda>k. dict_get e k = None) (map fst r))"
  by (auto simp: dict_get_None_iff)

lemma keys_mid_dicts:
  "map fst (mid_dicts e r) = map fst e @ filter (\<lambda>k. dict_get e k = None) (map fst r)"
  by (simp add: mid_dicts_def keys_filter_absent)

lemma dict_get_mid_dicts:
  "dict_get (mid_dicts e r) k =
     (case dict_get e k of
        Some ev \<Rightarrow> Some (restore_value ev (dict_get r k))
      | None \<Rightarrow> dict_get r k)"
  by (simp add: mid_dicts_def dict_get_append dict_get_restore_items dict_get_filter_absent
      split: option.splits)

section \<open>Rolling back the overrides of an unmodified merge\<close>

lemma item_overrides_absent: "dict_get E k = None \<Longrightarrow> item_overrides E (k, v) = []"
  by (simp add: item_overrides_def)

lemma item_overrides_tables:
  "dict_get E k = Some (Table e) \<Longrightarrow>
   item_overrides E (k, Table r) = map (pre [k]) (concat (map (item_overrides e) r))"
  by (simp add: item_overrides_def collect_changes_items_concat)

lemma item_additions_tables:
  "dict_get E k = Some (Table e) \<Longrightarrow>
   item_additions E (k, Table r) = map (pre [k]) (concat (map (item_additions e) r))"
  by (simp add: item_additions_def collect_changes_items_concat)

lemma concat_item_paths_nonempty:
  "\<forall>x \<in> set (concat (map (item_overrides e) r)). entry_path x \<noteq> []"
  "\<forall>y \<in> set (concat (map (item_additions e) r)). entry_path y \<noteq> []"
  using item_paths by fastforce+

lemma ro_item:
  assumes wfv: "wf_value v"
    and ev: "dict_get E k = Some ev"
    and Tk: "dict_get T k = Some (merge_value ev (Some v))"
    and IH: "\<And>e r s. v = Table r \<Longrightarrow> ev = Table e \<Longrightarrow>
          ro (concat (map (item_overrides e) r)) (merge_dicts e r) s = (mid_dicts e r, s)"
  shows "ro (item_overrides E (k, v)) T s = (dict_set T k (restore_value ev (Some v)), s)"
proof (cases v)
  case (Scalar b)
  note v = this
  show ?thesis
  proof (cases ev)
    case (Scalar a)
    with v Tk have Tk': "dict_get T k = Some (Scalar b)" by (simp add: merge_value_def)
    show ?thesis
    proof (cases "py_eq_scalar a b")
      case True
      then show ?thesis
        using Tk' by (simp add: item_overrides_def ev v Scalar dict_set_same)
    next
      case False
      then show ?thesis
        using Tk' by (simp add: item_overrides_def ev v Scalar pre_def path_get_single
            py_eq_scalar_refl)
    qed
  next
    case (Table e)
    with v Tk have Tk': "dict_get T k = Some (Scalar b)" by (simp add: merge_value_def)
    then show ?thesis
      by (simp add: item_overrides_def ev v Table pre_def path_get_single py_eq_scalar_refl)
  qed
next
  case (Table r)
  note v = this
  show ?thesis
  proof (cases ev)
    case (Scalar a)
    with v Tk have Tk': "dict_get T k = Some (Table r)" by (simp add: merge_value_def)
    have "py_eq (Table r) (Table r)" using wfv v py_eq_refl(1) by blast
    with Tk' show ?thesis
      by (simp add: item_overrides_def ev v Scalar pre_def path_get_single del: py_eq.simps)
  next
    case (Table e)
    with v Tk have Tk': "dict_get T k = Some (Table (merge_dicts e r))"
      by (simp add: merge_value_def)
    have "ro (item_overrides E (k, v)) T s =
        (dict_set T k (Table (fst (ro (concat (map (item_overrides e) r)) (merge_dicts e r) s))),
         snd (ro (concat (map (item_overrides e) r)) (merge_dicts e r) s))"
      unfolding v item_overrides_tables[OF ev[unfolded Table]]
      using concat_item_paths_nonempty(1) Tk' by (rule ro_local)
    then show ?thesis
      by (simp add: IH[OF v Table] v Table mid_dicts_def)
  qed
qed

lemma ro_items:
  assumes "distinct (map fst rs)"
    and "\<forall>(k, v) \<in> set rs. wf_value v"
    and "\<forall>(k, v) \<in> set rs. \<forall>ev. dict_get E k = Some ev \<longrightarrow>
           dict_get T k = Some (merge_value ev (Some v))"
    and "\<forall>(k, v) \<in> set rs. \<forall>e r s. v = Table r \<longrightarrow> dict_get E k = Some (Table e) \<longrightarrow>
           ro (concat (map (item_overrides e) r)) (merge_dicts e r) s = (mid_dicts e r, s)"
  shows "\<exists>T'. ro (concat (map (item_overrides E) rs)) T s = (T', s)
       \<and> map fst T' = map fst T
       \<and> (\<forall>k'. dict_get T' k' =
            (case dict_get rs k' of
               Some v \<Rightarrow>
                 (case dict_get E k' of
                    Some ev \<Rightarrow> Some (restore_value ev (Some v))
                  | None \<Rightarrow> dict_get T k')
             | None \<Rightarrow> dict_get T k'))"
  using assms
proof (induction rs arbitrary: T)
  case Nil
  show ?case by simp
next
  case (Cons x rs)
  obtain k v where x: "x = (k, v)" by (cases x)
  from Cons.prems(1) have dist: "distinct (map fst rs)" and fresh: "dict_get rs k = None"
    by (simp_all add: x dict_get_None_iff)
  from Cons.prems(2) have wfv: "wf_value v" and wfs: "\<forall>(k, v) \<in> set rs. wf_value v"
    by (simp_all add: x)
  from Cons.prems(4) have IHs: "\<forall>(k, v) \<in> set rs. \<forall>e r s. v = Table r \<longrightarrow>
      dict_get E k = Some (Table e) \<longrightarrow>
      ro (concat (map (item_overrides e) r)) (merge_dicts e r) s = (mid_dicts e r, s)"
    by simp
  have other: "k' \<noteq> k" if "(k', v') \<in> set rs" for k' v'
    using that Cons.prems(1) by (force simp: x)
  show ?case
  proof (cases "dict_get E k")
    case None
    have agree: "\<forall>(k, v) \<in> set rs. \<forall>ev. dict_get E k = Some ev \<longrightarrow>
        dict_get T k = Some (merge_value ev (Some v))"
      using Cons.prems(3) by simp
    from Cons.IH[OF dist wfs agree IHs] obtain T' where T':
      "ro (concat (map (item_overrides E) rs)) T s = (T', s)" "map fst T' = map fst T"
      "\<And>k'. dict_get T' k' =
            (case dict_get rs k' of
               Some v \<Rightarrow>
                 (case dict_get E k' of
                    Some ev \<Rightarrow> Some (restore_value ev (Some v))
                  | None \<Rightarrow> dict_get T k')
             | None \<Rightarrow> dict_get T k')"
      by blast
    have "ro (concat (map (item_overrides E) (x # rs))) T s = (T', s)"
      by (simp add: x item_overrides_absent[OF None] T'(1))
    moreover have "dict_get T' k' =
            (case dict_get (x # rs) k' of
               Some v \<Rightarrow>
                 (case dict_get E k' of
                    Some ev \<Rightarrow> Some (restore_value ev (Some v))
                  | None \<Rightarrow> dict_get T k')
             | None \<Rightarrow> dict_get T k')" for k'
      using T'(3)[of k'] None fresh by (cases "k' = k") (auto simp: x)
    ultimately show ?thesis using T'(2) by blast
  next
    case (Some ev)
    let ?T1 = "dict_set T k (restore_value ev (Some v))"
    from Cons.prems(3) Some have Tk: "dict_get T k = Some (merge_value ev (Some v))"
      by (simp add: x)
    have item: "ro (item_overrides E (k, v)) T s = (?T1, s)"
    proof (rule ro_item[OF wfv Some Tk])
      fix e r s
      assume "v = Table r" "ev = Table e"
      with Cons.prems(4) Some
      show "ro (concat (map (item_overrides e) r)) (merge_dicts e r) s = (mid_dicts e r, s)"
        by (simp add: x)
    qed
    have agree: "\<forall>(k, v) \<in> set rs. \<forall>ev. dict_get E k = Some ev \<longrightarrow>
        dict_get ?T1 k = Some (merge_value ev (Some v))"
      using Cons.prems(3) other by (auto simp: dict_get_set)
    from Cons.IH[OF dist wfs agree IHs] obtain T' where T':
      "ro (concat (map (item_overrides E) rs)) ?T1 s = (T', s)" "map fst T' = map fst ?T1"
      "\<And>k'. dict_get T' k' =
            (case dict_get rs k' of
               Some v \<Rightarrow>
                 (case dict_get E k' of
                    Some ev \<Rightarrow> Some (restore_value ev (Some v))
                  | None \<Rightarrow> dict_get ?T1 k')
             | None \<Rightarrow> dict_get ?T1 k')"
      by blast
    have "ro (concat (map (item_overrides E) (x # rs))) T s = (T', s)"
      by (simp add: x ro_append item T'(1))
    moreover have "map fst T' = map fst T"
      using T'(2) Tk by (simp add: keys_dict_set)
    moreover have "dict_get T' k' =
            (case dict_get (x # rs) k' of
               Some v \<Rightarrow>
                 (case dict_get E k' of
                    Some ev \<Rightarrow> Some (restore_value ev (Some v))
                  | None \<Rightarrow> dict_get T k')
             | None \<Rightarrow> dict_get T k')" for k'
      using T'(3)[of k'] Some fresh
      by (cases "k' = k") (auto simp: x dict_get_set split: option.splits)
    ultimately show ?thesis by blast
  qed
qed

lemma ro_restores_aux:
  "wf_value v \<Longrightarrow>
     (\<forall>e r s. v = Table r \<longrightarrow> wf_dict e \<longrightarrow>
        ro (concat (map (item_overrides e) r)) (merge_dicts e r) s = (mid_dicts e r, s))"
  "wf_dict rs \<Longrightarrow>
     (\<forall>(k, v) \<in> set rs. \<forall>e r s. v = Table r \<longrightarrow> wf_dict e \<longrightarrow>
        ro (concat (map (item_overrides e) r)) (merge_dicts e r) s = (mid_dicts e r, s))"
proof (induction v and rs rule: wf_value_wf_dict.induct)
  case (1 s)
  show ?case by simp
next
  case (2 d)
  then have wd: "wf_dict d" by simp
  note IH = 2(1)[OF wd]
  show ?case
  proof (intro allI impI)
    fix e r s
    assume r: "Table d = Table r" and we: "wf_dict e"
    then have rd: "r = d" by simp
    have dd: "distinct (map fst d)" using wd by (rule wf_dict_distinct)
    have de: "distinct (map fst e)" using we by (rule wf_dict_distinct)
    let ?M = "merge_dicts e d"
    have getM: "dict_get ?M k =
        (case dict_get e k of
           Some bv \<Rightarrow> Some (merge_value bv (dict_get d k))
         | None \<Rightarrow> dict_get d k)" for k
      using de dd by (rule dict_get_merge_dicts)
    have a2: "\<forall>(k, v) \<in> set d. wf_value v" using wd by (simp add: wf_dict_iff)
    have a3: "\<forall>(k, v) \<in> set d. \<forall>ev. dict_get e k = Some ev \<longrightarrow>
           dict_get ?M k = Some (merge_value ev (Some v))"
      using dd by (auto simp: getM dict_get_mem)
    have a4: "\<forall>(k, v) \<in> set d. \<forall>e' r s. v = Table r \<longrightarrow> dict_get e k = Some (Table e') \<longrightarrow>
           ro (concat (map (item_overrides e') r)) (merge_dicts e' r) s = (mid_dicts e' r, s)"
      using IH we wf_dict_child by blast
    from ro_items[OF dd a2 a3 a4, of s] obtain T' where T':
      "ro (concat (map (item_overrides e) d)) ?M s = (T', s)" "map fst T' = map fst ?M"
      "\<And>k'. dict_get T' k' =
            (case dict_get d k' of
               Some v \<Rightarrow>
                 (case dict_get e k' of
                    Some ev \<Rightarrow> Some (restore_value ev (Some v))
                  | None \<Rightarrow> dict_get ?M k')
             | None \<Rightarrow> dict_get ?M k')"
      by blast
    have keys: "map fst T' = map fst (mid_dicts e d)"
      using T'(2) by (simp add: keys_merge_dicts[OF de dd] keys_mid_dicts)
    have dT: "distinct (map fst T')"
      unfolding keys keys_mid_dicts using de dd by (rule distinct_keys_merge)
    have "dict_get T' k' = dict_get (mid_dicts e d) k'" for k'
      by (simp add: T'(3) getM dict_get_mid_dicts merge_value_def split: option.splits)
    with dT keys have "T' = mid_dicts e d" by (intro dict_ext) auto
    with T'(1) show "ro (concat (map (item_overrides e) r)) (merge_dicts e r) s = (mid_dicts e r, s)"
      by (simp add: rd)
  qed
next
  case 3
  show ?case by simp
next
  case (4 k v rest)
  then show ?case by simp
qed

lemma ro_restores:
  "wf_dict e \<Longrightarrow> wf_dict r \<Longrightarrow>
   ro (concat (map (item_overrides e) r)) (merge_dicts e r) s = (mid_dicts e r, s)"
  using ro_restores_aux(1)[of "Table r"] by simp

section \<open>Rolling back the additions\<close>

lemma item_additions_absent:
  "dict_get E k = None \<Longrightarrow> item_additions E (k, v) = map (pre [k]) (collect_additions [] v [])"
  by (simp add: item_additions_def)

lemma collect_additions_items_as_items:
  "collect_additions_items [] r [] = concat (map (item_additions []) r)"
proof -
  have "item_additions [] = (\<lambda>kv. map (pre [fst kv]) (collect_additions [] (snd kv) []))"
    by (rule ext) (simp add: item_additions_def)
  then show ?thesis by (simp only: collect_additions_items_concat)
qed

lemma settle_items_empty_iff [simp]: "settle_items e r = [] \<longleftrightarrow> e = []"
  by (cases e) auto

lemma ra_item_absent:
  assumes wfv: "wf_value v"
    and ne: "no_empty_table v"
    and dT: "distinct (map fst T)"
    and Tk: "dict_get T k = Some v"
    and IH: "\<And>r s. v = Table r \<Longrightarrow> ra (collect_additions_items [] r []) r s = ([], s)"
  shows "ra (map (pre [k]) (collect_additions [] v [])) T s = (dict_del T k, s)"
proof (cases v)
  case (Scalar b)
  with Tk show ?thesis
    by (simp add: pre_def path_get_single py_eq_scalar_refl dict_contains_def)
next
  case (Table r)
  with ne have rne: "r \<noteq> []" by simp
  have paths: "\<forall>a \<in> set (collect_additions_items [] r []). entry_path a \<noteq> []"
    unfolding collect_additions_items_as_items by (rule concat_item_paths_nonempty(2))
  have "ra (map (pre [k]) (collect_additions_items [] r [])) T s =
     (if fst (ra (collect_additions_items [] r []) r s) = [] \<and> r \<noteq> [] then dict_del T k
      else dict_set T k (Table (fst (ra (collect_additions_items [] r []) r s))),
      snd (ra (collect_additions_items [] r []) r s))"
    using paths dT Tk[unfolded Table] by (rule ra_local)
  then show ?thesis
    by (simp add: Table IH[OF Table] rne)
qed

lemma ra_item:
  assumes ev: "dict_get E k = Some ev"
    and ne: "no_empty_table ev"
    and dT: "distinct (map fst T)"
    and Tk: "dict_get T k = Some (restore_value ev (Some v))"
    and IH: "\<And>e r s. v = Table r \<Longrightarrow> ev = Table e \<Longrightarrow>
          ra (concat (map (item_additions e) r)) (mid_dicts e r) s = (settle_items e r, s)"
  shows "ra (item_additions E (k, v)) T s = (dict_set T k (settle_value ev (Some v)), s)"
proof (cases v)
  case (Scalar b)
  with Tk show ?thesis
    by (cases ev) (simp_all add: item_additions_def ev dict_set_same)
next
  case (Table r)
  note v = this
  show ?thesis
  proof (cases ev)
    case (Scalar a)
    with v Tk show ?thesis
      by (simp add: item_additions_def ev dict_set_same)
  next
    case (Table e)
    with ne have ene: "e \<noteq> []" by simp
    from Tk have Tk': "dict_get T k = Some (Table (mid_dicts e r))"
      by (simp add: v Table mid_dicts_def)
    have "ra (item_additions E (k, v)) T s =
       (if fst (ra (concat (map (item_additions e) r)) (mid_dicts e r) s) = [] \<and> mid_dicts e r \<noteq> []
        then dict_del T k
        else dict_set T k (Table (fst (ra (concat (map (item_additions e) r)) (mid_dicts e r) s))),
        snd (ra (concat (map (item_additions e) r)) (mid_dicts e r) s))"
      unfolding v item_additions_tables[OF ev[unfolded Table]]
      using concat_item_paths_nonempty(2) dT Tk' by (rule ra_local)
    then show ?thesis
      by (simp add: IH[OF v Table] v Table ene)
  qed
qed

lemma ra_items:
  assumes "distinct (map fst rs)"
    and "\<forall>(k, v) \<in> set rs. wf_value v \<and> no_empty_table v"
    and "\<forall>k ev. dict_get E k = Some ev \<longrightarrow> no_empty_table ev"
    and "distinct (map fst T)"
    and "\<forall>(k, v) \<in> set rs. dict_get T k =
           Some (case dict_get E k of Some ev \<Rightarrow> restore_value ev (Some v) | None \<Rightarrow> v)"
    and "\<forall>(k, v) \<in> set rs. \<forall>e r s. v = Table r \<longrightarrow> dict_get E k = Some (Table e) \<longrightarrow>
           ra (concat (map (item_additions e) r)) (mid_dicts e r) s = (settle_items e r, s)"
    and "\<forall>(k, v) \<in> set rs. \<forall>r s. v = Table r \<longrightarrow>
           ra (collect_additions_items [] r []) r s = ([], s)"
  shows "\<exists>T'. ra (concat (map (item_additions E) rs)) T s = (T', s)
       \<and> distinct (map fst T')
       \<and> map fst T' = filter (\<lambda>k'. dict_get rs k' = None \<or> dict_get E k' \<noteq> None) (map fst T)
       \<and> (\<forall>k'. dict_get T' k' =
            (case dict_get rs k' of
               Some v \<Rightarrow>
                 (case dict_get E k' of
                    Some ev \<Rightarrow> Some (settle_value ev (Some v))
                  | None \<Rightarrow> None)
             | None \<Rightarrow> dict_get T k'))"
  using assms
proof (induction rs arbitrary: T)
  case Nil
  then show ?case by simp
next
  case (Cons x rs)
  obtain k v where x: "x = (k, v)" by (cases x)
  from Cons.prems(1) have dist: "distinct (map fst rs)" and fresh: "dict_get rs k = None"
    by (simp_all add: x dict_get_None_iff)
  from Cons.prems(2) have wfv: "wf_value v" and nev: "no_empty_table v"
    and wfs: "\<forall>(k, v) \<in> set rs. wf_value v \<and> no_empty_table v"
    by (simp_all add: x)
  note neE = Cons.prems(3)
  note dT = Cons.prems(4)
  from Cons.prems(6) have IHs: "\<forall>(k, v) \<in> set rs. \<forall>e r s. v = Table r \<longrightarrow>
      dict_get E k = Some (Table e) \<longrightarrow>
      ra (concat (map (item_additions e) r)) (mid_dicts e r) s = (settle_items e r, s)"
    by simp
  from Cons.prems(7) have IHl: "\<forall>(k, v) \<in> set rs. \<forall>r s. v = Table r \<longrightarrow>
      ra (collect_additions_items [] r []) r s = ([], s)"
    by simp
  have other: "k' \<noteq> k" if "(k', v') \<in> set rs" for k' v'
    using that Cons.prems(1) by (force simp: x)
  define T1 where "T1 =
    (case dict_get E k of Some ev \<Rightarrow> dict_set T k (settle_value ev (Some v)) | None \<Rightarrow> dict_del T k)"
  have Tk: "dict_get T k = Some (case dict_get E k of Some ev \<Rightarrow> restore_value ev (Some v) | None \<Rightarrow> v)"
    using Cons.prems(5) by (simp add: x)
  have item: "ra (item_additions E (k, v)) T s = (T1, s)"
  proof (cases "dict_get E k")
    case None
    have "ra (map (pre [k]) (collect_additions [] v [])) T s = (dict_del T k, s)"
    proof (rule ra_item_absent[OF wfv nev dT])
      show "dict_get T k = Some v" using Tk None by simp
    next
      fix r s assume "v = Table r"
      with Cons.prems(7) show "ra (collect_additions_items [] r []) r s = ([], s)"
        by (simp add: x)
    qed
    then show ?thesis by (simp add: item_additions_absent[OF None] T1_def None)
  next
    case (Some ev)
    have "ra (item_additions E (k, v)) T s = (dict_set T k (settle_value ev (Some v)), s)"
    proof (rule ra_item[OF Some _ dT])
      show "no_empty_table ev" using neE Some by blast
    next
      show "dict_get T k = Some (restore_value ev (Some v))" using Tk Some by simp
    next
      fix e r s assume "v = Table r" "ev = Table e"
      with Cons.prems(6) Some
      show "ra (concat (map (item_additions e) r)) (mid_dicts e r) s = (settle_items e r, s)"
        by (simp add: x)
    qed
    then show ?thesis by (simp add: T1_def Some)
  qed
  have get1: "dict_get T1 k' = dict_get T k'" if "k' \<noteq> k" for k'
    using that by (simp add: T1_def dict_get_set dict_get_del_other split: option.splits)
  have get1k: "dict_get T1 k =
      (case dict_get E k of Some ev \<Rightarrow> Some (settle_value ev (Some v)) | None \<Rightarrow> None)"
    using dT by (simp add: T1_def dict_get_set dict_get_del_same split: option.splits)
  have keys1: "map fst T1 = filter (\<lambda>k'. k' \<noteq> k \<or> dict_get E k \<noteq> None) (map fst T)"
  proof (cases "dict_get E k")
    case None
    then show ?thesis using dT by (simp add: T1_def keys_dict_del)
  next
    case (Some ev)
    then show ?thesis using Tk by (simp add: T1_def keys_dict_set)
  qed
  have dT1: "distinct (map fst T1)" unfolding keys1 using dT by simp
  have agree: "\<forall>(k, v) \<in> set rs. dict_get T1 k =
           Some (case dict_get E k of Some ev \<Rightarrow> restore_value ev (Some v) | None \<Rightarrow> v)"
    using Cons.prems(5) other by (auto simp: get1)
  from Cons.IH[OF dist wfs neE dT1 agree IHs IHl] obtain T' where T':
    "ra (concat (map (item_additions E) rs)) T1 s = (T', s)"
    "distinct (map fst T')"
    "map fst T' = filter (\<lambda>k'. dict_get rs k' = None \<or> dict_get E k' \<noteq> None) (map fst T1)"
    "\<And>k'. dict_get T' k' =
            (case dict_get rs k' of
               Some v \<Rightarrow>
                 (case dict_get E k' of
                    Some ev \<Rightarrow> Some (settle_value ev (Some v))
                  | None \<Rightarrow> None)
             | None \<Rightarrow> dict_get T1 k')"
    by blast
  have 1: "ra (concat (map (item_additions E) (x # rs))) T s = (T', s)"
    by (simp add: x ra_append item T'(1))
  have 3: "map fst T' =
      filter (\<lambda>k'. dict_get (x # rs) k' = None \<or> dict_get E k' \<noteq> None) (map fst T)"
    unfolding T'(3) keys1 filter_filter
    by (rule filter_cong) (auto simp: x fresh)
  have 4: "dict_get T' k' =
            (case dict_get (x # rs) k' of
               Some v \<Rightarrow>
                 (case dict_get E k' of
                    Some ev \<Rightarrow> Some (settle_value ev (Some v))
                  | None \<Rightarrow> None)
             | None \<Rightarrow> dict_get T k')" for k'
  proof (cases "k' = k")
    case True
    then show ?thesis using T'(4)[of k] fresh get1k by (simp add: x)
  next
    case False
    then show ?thesis using T'(4)[of k'] get1[OF False] by (simp add: x split: option.splits)
  qed
  from 1 T'(2) 3 4 show ?case by blast
qed

lemma no_empty_tables_iff: "no_empty_tables d \<longleftrightarrow> (\<forall>(k, v) \<in> set d. no_empty_table v)"
  by (induction d) auto

lemma no_empty_tables_get:
  "no_empty_tables d \<Longrightarrow> dict_get d k = Some v \<Longrightarrow> no_empty_table v"
  by (auto simp: no_empty_tables_iff dest: dict_get_Some_mem)

lemma ra_settles_aux:
  "wf_value v \<Longrightarrow>
     (\<forall>r. v = Table r \<longrightarrow> no_empty_tables r \<longrightarrow>
        (\<forall>s. ra (collect_additions_items [] r []) r s = ([], s)) \<and>
        (\<forall>e s. wf_dict e \<longrightarrow> no_empty_tables e \<longrightarrow>
           ra (concat (map (item_additions e) r)) (mid_dicts e r) s = (settle_items e r, s)))"
  "wf_dict rs \<Longrightarrow>
     (\<forall>(k, v) \<in> set rs. \<forall>r. v = Table r \<longrightarrow> no_empty_tables r \<longrightarrow>
        (\<forall>s. ra (collect_additions_items [] r []) r s = ([], s)) \<and>
        (\<forall>e s. wf_dict e \<longrightarrow> no_empty_tables e \<longrightarrow>
           ra (concat (map (item_additions e) r)) (mid_dicts e r) s = (settle_items e r, s)))"
proof (induction v and rs rule: wf_value_wf_dict.induct)
  case (1 s)
  show ?case by simp
next
  case (2 d)
  then have wd: "wf_dict d" by simp
  note IH = 2(1)[OF wd]
  have dd: "distinct (map fst d)" using wd by (rule wf_dict_distinct)
  show ?case
  proof (intro allI impI)
    fix r
    assume "Table d = Table r" and ner: "no_empty_tables r"
    then have rd: "r = d" by simp
    have ned: "no_empty_tables d" using ner rd by simp
    have a2: "\<forall>(k, v) \<in> set d. wf_value v \<and> no_empty_table v"
      using wd ned by (auto simp: wf_dict_iff no_empty_tables_iff)
    have IHl: "\<forall>(k, v) \<in> set d. \<forall>r s. v = Table r \<longrightarrow>
        ra (collect_additions_items [] r []) r s = ([], s)"
    proof (intro ballI, clarify)
      fix k r s assume m: "(k, Table r) \<in> set d"
      with a2 have "no_empty_tables r" by fastforce
      with IH m show "ra (collect_additions_items [] r []) r s = ([], s)" by blast
    qed
    have IHs: "\<forall>(k, v) \<in> set d. \<forall>e' r s. v = Table r \<longrightarrow> dict_get e k = Some (Table e') \<longrightarrow>
        ra (concat (map (item_additions e') r)) (mid_dicts e' r) s = (settle_items e' r, s)"
      if we: "wf_dict e" and nee: "no_empty_tables e" for e
    proof (intro ballI, clarify)
      fix k r e' s assume m: "(k, Table r) \<in> set d" and g: "dict_get e k = Some (Table e')"
      from m a2 have "no_empty_tables r" by fastforce
      moreover have "wf_dict e'" using we g by (rule wf_dict_child)
      moreover have "no_empty_tables e'" using no_empty_tables_get[OF nee g] by simp
      ultimately show "ra (concat (map (item_additions e') r)) (mid_dicts e' r) s =
          (settle_items e' r, s)"
        using IH m by blast
    qed
    have leaves: "ra (collect_additions_items [] r []) r s = ([], s)" for s
    proof -
      have a3: "\<forall>k ev. dict_get [] k = Some ev \<longrightarrow> no_empty_table ev" by simp
      have a5: "\<forall>(k, v) \<in> set d. dict_get d k =
           Some (case dict_get [] k of Some ev \<Rightarrow> restore_value ev (Some v) | None \<Rightarrow> v)"
        using dd by (auto simp: dict_get_mem)
      have a6: "\<forall>(k, v) \<in> set d. \<forall>e r s. v = Table r \<longrightarrow> dict_get [] k = Some (Table e) \<longrightarrow>
           ra (concat (map (item_additions e) r)) (mid_dicts e r) s = (settle_items e r, s)"
        by simp
      from ra_items[OF dd a2 a3 dd a5 a6 IHl, of s] obtain T' where T':
        "ra (concat (map (item_additions []) d)) d s = (T', s)"
        "map fst T' = filter (\<lambda>k'. dict_get d k' = None \<or> dict_get [] k' \<noteq> None) (map fst d)"
        by blast
      have "filter (\<lambda>k'. dict_get d k' = None \<or> dict_get [] k' \<noteq> None) (map fst d) = []"
        by (auto simp: filter_empty_conv dict_get_None_iff)
      with T'(2) have "T' = []" by simp
      with T'(1) show ?thesis by (simp add: rd collect_additions_items_as_items)
    qed
    have settles: "ra (concat (map (item_additions e) r)) (mid_dicts e r) s = (settle_items e r, s)"
      if we: "wf_dict e" and nee: "no_empty_tables e" for e s
    proof -
      have de: "distinct (map fst e)" using we by (rule wf_dict_distinct)
      have a3: "\<forall>k ev. dict_get e k = Some ev \<longrightarrow> no_empty_table ev"
        using nee no_empty_tables_get by blast
      have a4: "distinct (map fst (mid_dicts e d))"
        unfolding keys_mid_dicts using de dd by (rule distinct_keys_merge)
      have a5: "\<forall>(k, v) \<in> set d. dict_get (mid_dicts e d) k =
           Some (case dict_get e k of Some ev \<Rightarrow> restore_value ev (Some v) | None \<Rightarrow> v)"
        using dd by (auto simp: dict_get_mid_dicts dict_get_mem split: option.splits)
      from ra_items[OF dd a2 a3 a4 a5 IHs[OF we nee] IHl, of s] obtain T' where T':
        "ra (concat (map (item_additions e) d)) (mid_dicts e d) s = (T', s)"
        "distinct (map fst T')"
        "map fst T' =
           filter (\<lambda>k'. dict_get d k' = None \<or> dict_get e k' \<noteq> None) (map fst (mid_dicts e d))"
        "\<And>k'. dict_get T' k' =
            (case dict_get d k' of
               Some v \<Rightarrow>
                 (case dict_get e k' of
                    Some ev \<Rightarrow> Some (settle_value ev (Some v))
                  | None \<Rightarrow> None)
             | None \<Rightarrow> dict_get (mid_dicts e d) k')"
        by blast
      have k1: "filter (\<lambda>k'. dict_get d k' = None \<or> dict_get e k' \<noteq> None) (map fst e) = map fst e"
        by (rule filter_True) (auto simp: dict_get_None_iff)
      have k2: "filter (\<lambda>k'. dict_get d k' = None \<or> dict_get e k' \<noteq> None)
          (filter (\<lambda>k. dict_get e k = None) (map fst d)) = []"
        by (auto simp: filter_empty_conv dict_get_None_iff)
      have keys: "map fst T' = map fst (settle_items e d)"
        unfolding T'(3) keys_mid_dicts filter_append k1 k2 by simp
      have "dict_get T' k' = dict_get (settle_items e d) k'" for k'
        by (simp add: T'(4) dict_get_mid_dicts dict_get_settle_items split: option.splits)
      with T'(2) keys have "T' = settle_items e d" by (intro dict_ext) auto
      with T'(1) show ?thesis by (simp add: rd)
    qed
    from leaves settles
    show "(\<forall>s. ra (collect_additions_items [] r []) r s = ([], s)) \<and>
        (\<forall>e s. wf_dict e \<longrightarrow> no_empty_tables e \<longrightarrow>
           ra (concat (map (item_additions e) r)) (mid_dicts e r) s = (settle_items e r, s))"
      by blast
  qed
next
  case 3
  show ?case by simp
next
  case (4 k v rest)
  then show ?case by simp
qed

lemma ra_settles:
  "wf_dict e \<Longrightarrow> wf_dict r \<Longrightarrow> no_empty_tables e \<Longrightarrow> no_empty_tables r \<Longrightarrow>
   ra (concat (map (item_additions e) r)) (mid_dicts e r) s = (settle_items e r, s)"
  using ra_settles_aux(1)[of "Table r"] by simp

lemma rollback_install:
  assumes "wf_dict e" "wf_dict r" "no_empty_tables e" "no_empty_tables r"
  shows "rollback (concat (map (item_additions e) r)) (concat (map (item_overrides e) r))
           (merge_dicts e r) = Inr (settle_items e r, 0)"
  unfolding rollback_def
  by (simp add: rollback_overrides_eq[OF concat_item_paths_nonempty(1)]
      rollback_additions_eq[OF concat_item_paths_nonempty(2)]
      ro_restores[OF assms(1,2)] ra_settles[OF assms])

section \<open>The settled tree and the existing tree\<close>

lemma py_eq_scalar_sym:
  "py_eq_scalar a b \<Longrightarrow> py_eq_scalar b a"
  "py_eq_list xs ys \<Longrightarrow> py_eq_list ys xs"
  by (induction a b and xs ys rule: py_eq_scalar_py_eq_list.induct) auto

lemma tree_sim_refl:
  "tree_sim v v"
  "dict_sim d d"
  by (induction v and d rule: wf_value_wf_dict.induct) (simp_all add: py_eq_scalar_refl)

lemma tree_sim_settle:
  "tree_sim (settle_value ev rv) ev"
  "dict_sim (settle_items e r) e"
proof (induction ev and e arbitrary: rv and r rule: wf_value_wf_dict.induct)
  case (1 s)
  show ?case
  proof (cases rv)
    case None
    then show ?thesis by (simp add: py_eq_scalar_refl)
  next
    case (Some w)
    then show ?thesis
      by (cases w) (simp_all add: py_eq_scalar_refl py_eq_scalar_sym(1))
  qed
next
  case (2 d)
  show ?case
  proof (cases rv)
    case None
    then show ?thesis by (simp add: tree_sim_refl(2))
  next
    case (Some w)
    then show ?thesis
      by (cases w) (simp_all add: tree_sim_refl(2) 2)
  qed
next
  case 3
  show ?case by simp
next
  case (4 k v rest)
  then show ?case by simp
qed

section \<open>Similar trees are equal for Python, and identical when no leaf is merely equal\<close>

lemma py_eq_items_aligned:
  "list_all2 (\<lambda>x y. fst x = fst y \<and> py_eq (snd x) (snd y)) xs ys \<Longrightarrow>
   distinct (map fst e) \<Longrightarrow> set ys \<subseteq> set e \<Longrightarrow> py_eq_items xs e"
proof (induction xs ys rule: list_all2_induct)
  case Nil
  show ?case by simp
next
  case (Cons x xs y ys)
  obtain k v where x: "x = (k, v)" by (cases x)
  obtain k' w where y: "y = (k', w)" by (cases y)
  from Cons.hyps(1) have kk: "k' = k" and vw: "py_eq v w" by (simp_all add: x y)
  from Cons.prems have "dict_get e k = Some w"
    by (intro dict_get_mem) (simp_all add: y kk)
  with vw Cons show ?case by (simp add: x)
qed

lemma sim_imp_py_eq:
  "wf_value w \<Longrightarrow> tree_sim v w \<Longrightarrow> py_eq v w"
  "wf_dict e \<Longrightarrow> dict_sim d e \<Longrightarrow>
     list_all2 (\<lambda>x y. fst x = fst y \<and> py_eq (snd x) (snd y)) d e"
proof (induction w and e arbitrary: v and d rule: wf_value_wf_dict.induct)
  case (1 s)
  then show ?case by (cases v) simp_all
next
  case (2 e)
  from 2(3) obtain d where v: "v = Table d" and sim: "dict_sim d e" by (cases v) simp_all
  from 2(2) have we: "wf_dict e" by simp
  from 2(1)[OF we sim]
  have al: "list_all2 (\<lambda>x y. fst x = fst y \<and> py_eq (snd x) (snd y)) d e" .
  then have "length d = length e" by (rule list_all2_lengthD)
  moreover have "py_eq_items d e"
    using al wf_dict_distinct[OF we] by (rule py_eq_items_aligned) simp
  ultimately show ?case by (simp add: v)
next
  case 3
  then show ?case by (cases d) simp_all
next
  case (4 k w rest)
  from 4(4) obtain v d' where d: "d = (k, v) # d'" and sv: "tree_sim v w" and sd: "dict_sim d' rest"
    by (cases d) auto
  from 4(3) have ww: "wf_value w" and wr: "wf_dict rest" by simp_all
  from 4(1)[OF ww sv] 4(2)[OF wr sd] show ?case by (simp add: d)
qed

lemma dict_sim_imp_py_eq:
  "wf_dict e \<Longrightarrow> dict_sim d e \<Longrightarrow> py_eq (Table d) (Table e)"
  using sim_imp_py_eq(1)[of "Table e" "Table d"] by simp

lemma path_get_Cons_fresh:
  "dict_get rest k = None \<Longrightarrow> path_get rest p = Some (Scalar a) \<Longrightarrow>
   path_get ((k, ev) # rest) p = Some (Scalar a)"
proof (cases p)
  case Nil
  assume "path_get rest p = Some (Scalar a)"
  with Nil show ?thesis by simp
next
  case (Cons k' q)
  assume f: "dict_get rest k = None" and g: "path_get rest p = Some (Scalar a)"
  from g have "dict_get rest k' \<noteq> None"
    by (auto simp: Cons path_get_Cons split: option.splits)
  with f have "k' \<noteq> k" by auto
  with g show ?thesis by (simp add: Cons path_get_Cons)
qed

lemma settle_identity:
  "wf_value ev \<Longrightarrow>
     (\<forall>p a b rr. path_get_from ev p = Some (Scalar a) \<and> rv = Some rr
        \<and> path_get_from rr p = Some (Scalar b) \<and> py_eq_scalar a b \<longrightarrow> a = b) \<Longrightarrow>
     settle_value ev rv = ev"
  "wf_dict e \<Longrightarrow>
     (\<forall>p a b. path_get e p = Some (Scalar a) \<and> path_get r p = Some (Scalar b)
        \<and> py_eq_scalar a b \<longrightarrow> a = b) \<Longrightarrow>
     settle_items e r = e"
proof (induction ev and e arbitrary: rv and r rule: wf_value_wf_dict.induct)
  case (1 s)
  show ?case
  proof (cases rv)
    case None
    then show ?thesis by simp
  next
    case (Some rr)
    show ?thesis
    proof (cases rr)
      case (Scalar b)
      from 1(2)[rule_format, of "[]" s rr b] Some Scalar show ?thesis by auto
    next
      case (Table r)
      with Some show ?thesis by simp
    qed
  qed
next
  case (2 d)
  then have wd: "wf_dict d" by simp
  show ?case
  proof (cases rv)
    case None
    then show ?thesis by simp
  next
    case (Some rr)
    show ?thesis
    proof (cases rr)
      case (Scalar b)
      with Some show ?thesis by simp
    next
      case (Table r)
      have "\<forall>p a b. path_get d p = Some (Scalar a) \<and> path_get r p = Some (Scalar b)
        \<and> py_eq_scalar a b \<longrightarrow> a = b"
        using 2(3) Some Table by simp
      from 2(1)[OF wd this] show ?thesis by (simp add: Some Table)
    qed
  qed
next
  case 3
  show ?case by simp
next
  case (4 k v rest)
  from 4(3) have wv: "wf_value v" and wr: "wf_dict rest" and fresh: "dict_get rest k = None"
    by simp_all
  have hv: "\<forall>p a b rr. path_get_from v p = Some (Scalar a) \<and> dict_get r k = Some rr
        \<and> path_get_from rr p = Some (Scalar b) \<and> py_eq_scalar a b \<longrightarrow> a = b"
  proof (intro allI impI)
    fix p a b rr
    assume h: "path_get_from v p = Some (Scalar a) \<and> dict_get r k = Some rr
        \<and> path_get_from rr p = Some (Scalar b) \<and> py_eq_scalar a b"
    then have "path_get ((k, v) # rest) (k # p) = Some (Scalar a)"
      "path_get r (k # p) = Some (Scalar b)"
      by (simp_all add: path_get_Cons)
    with 4(4) h show "a = b" by blast
  qed
  have hr: "\<forall>p a b. path_get rest p = Some (Scalar a) \<and> path_get r p = Some (Scalar b)
        \<and> py_eq_scalar a b \<longrightarrow> a = b"
    using 4(4) path_get_Cons_fresh[OF fresh] by blast
  from 4(1)[OF wv hv] 4(2)[OF wr hr] show ?case by simp
qed

section \<open>The ledger that install writes\<close>

lemma install_state_lists:
  "additions (install_state (install r rt target)) =
     concat (map (item_additions (case target of Some (data, text) \<Rightarrow> data | None \<Rightarrow> [])) r)"
  "overrides (install_state (install r rt target)) =
     concat (map (item_overrides (case target of Some (data, text) \<Rightarrow> data | None \<Rightarrow> [])) r)"
  by (simp_all add: install_def install_changes_concat Let_def)

section \<open>Claims about remove\<close>

text \<open>
  C9.  \<^verbatim>\<open>remove\<close> returns 0 when the state file is missing, and then touches
  neither file; it returns 0 when the target document is missing, and then deletes the
  state file; and with both files present and a ledger whose paths are non-empty it runs
  the rollback to its end, returns 0 and deletes the state file whatever the number of
  skipped entries, which it only prints.
\<close>

theorem remove_non_fatal:
  "remove None target
     = Inr \<lparr>remove_status = 0, remove_target = Untouched, state_unlinked = False,
            printed = [State_file_not_found]\<rparr>
   \<and> remove (Some config_state) None
     = Inr \<lparr>remove_status = 0, remove_target = Untouched, state_unlinked = True,
            printed = [Config_file_missing]\<rparr>
   \<and> ((\<forall>e \<in> set (additions config_state). entry_path e \<noteq> [])
        \<and> (\<forall>e \<in> set (overrides config_state). entry_path e \<noteq> []) \<longrightarrow>
       (\<exists>data' skipped effect.
          rollback (additions config_state) (overrides config_state) data = Inr (data', skipped)
        \<and> remove (Some config_state) (Some data)
            = Inr \<lparr>remove_status = 0, remove_target = effect, state_unlinked = True,
                   printed = (if skipped \<noteq> 0 then [Preserved skipped] else [])\<rparr>))"
proof -
  have 1: "remove None target
     = Inr \<lparr>remove_status = 0, remove_target = Untouched, state_unlinked = False,
            printed = [State_file_not_found]\<rparr>"
    by (simp add: remove_def)
  have 2: "remove (Some config_state) None
     = Inr \<lparr>remove_status = 0, remove_target = Untouched, state_unlinked = True,
            printed = [Config_file_missing]\<rparr>"
    by (simp add: remove_def)
  have 3: "\<exists>data' skipped effect.
          rollback (additions config_state) (overrides config_state) data = Inr (data', skipped)
        \<and> remove (Some config_state) (Some data)
            = Inr \<lparr>remove_status = 0, remove_target = effect, state_unlinked = True,
                   printed = (if skipped \<noteq> 0 then [Preserved skipped] else [])\<rparr>"
    if a: "\<forall>e \<in> set (additions config_state). entry_path e \<noteq> []"
      and o: "\<forall>e \<in> set (overrides config_state). entry_path e \<noteq> []"
  proof -
    obtain d1 s1 where r1: "ro (overrides config_state) data 0 = (d1, s1)"
      by (cases "ro (overrides config_state) data 0")
    obtain d2 s2 where r2: "ra (additions config_state) d1 s1 = (d2, s2)"
      by (cases "ra (additions config_state) d1 s1")
    have rb: "rollback (additions config_state) (overrides config_state) data = Inr (d2, s2)"
      by (simp add: rollback_def rollback_overrides_eq[OF o] r1 rollback_additions_eq[OF a] r2)
    then show ?thesis
      by (simp add: remove_def)
  qed
  from 1 2 3 show ?thesis by blast
qed

theorem remove_non_fatal_witness:
  "entry_path \<lparr>entry_path = [''timeout''], entry_repo = Scalar (PInt 30)\<rparr> \<noteq> []
   \<and> rollback [\<lparr>entry_path = [''timeout''], entry_repo = Scalar (PInt 30)\<rparr>] []
        [(''timeout'', Scalar (PInt 60))] = Inr ([(''timeout'', Scalar (PInt 60))], 1)
   \<and> remove
        (Some \<lparr>had_config = True, existing_header = [],
           additions = [\<lparr>entry_path = [''timeout''], entry_repo = Scalar (PInt 30)\<rparr>],
           overrides = []\<rparr>)
        (Some [(''timeout'', Scalar (PInt 60))])
       = Inr \<lparr>remove_status = 0, remove_target = Written [(''timeout'', Scalar (PInt 60))] [],
              state_unlinked = True, printed = [Preserved 1]\<rparr>"
  using remove_non_fatal
    [of "None"
        "\<lparr>had_config = True, existing_header = [],
           additions = [\<lparr>entry_path = [''timeout''], entry_repo = Scalar (PInt 30)\<rparr>],
           overrides = []\<rparr>"
        "[(''timeout'', Scalar (PInt 60))]"]
  by (simp add: rollback_def path_get_Cons remove_def)

section \<open>An empty table that only the repo tree has\<close>

lemma path_get_from_append:
  "path_get_from v (p @ q) =
     (case path_get_from v p of Some w \<Rightarrow> path_get_from w q | None \<Rightarrow> None)"
proof (induction p arbitrary: v)
  case Nil
  show ?case by simp
next
  case (Cons k p)
  show ?case
  proof (cases v)
    case (Scalar s)
    then show ?thesis by (simp del: path_get_from_Table)
  next
    case (Table d)
    then show ?thesis
      by (cases "dict_get d k") (simp_all add: Cons.IH del: path_get_from_Table)
  qed
qed

lemma path_get_append:
  "path_get d (p @ q) = (case path_get d p of Some w \<Rightarrow> path_get_from w q | None \<Rightarrow> None)"
  unfolding path_get_def by (rule path_get_from_append)

lemma install_changes_sound:
  assumes "wf_dict rd" and "install_changes rd ed [] [] = (adds, ovs)"
  shows "\<forall>a \<in> set adds. path_get rd (entry_path a) = Some (entry_repo a)
            \<and> \<not> is_dict (entry_repo a) \<and> path_get ed (entry_path a) = None"
    and "\<forall>e \<in> set ovs. path_get rd (entry_path e) = Some (entry_repo e)
            \<and> path_get ed (entry_path e) = Some (entry_previous e)
            \<and> \<not> (is_dict (entry_repo e) \<and> is_dict (entry_previous e))"
    and "\<forall>a \<in> set adds. entry_path a \<noteq> []"
    and "\<forall>e \<in> set ovs. entry_path e \<noteq> []"
proof -
  from assms(2) have adds: "adds = concat (map (item_additions ed) rd)"
    and ovs: "ovs = concat (map (item_overrides ed) rd)"
    by (simp_all add: install_changes_concat)
  from changes_sound(2)[OF assms(1), of ed]
  show "\<forall>a \<in> set adds. path_get rd (entry_path a) = Some (entry_repo a)
            \<and> \<not> is_dict (entry_repo a) \<and> path_get ed (entry_path a) = None"
    and "\<forall>e \<in> set ovs. path_get rd (entry_path e) = Some (entry_repo e)
            \<and> path_get ed (entry_path e) = Some (entry_previous e)
            \<and> \<not> (is_dict (entry_repo e) \<and> is_dict (entry_previous e))"
    unfolding adds ovs addition_ok_def override_ok_def by simp_all
  show "\<forall>a \<in> set adds. entry_path a \<noteq> []" "\<forall>e \<in> set ovs. entry_path e \<noteq> []"
    unfolding adds ovs by (rule concat_item_paths_nonempty)+
qed

lemma ro_frame:
  "\<forall>e \<in> set es. entry_path e \<noteq> [] \<and> \<not> prefix (entry_path e) p \<and> \<not> prefix p (entry_path e) \<Longrightarrow>
   path_get (fst (ro es T s)) p = path_get T p"
  by (induction es T s rule: ro.induct) (auto simp: path_get_pset_other split: option.splits)

lemma ra_frame:
  "\<forall>e \<in> set es. \<not> prefix (entry_path e) p \<and> \<not> prefix p (entry_path e) \<Longrightarrow>
   path_get T p = Some w \<Longrightarrow> path_get (fst (ra es T s)) p = Some w"
proof (induction es T s rule: ra.induct)
  case (1 d s)
  then show ?case by simp
next
  case (2 e es d s)
  from "2.prems"(1) have inc: "\<not> prefix (entry_path e) p" "\<not> prefix p (entry_path e)"
    and rest: "\<forall>e \<in> set es. \<not> prefix (entry_path e) p \<and> \<not> prefix p (entry_path e)"
    by simp_all
  show ?case
  proof (cases "path_get d (entry_path e)")
    case None
    with "2.IH"(1)[OF None rest "2.prems"(2)] show ?thesis by simp
  next
    case (Some cur)
    show ?thesis
    proof (cases "py_eq cur (entry_repo e)")
      case True
      have "path_get (snd (path_delete_rec d (entry_path e))) p = Some w"
        using "2.prems"(2) inc by (rule path_delete_rec_other)
      with "2.IH"(2)[OF Some True rest] True Some show ?thesis by simp
    next
      case False
      with "2.IH"(3)[OF Some False rest "2.prems"(2)] Some show ?thesis by simp
    qed
  qed
qed

lemma path_get_from_empty_table:
  "path_get_from (Table []) q = (if q = [] then Some (Table []) else None)"
  by (cases q) (simp_all del: path_get_from_Table)

lemma path_get_from_nondict:
  "\<not> is_dict v \<Longrightarrow> q \<noteq> [] \<Longrightarrow> path_get_from v q = None"
  by (cases v; cases q) simp_all

text \<open>
  C10 as stated does not hold in its last part.  With \<^verbatim>\<open>a = 1\<close> in the existing tree
  and \<^verbatim>\<open>a = {b = {}}\<close> in the repo tree, the path \<^verbatim>\<open>a.b\<close> is absent from the existing
  tree, no entry is recorded for it, the merged tree holds the empty table there, and
  yet the rollback removes it: the override recorded for \<^verbatim>\<open>a\<close> puts the old value back.
\<close>

theorem repo_only_empty_table_counterexample:
  "path_get [(''a'', Table [(''b'', Table [])])] [''a'', ''b''] = Some (Table [])
   \<and> path_get [(''a'', Scalar (PInt 1))] [''a'', ''b''] = None
   \<and> install_changes [(''a'', Table [(''b'', Table [])])] [(''a'', Scalar (PInt 1))] [] []
       = ([], [\<lparr>entry_path = [''a''], entry_repo = Table [(''b'', Table [])],
                 entry_previous = Scalar (PInt 1)\<rparr>])
   \<and> path_get (merge_dicts [(''a'', Scalar (PInt 1))] [(''a'', Table [(''b'', Table [])])])
        [''a'', ''b''] = Some (Table [])
   \<and> rollback []
        [\<lparr>entry_path = [''a''], entry_repo = Table [(''b'', Table [])],
           entry_previous = Scalar (PInt 1)\<rparr>]
        (merge_dicts [(''a'', Scalar (PInt 1))] [(''a'', Table [(''b'', Table [])])])
       = Inr ([(''a'', Scalar (PInt 1))], 0)
   \<and> path_get [(''a'', Scalar (PInt 1))] [''a'', ''b''] = None"
  by (simp add: merge_dicts.simps dict_contains_def rollback_def path_get_Cons path_set_def)

text \<open>
  C10, amended.  If the repo tree holds an empty table at a path that is absent from
  the existing tree, then \<^verbatim>\<open>install\<close> records no addition and no override for that
  path or a path below it, and the merged tree holds the empty table at that path.  If
  moreover the existing tree holds no non-table value at a proper ancestor of the path,
  the rollback of that ledger on the merged tree leaves the empty table where it is.
\<close>

theorem repo_only_empty_table:
  assumes "wf_dict repo_data" and "wf_dict existing_data"
    and "path_get repo_data path = Some (Table [])"
    and "path_get existing_data path = None"
    and "install_changes repo_data existing_data [] [] = (adds, ovs)"
  shows "(\<forall>a \<in> set adds. \<not> prefix path (entry_path a))
       \<and> (\<forall>e \<in> set ovs. \<not> prefix path (entry_path e))
       \<and> path_get (merge_dicts existing_data repo_data) path = Some (Table [])
       \<and> ((\<forall>q s. strict_prefix q path \<longrightarrow> path_get existing_data q \<noteq> Some (Scalar s)) \<longrightarrow>
            (\<exists>data skipped.
               rollback adds ovs (merge_dicts existing_data repo_data) = Inr (data, skipped)
             \<and> path_get data path = Some (Table [])))"
proof -
  let ?M = "merge_dicts existing_data repo_data"
  note sound = install_changes_sound[OF assms(1,5)]
  have below: "path_get repo_data (path @ q) = (if q = [] then Some (Table []) else None)" for q
    by (simp add: path_get_append assms(3) path_get_Nil_dict)
  have 1: "\<not> prefix path (entry_path a)" if "a \<in> set adds" for a
  proof
    assume "prefix path (entry_path a)"
    then obtain q where q: "entry_path a = path @ q" by (auto simp: prefix_def)
    from sound(1) that have "path_get repo_data (entry_path a) = Some (entry_repo a)"
      "\<not> is_dict (entry_repo a)" by blast+
    then have "entry_repo a = Table [] \<or> False" "\<not> is_dict (entry_repo a)"
      unfolding q below by (cases "q = []"; simp)+
    then show False by auto
  qed
  have 2: "\<not> prefix path (entry_path e)" if "e \<in> set ovs" for e
  proof
    assume "prefix path (entry_path e)"
    then obtain q where q: "entry_path e = path @ q" by (auto simp: prefix_def)
    from sound(2) that have "path_get existing_data (entry_path e) = Some (entry_previous e)"
      by blast
    then show False unfolding q by (simp add: path_get_append assms(4))
  qed
  have 3: "path_get ?M path = Some (Table [])"
    using assms(2,1,3,4) by (rule path_get_merge_repo_only)
  have 4: "\<exists>data skipped. rollback adds ovs ?M = Inr (data, skipped)
             \<and> path_get data path = Some (Table [])"
    if noscalar: "\<forall>q s. strict_prefix q path \<longrightarrow> path_get existing_data q \<noteq> Some (Scalar s)"
  proof -
    have table_above: "is_dict v"
      if "path_get repo_data q = Some v" "strict_prefix q path" for q v
    proof (rule ccontr)
      assume nd: "\<not> is_dict v"
      from that(2) obtain r where r: "path = q @ r" "r \<noteq> []"
        by (auto simp: strict_prefix_def prefix_def)
      have "path_get repo_data path = None"
        unfolding r(1) by (simp add: path_get_append that(1) path_get_from_nondict[OF nd r(2)])
      with assms(3) show False by simp
    qed
    have a_inc: "\<not> prefix (entry_path a) path \<and> \<not> prefix path (entry_path a)"
      if m: "a \<in> set adds" for a
    proof -
      have "\<not> prefix (entry_path a) path"
      proof
        assume p: "prefix (entry_path a) path"
        from sound(1) m have g: "path_get repo_data (entry_path a) = Some (entry_repo a)"
          and nd: "\<not> is_dict (entry_repo a)" by blast+
        from 1[OF m] p have "strict_prefix (entry_path a) path"
          by (auto simp: strict_prefix_def)
        from table_above[OF g this] nd show False by simp
      qed
      with 1[OF m] show ?thesis by simp
    qed
    have o_inc: "entry_path e \<noteq> [] \<and> \<not> prefix (entry_path e) path \<and> \<not> prefix path (entry_path e)"
      if m: "e \<in> set ovs" for e
    proof -
      have "\<not> prefix (entry_path e) path"
      proof
        assume p: "prefix (entry_path e) path"
        from sound(2) m have g: "path_get repo_data (entry_path e) = Some (entry_repo e)"
          and ge: "path_get existing_data (entry_path e) = Some (entry_previous e)"
          and nb: "\<not> (is_dict (entry_repo e) \<and> is_dict (entry_previous e))" by blast+
        from 2[OF m] p have sp: "strict_prefix (entry_path e) path"
          by (auto simp: strict_prefix_def)
        from table_above[OF g sp] nb have "\<not> is_dict (entry_previous e)" by simp
        then obtain s where "entry_previous e = Scalar s" by (cases "entry_previous e") auto
        with ge noscalar sp show False by auto
      qed
      with 2[OF m] sound(4) m show ?thesis by simp
    qed
    obtain d1 s1 where r1: "ro ovs ?M 0 = (d1, s1)" by (cases "ro ovs ?M 0")
    obtain d2 s2 where r2: "ra adds d1 s1 = (d2, s2)" by (cases "ra adds d1 s1")
    have rb: "rollback adds ovs ?M = Inr (d2, s2)"
      by (simp add: rollback_def rollback_overrides_eq[OF sound(4)] r1
          rollback_additions_eq[OF sound(3)] r2)
    have "path_get d1 path = Some (Table [])"
      using ro_frame[of ovs path ?M 0] o_inc 3 by (simp add: r1)
    then have "path_get d2 path = Some (Table [])"
      using ra_frame[of adds path d1 "Table []" s1] a_inc by (simp add: r2)
    with rb show ?thesis by blast
  qed
  from 1 2 3 4 show ?thesis by blast
qed

theorem repo_only_empty_table_witness:
  "wf_dict [(''t'', Table [(''e'', Table []), (''y'', Scalar (PInt 2))])]
   \<and> wf_dict [(''t'', Table [(''x'', Scalar (PInt 1))])]
   \<and> path_get [(''t'', Table [(''e'', Table []), (''y'', Scalar (PInt 2))])] [''t'', ''e'']
       = Some (Table [])
   \<and> path_get [(''t'', Table [(''x'', Scalar (PInt 1))])] [''t'', ''e''] = None
   \<and> install_changes [(''t'', Table [(''e'', Table []), (''y'', Scalar (PInt 2))])]
        [(''t'', Table [(''x'', Scalar (PInt 1))])] [] []
       = ([\<lparr>entry_path = [''t'', ''y''], entry_repo = Scalar (PInt 2)\<rparr>], [])
   \<and> path_get [(''t'', Table [(''x'', Scalar (PInt 1))])] []
       = Some (Table [(''t'', Table [(''x'', Scalar (PInt 1))])])
   \<and> path_get [(''t'', Table [(''x'', Scalar (PInt 1))])] [''t'']
       = Some (Table [(''x'', Scalar (PInt 1))])
   \<and> (\<exists>data skipped.
         rollback [\<lparr>entry_path = [''t'', ''y''], entry_repo = Scalar (PInt 2)\<rparr>] []
           (merge_dicts [(''t'', Table [(''x'', Scalar (PInt 1))])]
              [(''t'', Table [(''e'', Table []), (''y'', Scalar (PInt 2))])])
           = Inr (data, skipped)
       \<and> path_get data [''t'', ''e''] = Some (Table []))"
proof -
  have p: "path_get [(''t'', Table [(''x'', Scalar (PInt 1))])] []
       = Some (Table [(''t'', Table [(''x'', Scalar (PInt 1))])])"
    "path_get [(''t'', Table [(''x'', Scalar (PInt 1))])] [''t'']
       = Some (Table [(''x'', Scalar (PInt 1))])"
    by (simp_all add: path_get_Cons)
  have h: "\<forall>q s. strict_prefix q [''t'', ''e''] \<longrightarrow>
         path_get [(''t'', Table [(''x'', Scalar (PInt 1))])] q \<noteq> Some (Scalar s)"
  proof (intro allI impI)
    fix q :: "string list" and s
    assume "strict_prefix q [''t'', ''e'']"
    then have "q = [] \<or> q = [''t'']"
      by (cases q; cases "tl q") (auto simp: strict_prefix_def)
    then show "path_get [(''t'', Table [(''x'', Scalar (PInt 1))])] q \<noteq> Some (Scalar s)"
      using p by auto
  qed
  have i: "install_changes [(''t'', Table [(''e'', Table []), (''y'', Scalar (PInt 2))])]
        [(''t'', Table [(''x'', Scalar (PInt 1))])] [] []
       = ([\<lparr>entry_path = [''t'', ''y''], entry_repo = Scalar (PInt 2)\<rparr>], [])"
    by simp
  have g: "path_get [(''t'', Table [(''e'', Table []), (''y'', Scalar (PInt 2))])] [''t'', ''e'']
       = Some (Table [])"
    "path_get [(''t'', Table [(''x'', Scalar (PInt 1))])] [''t'', ''e''] = None"
    by (simp_all add: path_get_Cons)
  have w: "wf_dict [(''t'', Table [(''e'', Table []), (''y'', Scalar (PInt 2))])]"
    "wf_dict [(''t'', Table [(''x'', Scalar (PInt 1))])]"
    by simp_all
  from repo_only_empty_table[OF w g i] h
  have "\<exists>data skipped.
         rollback [\<lparr>entry_path = [''t'', ''y''], entry_repo = Scalar (PInt 2)\<rparr>] []
           (merge_dicts [(''t'', Table [(''x'', Scalar (PInt 1))])]
              [(''t'', Table [(''e'', Table []), (''y'', Scalar (PInt 2))])])
           = Inr (data, skipped)
       \<and> path_get data [''t'', ''e''] = Some (Table [])"
    by blast
  with w g i p show ?thesis by blast
qed

section \<open>Claims about the header lines\<close>

lemma extract_header_eq:
  "extract_header ls =
     filter (\<lambda>line. strip line \<noteq> [])
       (takeWhile (\<lambda>line. strip line = [] \<or> take 1 (strip line) = ''#'') ls)"
  by (induction ls) (auto simp: Let_def)

lemma prefix_emit_scalars: "prefix lines (emit_scalars table lines)"
proof (induction table lines rule: emit_scalars.induct)
  case (1 lines)
  show ?case by simp
next
  case (2 key t rest lines)
  then show ?case by simp
next
  case (3 key v rest lines)
  have "prefix lines (lines @ [format_key key @ '' = '' @ format_value v])" by simp
  with 3 show ?case using prefix_order.order_trans by fastforce
qed

lemma prefix_emit_table:
  "prefix lines (emit_table path table lines)"
  "prefix lines (emit_subtables path table lines)"
proof (induction path table lines and path table lines rule: emit_table_emit_subtables.induct)
  case (1 path table lines)
  let ?l1 = "if path \<noteq> [] then lines @ [''['' @ join ''.'' (map format_key path) @ '']''] else lines"
  have "prefix lines ?l1" by simp
  also have "prefix ?l1 (emit_scalars table ?l1)" by (rule prefix_emit_scalars)
  also have "prefix (emit_scalars table ?l1) (emit_subtables path table (emit_scalars table ?l1))"
    by (rule 1)
  finally show ?case by simp
next
  case (2 path lines)
  show ?case by simp
next
  case (3 path key v rest lines)
  then show ?case by simp
next
  case (4 path key t rest lines)
  let ?l1 = "if lines \<noteq> [] \<and> last lines \<noteq> [] then lines @ [[]] else lines"
  have "prefix lines ?l1" by simp
  also have "prefix ?l1 (emit_table (path @ [key]) t ?l1)" by (rule 4(1))
  also have "prefix (emit_table (path @ [key]) t ?l1)
      (emit_subtables path rest (emit_table (path @ [key]) t ?l1))"
    by (rule 4(2))
  finally show ?case by simp
qed

lemma prefix_dump_toml_lines: "prefix header (dump_toml_lines data header)"
proof -
  let ?l = "if header \<noteq> [] then header @ [[]] else []"
  have "prefix header ?l" by simp
  also have "prefix ?l (emit_table [] data ?l)" by (rule prefix_emit_table(1))
  finally show ?thesis by (simp add: dump_toml_lines_def)
qed

text \<open>
  C8 as stated does not hold.  The blank lines of the leading run are not header lines:
  from the text with the lines \<open>(empty)\<close>, \<^verbatim>\<open># c\<close>, \<^verbatim>\<open>x = 1\<close> the header is the one
  line \<^verbatim>\<open># c\<close>.  And \<^verbatim>\<open>install\<close> and \<^verbatim>\<open>remove\<close> do not emit the same header: with
  the repo header \<^verbatim>\<open># repo\<close> and the target header \<^verbatim>\<open># mine\<close>, \<^verbatim>\<open>install\<close> writes
  the merged document under \<^verbatim>\<open># repo\<close> and \<^verbatim>\<open>remove\<close> writes the rolled-back document
  under \<^verbatim>\<open># mine\<close>.
\<close>

theorem header_lines_counterexample:
  "extract_header ['''', ''# c'', ''x = 1''] = [''# c'']
   \<and> install_target
        (install [(''mode'', Scalar (PStr ''auto''))] [''# repo'']
           (Some ([(''mode'', Scalar (PStr ''manual''))], [''# mine'', ''mode = 1''])))
       = Written [(''mode'', Scalar (PStr ''auto''))] [''# repo'']
   \<and> remove
        (Some (install_state
           (install [(''mode'', Scalar (PStr ''auto''))] [''# repo'']
              (Some ([(''mode'', Scalar (PStr ''manual''))], [''# mine'', ''mode = 1'']))))) 
        (Some [(''mode'', Scalar (PStr ''auto''))])
       = Inr \<lparr>remove_status = 0,
              remove_target = Written [(''mode'', Scalar (PStr ''manual''))] [''# mine''],
              state_unlinked = True, printed = []\<rparr>
   \<and> dump_toml_lines [(''mode'', Scalar (PStr ''auto''))] [''# repo'']
       = [''# repo'', [], [CHR ''m'', CHR ''o'', CHR ''d'', CHR ''e'', CHR '' '', CHR ''='', CHR '' '',
            CHR 0x22, CHR ''a'', CHR ''u'', CHR ''t'', CHR ''o'', CHR 0x22]]
   \<and> dump_toml_lines [(''mode'', Scalar (PStr ''manual''))] [''# mine'']
       = [''# mine'', [], [CHR ''m'', CHR ''o'', CHR ''d'', CHR ''e'', CHR '' '', CHR ''='', CHR '' '',
            CHR 0x22, CHR ''m'', CHR ''a'', CHR ''n'', CHR ''u'', CHR ''a'', CHR ''l'', CHR 0x22]]"
  by code_simp

text \<open>
  C8, amended.  The header lines of a text are the comment lines among its leading run
  of blank and comment lines; the blank lines of the run are dropped.  \<^verbatim>\<open>install\<close>
  writes the merged document under the header of the repo text if that is non-empty and
  otherwise under the header of the text of the target that existed, and records the
  latter header in the ledger.  \<^verbatim>\<open>remove\<close>, when it writes the target, writes it under
  the header recorded in the ledger.  The lines of a written document begin with its
  header lines, unchanged.
\<close>

theorem header_lines:
  "extract_header text =
     filter (\<lambda>line. strip line \<noteq> [])
       (takeWhile (\<lambda>line. strip line = [] \<or> take 1 (strip line) = ''#'') text)
   \<and> (\<exists>merged. install_target (install repo_data repo_text target) =
         Written merged
           (if extract_header repo_text \<noteq> [] then extract_header repo_text
            else (case target of Some (existing_data, existing_text) \<Rightarrow> extract_header existing_text
                  | None \<Rightarrow> [])))
   \<and> existing_header (install_state (install repo_data repo_text target)) =
        (case target of Some (existing_data, existing_text) \<Rightarrow> extract_header existing_text
         | None \<Rightarrow> [])
   \<and> (\<forall>result d h. remove (Some config_state) (Some data) = Inr result
         \<and> remove_target result = Written d h \<longrightarrow> h = existing_header config_state)
   \<and> prefix header (dump_toml_lines data' header)"
proof -
  have 2: "\<exists>merged. install_target (install repo_data repo_text target) =
         Written merged
           (if extract_header repo_text \<noteq> [] then extract_header repo_text
            else (case target of Some (existing_data, existing_text) \<Rightarrow> extract_header existing_text
                  | None \<Rightarrow> []))"
    by (simp add: install_def Let_def split: prod.splits)
  have 3: "existing_header (install_state (install repo_data repo_text target)) =
        (case target of Some (existing_data, existing_text) \<Rightarrow> extract_header existing_text
         | None \<Rightarrow> [])"
    by (simp add: install_def Let_def split: prod.splits)
  have 4: "\<forall>result d h. remove (Some config_state) (Some data) = Inr result
         \<and> remove_target result = Written d h \<longrightarrow> h = existing_header config_state"
    by (auto simp: remove_def split: sum.splits prod.splits if_splits)
  from extract_header_eq 2 3 4 prefix_dump_toml_lines show ?thesis by blast
qed

theorem header_lines_witness:
  "remove (Some \<lparr>had_config = True, existing_header = [''# mine''], additions = [],
                  overrides = []\<rparr>) (Some [(''mode'', Scalar (PStr ''manual''))])
     = Inr \<lparr>remove_status = 0,
            remove_target = Written [(''mode'', Scalar (PStr ''manual''))] [''# mine''],
            state_unlinked = True, printed = []\<rparr>
   \<and> remove_target \<lparr>remove_status = 0,
            remove_target = Written [(''mode'', Scalar (PStr ''manual''))] [''# mine''],
            state_unlinked = True, printed = []\<rparr>
       = Written [(''mode'', Scalar (PStr ''manual''))] [''# mine'']
   \<and> [''# mine''] = existing_header \<lparr>had_config = True, existing_header = [''# mine''],
        additions = [], overrides = []\<rparr>
   \<and> extract_header ['''', ''# c'', ''x = 1''] = [''# c'']"
  using header_lines
    [of "['''', ''# c'', ''x = 1'']" "[]" "[]" None
        "\<lparr>had_config = True, existing_header = [''# mine''], additions = [], overrides = []\<rparr>"
        "[(''mode'', Scalar (PStr ''manual''))]" "[]" "[]"]
  by (simp add: remove_def rollback_def strip_def is_space_def)

section \<open>Applying the ledger to the existing tree\<close>

lemma spec_apply_entries_eq:
  "\<forall>e \<in> set es. entry_path e \<noteq> [] \<Longrightarrow> spec_apply_entries es d = Inr (ap es d)"
  by (induction es arbitrary: d) (simp_all add: path_set_eq)

lemma ap_append: "ap (xs @ ys) d = ap ys (ap xs d)"
  by (induction xs arbitrary: d) simp_all

lemma ap_local:
  "\<forall>e \<in> set es. entry_path e \<noteq> [] \<Longrightarrow> dict_get T k = Some (Table c) \<Longrightarrow>
   ap (map (pre [k]) es) T = dict_set T k (Table (ap es c))"
proof (induction es arbitrary: T c)
  case Nil
  then show ?case by (simp add: dict_set_same)
next
  case (Cons e es)
  from Cons.prems(1) have p: "entry_path e \<noteq> []" and rest: "\<forall>e \<in> set es. entry_path e \<noteq> []"
    by simp_all
  let ?c = "pset c (entry_path e) (entry_repo e)"
  let ?T = "dict_set T k (Table ?c)"
  have set: "pset T (k # entry_path e) (entry_repo e) = ?T"
    using Cons.prems(2) by (simp add: pset_Cons[OF p])
  have "dict_get ?T k = Some (Table ?c)" by (simp add: dict_get_set)
  from Cons.IH[OF rest this] show ?case
    by (simp add: set dict_set_set)
qed

lemma child_table_absent [simp]: "dict_get T k = None \<Longrightarrow> child_table T k = []"
  by (simp add: child_table_def)

lemma ap_local_absent:
  assumes "\<forall>e \<in> set es. entry_path e \<noteq> []" and "es \<noteq> []" and "dict_get T k = None"
  shows "ap (map (pre [k]) es) T = T @ [(k, Table (ap es []))]"
proof -
  from assms(2) obtain e es' where es: "es = e # es'" by (cases es) auto
  from assms(1) have p: "entry_path e \<noteq> []" and rest: "\<forall>e \<in> set es'. entry_path e \<noteq> []"
    by (simp_all add: es)
  let ?c = "pset [] (entry_path e) (entry_repo e)"
  let ?T = "dict_set T k (Table ?c)"
  have set: "pset T (k # entry_path e) (entry_repo e) = ?T"
    using assms(3) by (simp add: pset_Cons[OF p])
  have "dict_get ?T k = Some (Table ?c)" by (simp add: dict_get_set)
  from ap_local[OF rest this]
  have "ap (map (pre [k]) es') ?T = dict_set T k (Table (ap es' ?c))"
    by (simp add: dict_set_set)
  then show ?thesis
    by (simp add: es set dict_set_fresh[OF assms(3)])
qed

lemma collect_additions_nonempty:
  "no_empty_table v \<Longrightarrow> collect_additions [] v [] \<noteq> []"
  "no_empty_tables d \<Longrightarrow> d \<noteq> [] \<Longrightarrow> collect_additions_items [] d [] \<noteq> []"
proof (induction v and d rule: wf_value_wf_dict.induct)
  case (1 s)
  show ?case by simp
next
  case (2 d)
  then show ?case by simp
next
  case 3
  then show ?case by simp
next
  case (4 k v rest)
  then have "collect_additions [] v [] \<noteq> []" by simp
  then show ?case unfolding collect_additions_items_concat by simp
qed

lemma keys_grow_items [simp]: "map fst (grow_items e r) = map fst e"
  by (induction e) auto

lemma keys_applied_items [simp]: "map fst (applied_items e r) = map fst e"
  by (induction e) auto

lemma dict_get_grow_items:
  "dict_get (grow_items e r) k = map_option (\<lambda>ev. grow_value ev (dict_get r k)) (dict_get e k)"
  by (induction e) auto

lemma dict_get_applied_items:
  "dict_get (applied_items e r) k = map_option (\<lambda>ev. applied_value ev (dict_get r k)) (dict_get e k)"
  by (induction e) auto

lemma keys_grow_dicts:
  "map fst (grow_dicts e r) = map fst e @ filter (\<lambda>k. dict_get e k = None) (map fst r)"
  by (simp add: grow_dicts_def keys_filter_absent)

lemma keys_applied_dicts:
  "map fst (applied_dicts e r) = map fst e @ filter (\<lambda>k. dict_get e k = None) (map fst r)"
  by (simp add: applied_dicts_def keys_filter_absent)

lemma dict_get_grow_dicts:
  "dict_get (grow_dicts e r) k =
     (case dict_get e k of
        Some ev \<Rightarrow> Some (grow_value ev (dict_get r k))
      | None \<Rightarrow> dict_get r k)"
  by (simp add: grow_dicts_def dict_get_append dict_get_grow_items dict_get_filter_absent
      split: option.splits)

lemma dict_get_applied_dicts:
  "dict_get (applied_dicts e r) k =
     (case dict_get e k of
        Some ev \<Rightarrow> Some (applied_value ev (dict_get r k))
      | None \<Rightarrow> dict_get r k)"
  by (simp add: applied_dicts_def dict_get_append dict_get_applied_items dict_get_filter_absent
      split: option.splits)

lemma ap_item_absent:
  assumes ne: "no_empty_table v"
    and Tk: "dict_get T k = None"
    and IH: "\<And>r. v = Table r \<Longrightarrow> ap (collect_additions_items [] r []) [] = r"
  shows "ap (map (pre [k]) (collect_additions [] v [])) T = T @ [(k, v)]"
proof (cases v)
  case (Scalar b)
  then show ?thesis by (simp add: pre_def dict_set_fresh[OF Tk])
next
  case (Table r)
  with ne have rne: "r \<noteq> []" and ner: "no_empty_tables r" by simp_all
  have paths: "\<forall>a \<in> set (collect_additions_items [] r []). entry_path a \<noteq> []"
    unfolding collect_additions_items_as_items by (rule concat_item_paths_nonempty(2))
  have "ap (map (pre [k]) (collect_additions_items [] r [])) T =
      T @ [(k, Table (ap (collect_additions_items [] r []) []))]"
    using paths collect_additions_nonempty(2)[OF ner rne] Tk by (rule ap_local_absent)
  then show ?thesis by (simp add: Table IH[OF Table])
qed

lemma ap_item_additions:
  assumes ev: "dict_get E k = Some ev"
    and Tk: "dict_get T k = Some ev"
    and IH: "\<And>e r. v = Table r \<Longrightarrow> ev = Table e \<Longrightarrow>
          ap (concat (map (item_additions e) r)) e = grow_dicts e r"
  shows "ap (item_additions E (k, v)) T = dict_set T k (grow_value ev (Some v))"
proof (cases v)
  case (Scalar b)
  with Tk show ?thesis
    by (cases ev) (simp_all add: item_additions_def ev dict_set_same)
next
  case (Table r)
  note v = this
  show ?thesis
  proof (cases ev)
    case (Scalar a)
    with v Tk show ?thesis
      by (simp add: item_additions_def ev dict_set_same)
  next
    case (Table e)
    have "ap (item_additions E (k, v)) T =
        dict_set T k (Table (ap (concat (map (item_additions e) r)) e))"
      unfolding v item_additions_tables[OF ev[unfolded Table]]
      using concat_item_paths_nonempty(2) Tk[unfolded Table] by (rule ap_local)
    then show ?thesis
      by (simp add: IH[OF v Table] v Table grow_dicts_def)
  qed
qed

lemma ap_additions_items:
  assumes "distinct (map fst rs)"
    and "\<forall>(k, v) \<in> set rs. no_empty_table v"
    and "\<forall>(k, v) \<in> set rs. dict_get T k = dict_get E k"
    and "\<forall>(k, v) \<in> set rs. \<forall>e r. v = Table r \<longrightarrow> dict_get E k = Some (Table e) \<longrightarrow>
           ap (concat (map (item_additions e) r)) e = grow_dicts e r"
    and "\<forall>(k, v) \<in> set rs. \<forall>r. v = Table r \<longrightarrow> ap (collect_additions_items [] r []) [] = r"
  shows "map fst (ap (concat (map (item_additions E) rs)) T) =
           map fst T @ filter (\<lambda>k. dict_get E k = None) (map fst rs)
       \<and> (\<forall>k'. dict_get (ap (concat (map (item_additions E) rs)) T) k' =
            (case dict_get rs k' of
               Some v \<Rightarrow>
                 (case dict_get E k' of
                    Some ev \<Rightarrow> Some (grow_value ev (Some v))
                  | None \<Rightarrow> Some v)
             | None \<Rightarrow> dict_get T k'))"
  using assms
proof (induction rs arbitrary: T)
  case Nil
  show ?case by simp
next
  case (Cons x rs)
  obtain k v where x: "x = (k, v)" by (cases x)
  from Cons.prems(1) have dist: "distinct (map fst rs)" and fresh: "dict_get rs k = None"
    by (simp_all add: x dict_get_None_iff)
  from Cons.prems(2) have nev: "no_empty_table v" and nes: "\<forall>(k, v) \<in> set rs. no_empty_table v"
    by (simp_all add: x)
  from Cons.prems(4) have IHs: "\<forall>(k, v) \<in> set rs. \<forall>e r. v = Table r \<longrightarrow>
      dict_get E k = Some (Table e) \<longrightarrow> ap (concat (map (item_additions e) r)) e = grow_dicts e r"
    by simp
  from Cons.prems(5) have IHl: "\<forall>(k, v) \<in> set rs. \<forall>r. v = Table r \<longrightarrow>
      ap (collect_additions_items [] r []) [] = r"
    by simp
  have other: "k' \<noteq> k" if "(k', v') \<in> set rs" for k' v'
    using that Cons.prems(1) by (force simp: x)
  from Cons.prems(3) have Tk: "dict_get T k = dict_get E k" by (simp add: x)
  define T1 where "T1 =
    (case dict_get E k of Some ev \<Rightarrow> dict_set T k (grow_value ev (Some v)) | None \<Rightarrow> T @ [(k, v)])"
  have item: "ap (item_additions E (k, v)) T = T1"
  proof (cases "dict_get E k")
    case None
    have "ap (map (pre [k]) (collect_additions [] v [])) T = T @ [(k, v)]"
    proof (rule ap_item_absent[OF nev])
      show "dict_get T k = None" using Tk None by simp
    next
      fix r assume "v = Table r"
      with Cons.prems(5) show "ap (collect_additions_items [] r []) [] = r" by (simp add: x)
    qed
    then show ?thesis by (simp add: item_additions_absent[OF None] T1_def None)
  next
    case (Some ev)
    have "ap (item_additions E (k, v)) T = dict_set T k (grow_value ev (Some v))"
    proof (rule ap_item_additions[OF Some])
      show "dict_get T k = Some ev" using Tk Some by simp
    next
      fix e r assume "v = Table r" "ev = Table e"
      with Cons.prems(4) Some show "ap (concat (map (item_additions e) r)) e = grow_dicts e r"
        by (simp add: x)
    qed
    then show ?thesis by (simp add: T1_def Some)
  qed
  have get1: "dict_get T1 k' = dict_get T k'" if "k' \<noteq> k" for k'
    using that by (simp add: T1_def dict_get_set dict_get_append split: option.splits)
  have get1k: "dict_get T1 k =
      (case dict_get E k of Some ev \<Rightarrow> Some (grow_value ev (Some v)) | None \<Rightarrow> Some v)"
    using Tk by (simp add: T1_def dict_get_set dict_get_append split: option.splits)
  have keys1: "map fst T1 = map fst T @ (if dict_get E k = None then [k] else [])"
    using Tk by (auto simp: T1_def keys_dict_set split: option.splits)
  have agree: "\<forall>(k, v) \<in> set rs. dict_get T1 k = dict_get E k"
    using Cons.prems(3) other by (auto simp: get1)
  note IH = Cons.IH[OF dist nes agree IHs IHl]
  have step: "ap (concat (map (item_additions E) (x # rs))) T =
      ap (concat (map (item_additions E) rs)) T1"
    by (simp add: x ap_append item)
  have 1: "map fst (ap (concat (map (item_additions E) (x # rs))) T) =
      map fst T @ filter (\<lambda>k. dict_get E k = None) (map fst (x # rs))"
    unfolding step using IH keys1 by (simp add: x)
  have 2: "dict_get (ap (concat (map (item_additions E) (x # rs))) T) k' =
            (case dict_get (x # rs) k' of
               Some v \<Rightarrow>
                 (case dict_get E k' of
                    Some ev \<Rightarrow> Some (grow_value ev (Some v))
                  | None \<Rightarrow> Some v)
             | None \<Rightarrow> dict_get T k')" for k'
  proof (cases "k' = k")
    case True
    then show ?thesis unfolding step using IH fresh get1k by (simp add: x)
  next
    case False
    then show ?thesis unfolding step using IH get1[OF False]
      by (simp add: x split: option.splits)
  qed
  from 1 2 show ?case by blast
qed

lemma ap_additions_aux:
  "wf_value v \<Longrightarrow>
     (\<forall>r. v = Table r \<longrightarrow> no_empty_tables r \<longrightarrow>
        ap (collect_additions_items [] r []) [] = r \<and>
        (\<forall>e. wf_dict e \<longrightarrow> ap (concat (map (item_additions e) r)) e = grow_dicts e r))"
  "wf_dict rs \<Longrightarrow>
     (\<forall>(k, v) \<in> set rs. \<forall>r. v = Table r \<longrightarrow> no_empty_tables r \<longrightarrow>
        ap (collect_additions_items [] r []) [] = r \<and>
        (\<forall>e. wf_dict e \<longrightarrow> ap (concat (map (item_additions e) r)) e = grow_dicts e r))"
proof (induction v and rs rule: wf_value_wf_dict.induct)
  case (1 s)
  show ?case by simp
next
  case (2 d)
  then have wd: "wf_dict d" by simp
  note IH = 2(1)[OF wd]
  have dd: "distinct (map fst d)" using wd by (rule wf_dict_distinct)
  show ?case
  proof (intro allI impI)
    fix r
    assume "Table d = Table r" and ner: "no_empty_tables r"
    then have rd: "r = d" by simp
    have a2: "\<forall>(k, v) \<in> set d. no_empty_table v"
      using ner rd by (simp add: no_empty_tables_iff)
    have IHl: "\<forall>(k, v) \<in> set d. \<forall>r. v = Table r \<longrightarrow> ap (collect_additions_items [] r []) [] = r"
    proof (intro ballI, clarify)
      fix k r assume m: "(k, Table r) \<in> set d"
      with a2 have "no_empty_tables r" by fastforce
      with IH m show "ap (collect_additions_items [] r []) [] = r" by blast
    qed
    have IHs: "\<forall>(k, v) \<in> set d. \<forall>e' r. v = Table r \<longrightarrow> dict_get e k = Some (Table e') \<longrightarrow>
        ap (concat (map (item_additions e') r)) e' = grow_dicts e' r"
      if we: "wf_dict e" for e
    proof (intro ballI, clarify)
      fix k r e' assume m: "(k, Table r) \<in> set d" and g: "dict_get e k = Some (Table e')"
      from m a2 have "no_empty_tables r" by fastforce
      moreover have "wf_dict e'" using we g by (rule wf_dict_child)
      ultimately show "ap (concat (map (item_additions e') r)) e' = grow_dicts e' r"
        using IH m by blast
    qed
    have leaves: "ap (collect_additions_items [] r []) [] = r"
    proof -
      have a3: "\<forall>(k, v) \<in> set d. dict_get [] k = dict_get [] k" by simp
      have a4: "\<forall>(k, v) \<in> set d. \<forall>e r. v = Table r \<longrightarrow> dict_get [] k = Some (Table e) \<longrightarrow>
           ap (concat (map (item_additions e) r)) e = grow_dicts e r"
        by simp
      let ?T = "ap (concat (map (item_additions []) d)) []"
      note both = ap_additions_items[OF dd a2 a3 a4 IHl]
      from both have keys: "map fst ?T = map fst d" by simp
      have "dict_get ?T k' = dict_get d k'" for k'
        using both[THEN conjunct2, rule_format, of k'] by (simp split: option.splits)
      with keys dd have "?T = d" by (intro dict_ext) simp_all
      then show ?thesis by (simp add: rd collect_additions_items_as_items)
    qed
    have grows: "ap (concat (map (item_additions e) r)) e = grow_dicts e r"
      if we: "wf_dict e" for e
    proof -
      have de: "distinct (map fst e)" using we by (rule wf_dict_distinct)
      have a3: "\<forall>(k, v) \<in> set d. dict_get e k = dict_get e k" by simp
      let ?T = "ap (concat (map (item_additions e) d)) e"
      note both = ap_additions_items[OF dd a2 a3 IHs[OF we] IHl]
      from both
      have keys: "map fst ?T = map fst e @ filter (\<lambda>k. dict_get e k = None) (map fst d)"
        by blast
      have get: "dict_get ?T k' =
            (case dict_get d k' of
               Some v \<Rightarrow>
                 (case dict_get e k' of
                    Some ev \<Rightarrow> Some (grow_value ev (Some v))
                  | None \<Rightarrow> Some v)
             | None \<Rightarrow> dict_get e k')" for k'
        using both[THEN conjunct2, rule_format, of k'] .
      have k: "map fst ?T = map fst (grow_dicts e d)"
        by (simp add: keys keys_grow_dicts)
      have dT: "distinct (map fst ?T)"
        unfolding keys using de dd by (rule distinct_keys_merge)
      have "dict_get ?T k' = dict_get (grow_dicts e d) k'" for k'
        by (simp add: get dict_get_grow_dicts split: option.splits)
      with dT k have "?T = grow_dicts e d" by (intro dict_ext) auto
      then show ?thesis by (simp add: rd)
    qed
    from leaves grows
    show "ap (collect_additions_items [] r []) [] = r \<and>
        (\<forall>e. wf_dict e \<longrightarrow> ap (concat (map (item_additions e) r)) e = grow_dicts e r)"
      by blast
  qed
next
  case 3
  show ?case by simp
next
  case (4 k v rest)
  then show ?case by simp
qed

lemma ap_additions:
  "wf_dict e \<Longrightarrow> wf_dict r \<Longrightarrow> no_empty_tables r \<Longrightarrow>
   ap (concat (map (item_additions e) r)) e = grow_dicts e r"
  using ap_additions_aux(1)[of "Table r"] by simp

lemma wf_merge:
  "wf_value ev \<Longrightarrow> (\<forall>w. rv = Some w \<longrightarrow> wf_value w) \<Longrightarrow> wf_value (merge_value ev rv)"
  "wf_dict e \<Longrightarrow> wf_dict r \<Longrightarrow>
     (\<forall>(k, v) \<in> set (map (\<lambda>(k, bv). (k, merge_value bv (dict_get r k))) e). wf_value v)"
proof (induction ev and e arbitrary: rv and r rule: wf_value_wf_dict.induct)
  case (1 s)
  show ?case
  proof (cases rv)
    case None
    then show ?thesis by (simp add: merge_value_def)
  next
    case (Some w)
    with 1(2) show ?thesis by (cases w) (simp_all add: merge_value_def)
  qed
next
  case (2 d)
  then have wd: "wf_dict d" by simp
  show ?case
  proof (cases rv)
    case None
    with wd show ?thesis by (simp add: merge_value_def)
  next
    case (Some w)
    show ?thesis
    proof (cases w)
      case (Scalar b)
      with Some show ?thesis by (simp add: merge_value_def)
    next
      case (Table r)
      with Some 2(3) have wr: "wf_dict r" by simp
      have dd: "distinct (map fst d)" and dr: "distinct (map fst r)"
        using wd wr by (simp_all add: wf_dict_distinct)
      have m: "merge_dicts d r =
          map (\<lambda>(k, bv). (k, merge_value bv (dict_get r k))) d @
          filter (\<lambda>(k, v). dict_get d k = None) r"
        using dd dr by (rule merge_dicts_eq)
      have "distinct (map fst (merge_dicts d r))"
        unfolding keys_merge_dicts[OF dd dr] using dd dr by (rule distinct_keys_merge)
      moreover have "\<forall>(k, v) \<in> set (merge_dicts d r). wf_value v"
        unfolding m using 2(1)[OF wd wr] wr by (auto simp: wf_dict_iff)
      ultimately have "wf_dict (merge_dicts d r)" by (simp add: wf_dict_iff)
      then show ?thesis by (simp add: Some Table merge_value_def)
    qed
  qed
next
  case 3
  show ?case by simp
next
  case (4 k v rest)
  from 4(3) have wv: "wf_value v" and wr: "wf_dict rest" by simp_all
  have "\<forall>w. dict_get r k = Some w \<longrightarrow> wf_value w"
    using 4(4) dict_get_wf_value by blast
  from 4(1)[OF wv this] 4(2)[OF wr 4(4)] show ?case by simp
qed

lemma wf_merge_dicts: "wf_dict e \<Longrightarrow> wf_dict r \<Longrightarrow> wf_dict (merge_dicts e r)"
  using wf_merge(1)[of "Table e" "Some (Table r)"] by (simp add: merge_value_def)

lemma applied_identity:
  "wf_value ev \<Longrightarrow> (\<forall>w. rv = Some w \<longrightarrow> wf_value w) \<Longrightarrow>
     (\<forall>p a b rr. path_get_from ev p = Some (Scalar a) \<and> rv = Some rr
        \<and> path_get_from rr p = Some (Scalar b) \<and> py_eq_scalar a b \<longrightarrow> a = b) \<Longrightarrow>
     applied_value ev rv = merge_value ev rv"
  "wf_dict e \<Longrightarrow> wf_dict r \<Longrightarrow>
     (\<forall>p a b. path_get e p = Some (Scalar a) \<and> path_get r p = Some (Scalar b)
        \<and> py_eq_scalar a b \<longrightarrow> a = b) \<Longrightarrow>
     applied_items e r = map (\<lambda>(k, bv). (k, merge_value bv (dict_get r k))) e"
proof (induction ev and e arbitrary: rv and r rule: wf_value_wf_dict.induct)
  case (1 s)
  show ?case
  proof (cases rv)
    case None
    then show ?thesis by (simp add: merge_value_def)
  next
    case (Some rr)
    show ?thesis
    proof (cases rr)
      case (Scalar b)
      from 1(3)[rule_format, of "[]" s rr b] Some Scalar show ?thesis
        by (auto simp: merge_value_def)
    next
      case (Table r)
      with Some show ?thesis by (simp add: merge_value_def)
    qed
  qed
next
  case (2 d)
  then have wd: "wf_dict d" by simp
  show ?case
  proof (cases rv)
    case None
    then show ?thesis by (simp add: merge_value_def)
  next
    case (Some rr)
    show ?thesis
    proof (cases rr)
      case (Scalar b)
      with Some show ?thesis by (simp add: merge_value_def)
    next
      case (Table r)
      with Some 2(3) have wr: "wf_dict r" by simp
      have "\<forall>p a b. path_get d p = Some (Scalar a) \<and> path_get r p = Some (Scalar b)
        \<and> py_eq_scalar a b \<longrightarrow> a = b"
        using 2(4) Some Table by simp
      from 2(1)[OF wd wr this] show ?thesis
        using wd wr by (simp add: Some Table merge_value_def merge_dicts_eq wf_dict_distinct)
    qed
  qed
next
  case 3
  show ?case by simp
next
  case (4 k v rest)
  from 4(3) have wv: "wf_value v" and wr: "wf_dict rest" and fresh: "dict_get rest k = None"
    by simp_all
  have wrv: "\<forall>w. dict_get r k = Some w \<longrightarrow> wf_value w"
    using 4(4) dict_get_wf_value by blast
  have hv: "\<forall>p a b rr. path_get_from v p = Some (Scalar a) \<and> dict_get r k = Some rr
        \<and> path_get_from rr p = Some (Scalar b) \<and> py_eq_scalar a b \<longrightarrow> a = b"
  proof (intro allI impI)
    fix p a b rr
    assume h: "path_get_from v p = Some (Scalar a) \<and> dict_get r k = Some rr
        \<and> path_get_from rr p = Some (Scalar b) \<and> py_eq_scalar a b"
    then have "path_get ((k, v) # rest) (k # p) = Some (Scalar a)"
      "path_get r (k # p) = Some (Scalar b)"
      by (simp_all add: path_get_Cons)
    with 4(5) h show "a = b" by blast
  qed
  have hr: "\<forall>p a b. path_get rest p = Some (Scalar a) \<and> path_get r p = Some (Scalar b)
        \<and> py_eq_scalar a b \<longrightarrow> a = b"
    using 4(5) path_get_Cons_fresh[OF fresh] by blast
  from 4(1)[OF wv wrv hv] 4(2)[OF wr 4(4) hr] show ?case by simp
qed

lemma applied_dicts_identity:
  assumes "wf_dict e" "wf_dict r"
    and "\<forall>p a b. path_get e p = Some (Scalar a) \<and> path_get r p = Some (Scalar b)
        \<and> py_eq_scalar a b \<longrightarrow> a = b"
  shows "applied_dicts e r = merge_dicts e r"
  using applied_identity(2)[OF assms] assms(1,2)
  by (simp add: applied_dicts_def merge_dicts_eq wf_dict_distinct)

lemma ap_item_overrides:
  assumes ev: "dict_get E k = Some ev"
    and Tk: "dict_get T k = Some (grow_value ev (Some v))"
    and IH: "\<And>e r. v = Table r \<Longrightarrow> ev = Table e \<Longrightarrow>
          ap (concat (map (item_overrides e) r)) (grow_dicts e r) = applied_dicts e r"
  shows "ap (item_overrides E (k, v)) T = dict_set T k (applied_value ev (Some v))"
proof (cases v)
  case (Scalar b)
  note v = this
  show ?thesis
  proof (cases ev)
    case (Scalar a)
    with v Tk show ?thesis
      by (simp add: item_overrides_def ev pre_def dict_set_same)
  next
    case (Table e)
    with v show ?thesis
      by (simp add: item_overrides_def ev pre_def)
  qed
next
  case (Table r)
  note v = this
  show ?thesis
  proof (cases ev)
    case (Scalar a)
    with v show ?thesis
      by (simp add: item_overrides_def ev pre_def)
  next
    case (Table e)
    from Tk have Tk': "dict_get T k = Some (Table (grow_dicts e r))"
      by (simp add: v Table grow_dicts_def)
    have "ap (item_overrides E (k, v)) T =
        dict_set T k (Table (ap (concat (map (item_overrides e) r)) (grow_dicts e r)))"
      unfolding v item_overrides_tables[OF ev[unfolded Table]]
      using concat_item_paths_nonempty(1) Tk' by (rule ap_local)
    then show ?thesis
      by (simp add: IH[OF v Table] v Table applied_dicts_def)
  qed
qed

lemma ap_overrides_items:
  assumes "distinct (map fst rs)"
    and "\<forall>(k, v) \<in> set rs. \<forall>ev. dict_get E k = Some ev \<longrightarrow>
           dict_get T k = Some (grow_value ev (Some v))"
    and "\<forall>(k, v) \<in> set rs. \<forall>e r. v = Table r \<longrightarrow> dict_get E k = Some (Table e) \<longrightarrow>
           ap (concat (map (item_overrides e) r)) (grow_dicts e r) = applied_dicts e r"
  shows "map fst (ap (concat (map (item_overrides E) rs)) T) = map fst T
       \<and> (\<forall>k'. dict_get (ap (concat (map (item_overrides E) rs)) T) k' =
            (case dict_get rs k' of
               Some v \<Rightarrow>
                 (case dict_get E k' of
                    Some ev \<Rightarrow> Some (applied_value ev (Some v))
                  | None \<Rightarrow> dict_get T k')
             | None \<Rightarrow> dict_get T k'))"
  using assms
proof (induction rs arbitrary: T)
  case Nil
  show ?case by simp
next
  case (Cons x rs)
  obtain k v where x: "x = (k, v)" by (cases x)
  from Cons.prems(1) have dist: "distinct (map fst rs)" and fresh: "dict_get rs k = None"
    by (simp_all add: x dict_get_None_iff)
  from Cons.prems(3) have IHs: "\<forall>(k, v) \<in> set rs. \<forall>e r. v = Table r \<longrightarrow>
      dict_get E k = Some (Table e) \<longrightarrow>
      ap (concat (map (item_overrides e) r)) (grow_dicts e r) = applied_dicts e r"
    by simp
  have other: "k' \<noteq> k" if "(k', v') \<in> set rs" for k' v'
    using that Cons.prems(1) by (force simp: x)
  define T1 where "T1 =
    (case dict_get E k of Some ev \<Rightarrow> dict_set T k (applied_value ev (Some v)) | None \<Rightarrow> T)"
  have item: "ap (item_overrides E (k, v)) T = T1"
  proof (cases "dict_get E k")
    case None
    then show ?thesis by (simp add: item_overrides_absent T1_def)
  next
    case (Some ev)
    have "ap (item_overrides E (k, v)) T = dict_set T k (applied_value ev (Some v))"
    proof (rule ap_item_overrides[OF Some])
      show "dict_get T k = Some (grow_value ev (Some v))"
        using Cons.prems(2) Some by (simp add: x)
    next
      fix e r assume "v = Table r" "ev = Table e"
      with Cons.prems(3) Some
      show "ap (concat (map (item_overrides e) r)) (grow_dicts e r) = applied_dicts e r"
        by (simp add: x)
    qed
    then show ?thesis by (simp add: T1_def Some)
  qed
  have get1: "dict_get T1 k' = dict_get T k'" if "k' \<noteq> k" for k'
    using that by (simp add: T1_def dict_get_set split: option.splits)
  have get1k: "dict_get T1 k =
      (case dict_get E k of Some ev \<Rightarrow> Some (applied_value ev (Some v)) | None \<Rightarrow> dict_get T k)"
    by (simp add: T1_def dict_get_set split: option.splits)
  have keys1: "map fst T1 = map fst T"
    using Cons.prems(2) by (auto simp: T1_def x keys_dict_set split: option.splits)
  have agree: "\<forall>(k, v) \<in> set rs. \<forall>ev. dict_get E k = Some ev \<longrightarrow>
      dict_get T1 k = Some (grow_value ev (Some v))"
    using Cons.prems(2) other by (auto simp: get1)
  note IH = Cons.IH[OF dist agree IHs]
  have step: "ap (concat (map (item_overrides E) (x # rs))) T =
      ap (concat (map (item_overrides E) rs)) T1"
    by (simp add: x ap_append item)
  have 1: "map fst (ap (concat (map (item_overrides E) (x # rs))) T) = map fst T"
    unfolding step using IH keys1 by simp
  have 2: "dict_get (ap (concat (map (item_overrides E) (x # rs))) T) k' =
            (case dict_get (x # rs) k' of
               Some v \<Rightarrow>
                 (case dict_get E k' of
                    Some ev \<Rightarrow> Some (applied_value ev (Some v))
                  | None \<Rightarrow> dict_get T k')
             | None \<Rightarrow> dict_get T k')" for k'
  proof (cases "k' = k")
    case True
    show ?thesis unfolding step True using IH fresh get1k by (simp add: x)
  next
    case False
    then show ?thesis unfolding step using IH get1[OF False]
      by (simp add: x split: option.splits)
  qed
  from 1 2 show ?case by blast
qed

lemma ap_overrides_aux:
  "wf_value v \<Longrightarrow>
     (\<forall>r e. v = Table r \<longrightarrow> wf_dict e \<longrightarrow>
        ap (concat (map (item_overrides e) r)) (grow_dicts e r) = applied_dicts e r)"
  "wf_dict rs \<Longrightarrow>
     (\<forall>(k, v) \<in> set rs. \<forall>r e. v = Table r \<longrightarrow> wf_dict e \<longrightarrow>
        ap (concat (map (item_overrides e) r)) (grow_dicts e r) = applied_dicts e r)"
proof (induction v and rs rule: wf_value_wf_dict.induct)
  case (1 s)
  show ?case by simp
next
  case (2 d)
  then have wd: "wf_dict d" by simp
  note IH = 2(1)[OF wd]
  have dd: "distinct (map fst d)" using wd by (rule wf_dict_distinct)
  show ?case
  proof (intro allI impI)
    fix r e
    assume "Table d = Table r" and we: "wf_dict e"
    then have rd: "r = d" by simp
    have de: "distinct (map fst e)" using we by (rule wf_dict_distinct)
    have a2: "\<forall>(k, v) \<in> set d. \<forall>ev. dict_get e k = Some ev \<longrightarrow>
           dict_get (grow_dicts e d) k = Some (grow_value ev (Some v))"
      using dd by (auto simp: dict_get_grow_dicts dict_get_mem)
    have a3: "\<forall>(k, v) \<in> set d. \<forall>e' r. v = Table r \<longrightarrow> dict_get e k = Some (Table e') \<longrightarrow>
           ap (concat (map (item_overrides e') r)) (grow_dicts e' r) = applied_dicts e' r"
      using IH we wf_dict_child by blast
    let ?T = "ap (concat (map (item_overrides e) d)) (grow_dicts e d)"
    note both = ap_overrides_items[OF dd a2 a3]
    from both have keys: "map fst ?T = map fst (applied_dicts e d)"
      by (simp add: keys_grow_dicts keys_applied_dicts)
    have dT: "distinct (map fst ?T)"
      unfolding keys keys_applied_dicts using de dd by (rule distinct_keys_merge)
    have "dict_get ?T k' = dict_get (applied_dicts e d) k'" for k'
      using both[THEN conjunct2, rule_format, of k']
      by (simp add: dict_get_grow_dicts dict_get_applied_dicts split: option.splits)
    with dT keys have "?T = applied_dicts e d" by (intro dict_ext) auto
    then show "ap (concat (map (item_overrides e) r)) (grow_dicts e r) = applied_dicts e r"
      by (simp add: rd)
  qed
next
  case 3
  show ?case by simp
next
  case (4 k v rest)
  then show ?case by simp
qed

lemma ap_overrides:
  "wf_dict e \<Longrightarrow> wf_dict r \<Longrightarrow>
   ap (concat (map (item_overrides e) r)) (grow_dicts e r) = applied_dicts e r"
  using ap_overrides_aux(1)[of "Table r"] by simp

lemma spec_apply_install:
  assumes "wf_dict e" "wf_dict r" "no_empty_tables r"
  shows "spec_apply_changes (concat (map (item_additions e) r))
           (concat (map (item_overrides e) r)) e = Inr (applied_dicts e r)"
  unfolding spec_apply_changes_def
  by (simp add: spec_apply_entries_eq[OF concat_item_paths_nonempty(2)]
      spec_apply_entries_eq[OF concat_item_paths_nonempty(1)]
      ap_additions[OF assms] ap_overrides[OF assms(1,2)])

lemma dict_sim_append:
  "dict_sim a a' \<Longrightarrow> dict_sim b b' \<Longrightarrow> dict_sim (a @ b) (a' @ b')"
proof (induction a arbitrary: a')
  case Nil
  then show ?case by (cases a') simp_all
next
  case (Cons x a)
  obtain k v where x: "x = (k, v)" by (cases x)
  from Cons.prems(1) obtain k' w a'' where a': "a' = (k', w) # a''"
    by (cases a') (auto simp: x)
  with Cons show ?case by (simp add: x)
qed

lemma tree_sim_applied_merge:
  "wf_value ev \<Longrightarrow> (\<forall>w. rv = Some w \<longrightarrow> wf_value w) \<Longrightarrow>
     tree_sim (applied_value ev rv) (merge_value ev rv)"
  "wf_dict e \<Longrightarrow> wf_dict r \<Longrightarrow>
     dict_sim (applied_items e r) (map (\<lambda>(k, bv). (k, merge_value bv (dict_get r k))) e)"
proof (induction ev and e arbitrary: rv and r rule: wf_value_wf_dict.induct)
  case (1 s)
  show ?case
  proof (cases rv)
    case None
    then show ?thesis by (simp add: merge_value_def py_eq_scalar_refl)
  next
    case (Some w)
    then show ?thesis
      by (cases w) (simp_all add: merge_value_def py_eq_scalar_refl tree_sim_refl(2))
  qed
next
  case (2 d)
  then have wd: "wf_dict d" by simp
  show ?case
  proof (cases rv)
    case None
    then show ?thesis by (simp add: merge_value_def tree_sim_refl(2))
  next
    case (Some w)
    show ?thesis
    proof (cases w)
      case (Scalar b)
      with Some show ?thesis by (simp add: merge_value_def py_eq_scalar_refl)
    next
      case (Table r)
      with Some 2(3) have wr: "wf_dict r" by simp
      have m: "merge_dicts d r =
          map (\<lambda>(k, bv). (k, merge_value bv (dict_get r k))) d @
          filter (\<lambda>(k, v). dict_get d k = None) r"
        using wd wr by (intro merge_dicts_eq wf_dict_distinct)
      have "dict_sim (applied_items d r @ filter (\<lambda>(k, v). dict_get d k = None) r) (merge_dicts d r)"
        unfolding m using 2(1)[OF wd wr] tree_sim_refl(2) by (rule dict_sim_append)
      then show ?thesis by (simp add: Some Table merge_value_def)
    qed
  qed
next
  case 3
  show ?case by simp
next
  case (4 k v rest)
  from 4(3) have wv: "wf_value v" and wr: "wf_dict rest" by simp_all
  have "\<forall>w. dict_get r k = Some w \<longrightarrow> wf_value w"
    using 4(4) dict_get_wf_value by blast
  from 4(1)[OF wv this] 4(2)[OF wr 4(4)] show ?case by simp
qed

lemma dict_sim_applied_merge:
  assumes "wf_dict e" "wf_dict r"
  shows "dict_sim (applied_dicts e r) (merge_dicts e r)"
proof -
  have m: "merge_dicts e r =
      map (\<lambda>(k, bv). (k, merge_value bv (dict_get r k))) e @
      filter (\<lambda>(k, v). dict_get e k = None) r"
    using assms by (intro merge_dicts_eq wf_dict_distinct)
  show ?thesis
    unfolding m applied_dicts_def
    using tree_sim_applied_merge(2)[OF assms] tree_sim_refl(2) by (rule dict_sim_append)
qed

section \<open>Claim about the agreement of the differ and the merger\<close>

text \<open>
  C2 as stated does not hold.  With the empty existing tree and the repo tree
  \<^verbatim>\<open>a = {}\<close> the ledger is empty, so applying it leaves the tree empty, while the
  merge is \<^verbatim>\<open>a = {}\<close>.  With \<^verbatim>\<open>a = true\<close> against \<^verbatim>\<open>a = 1\<close> no entry is recorded
  (\<^verbatim>\<open>True == 1\<close>): applying the ledger yields \<^verbatim>\<open>a = true\<close>, the merge is \<^verbatim>\<open>a = 1\<close>.
\<close>

theorem merge_diff_agreement_counterexample:
  "install_changes [(''a'', Table [])] [] [] [] = ([], [])
   \<and> spec_apply_changes [] [] [] = Inr []
   \<and> merge_dicts [] [(''a'', Table [])] = [(''a'', Table [])]
   \<and> install_changes [(''a'', Scalar (PInt 1))] [(''a'', Scalar (PBool True))] [] [] = ([], [])
   \<and> spec_apply_changes [] [] [(''a'', Scalar (PBool True))] = Inr [(''a'', Scalar (PBool True))]
   \<and> merge_dicts [(''a'', Scalar (PBool True))] [(''a'', Scalar (PInt 1))]
       = [(''a'', Scalar (PInt 1))]"
  by (simp add: merge_dicts.simps dict_contains_def spec_apply_changes_def)

text \<open>
  C2, amended.  Let the repo tree have no empty table below the root.  Storing the repo
  value at the path of every addition and of every override that \<^verbatim>\<open>install\<close> records,
  starting from the existing tree, succeeds and yields a tree with the keys of the merged
  tree, in the same order at every level, whose leaves are equal to those of the merged
  tree in the sense of Python's \<^verbatim>\<open>==\<close>; so Python's \<^verbatim>\<open>==\<close> holds between the two
  trees, and they are identical if no leaf of the existing tree is equal without being
  identical to the repo's leaf at the same path.
\<close>

theorem merge_diff_agreement:
  assumes "wf_dict repo_data" and "no_empty_tables repo_data"
    and "wf_dict existing_data"
    and "install_changes repo_data existing_data [] [] = (adds, ovs)"
  shows "\<exists>data. spec_apply_changes adds ovs existing_data = Inr data
           \<and> dict_sim data (merge_dicts existing_data repo_data)
           \<and> py_eq (Table data) (Table (merge_dicts existing_data repo_data))
           \<and> ((\<forall>p a b. path_get existing_data p = Some (Scalar a)
                  \<and> path_get repo_data p = Some (Scalar b) \<and> py_eq_scalar a b \<longrightarrow> a = b)
                \<longrightarrow> data = merge_dicts existing_data repo_data)"
proof -
  let ?data = "applied_dicts existing_data repo_data"
  let ?M = "merge_dicts existing_data repo_data"
  from assms(4) have adds: "adds = concat (map (item_additions existing_data) repo_data)"
    and ovs: "ovs = concat (map (item_overrides existing_data) repo_data)"
    by (simp_all add: install_changes_concat)
  have 1: "spec_apply_changes adds ovs existing_data = Inr ?data"
    unfolding adds ovs using assms(3,1,2) by (rule spec_apply_install)
  have 2: "dict_sim ?data ?M"
    using assms(3,1) by (rule dict_sim_applied_merge)
  have "wf_dict ?M" using assms(3,1) by (rule wf_merge_dicts)
  then have 3: "py_eq (Table ?data) (Table ?M)"
    using 2 by (rule dict_sim_imp_py_eq)
  have 4: "(\<forall>p a b. path_get existing_data p = Some (Scalar a)
                  \<and> path_get repo_data p = Some (Scalar b) \<and> py_eq_scalar a b \<longrightarrow> a = b)
                \<longrightarrow> ?data = ?M"
    using applied_dicts_identity[OF assms(3,1)] by blast
  from 1 2 3 4 show ?thesis by blast
qed

theorem merge_diff_agreement_witness:
  "wf_dict [(''mode'', Scalar (PStr ''auto'')), (''tools'', Table [(''shell'', Scalar (PBool True))])]
   \<and> no_empty_tables
        [(''mode'', Scalar (PStr ''auto'')), (''tools'', Table [(''shell'', Scalar (PBool True))])]
   \<and> wf_dict [(''mode'', Scalar (PStr ''manual''))]
   \<and> install_changes
        [(''mode'', Scalar (PStr ''auto'')), (''tools'', Table [(''shell'', Scalar (PBool True))])]
        [(''mode'', Scalar (PStr ''manual''))] [] []
       = ([\<lparr>entry_path = [''tools'', ''shell''], entry_repo = Scalar (PBool True)\<rparr>],
          [\<lparr>entry_path = [''mode''], entry_repo = Scalar (PStr ''auto''),
             entry_previous = Scalar (PStr ''manual'')\<rparr>])
   \<and> spec_apply_changes
        [\<lparr>entry_path = [''tools'', ''shell''], entry_repo = Scalar (PBool True)\<rparr>]
        [\<lparr>entry_path = [''mode''], entry_repo = Scalar (PStr ''auto''),
           entry_previous = Scalar (PStr ''manual'')\<rparr>]
        [(''mode'', Scalar (PStr ''manual''))]
       = Inr (merge_dicts [(''mode'', Scalar (PStr ''manual''))]
                [(''mode'', Scalar (PStr ''auto'')),
                 (''tools'', Table [(''shell'', Scalar (PBool True))])])"
proof -
  let ?R = "[(''mode'', Scalar (PStr ''auto'')),
             (''tools'', Table [(''shell'', Scalar (PBool True))])]"
  let ?E = "[(''mode'', Scalar (PStr ''manual''))]"
  have w: "wf_dict ?R" "no_empty_tables ?R" "wf_dict ?E"
    by simp_all
  have i: "install_changes ?R ?E [] []
       = ([\<lparr>entry_path = [''tools'', ''shell''], entry_repo = Scalar (PBool True)\<rparr>],
          [\<lparr>entry_path = [''mode''], entry_repo = Scalar (PStr ''auto''),
             entry_previous = Scalar (PStr ''manual'')\<rparr>])"
    by simp
  have leaves: "\<forall>p a b. path_get ?E p = Some (Scalar a)
      \<and> path_get ?R p = Some (Scalar b) \<and> py_eq_scalar a b \<longrightarrow> a = b"
  proof (intro allI impI)
    fix p a b
    assume h: "path_get ?E p = Some (Scalar a)
      \<and> path_get ?R p = Some (Scalar b) \<and> py_eq_scalar a b"
    show "a = b"
    proof (cases p)
      case Nil
      with h show ?thesis by simp
    next
      case (Cons k q)
      with h show ?thesis
        by (cases "k = ''mode''") (auto simp: path_get_Cons path_get_from_Scalar split: if_splits)
    qed
  qed
  from merge_diff_agreement[OF w i] leaves w i show ?thesis by auto
qed

section \<open>Tables with distinct keys, compared key by key\<close>

lemma same_items_iff:
  "same_items d e \<longleftrightarrow> (\<forall>(k, v) \<in> set d. \<exists>w. dict_get e k = Some w \<and> same_tree v w)"
  by (induction d) (auto split: option.splits)

lemma py_eq_items_iff:
  "py_eq_items d e \<longleftrightarrow> (\<forall>(k, v) \<in> set d. \<exists>w. dict_get e k = Some w \<and> py_eq v w)"
  by (induction d) (auto split: option.splits)

lemma keys_eq_of_bound:
  assumes "distinct (map fst d)" and "distinct (map fst e)" and "length d = length e"
    and "\<forall>(k, v) \<in> set d. \<exists>w. dict_get e k = Some w \<and> P v w"
  shows "fst ` set d = fst ` set e"
proof -
  have sub: "fst ` set d \<subseteq> fst ` set e"
  proof
    fix k assume "k \<in> fst ` set d"
    then obtain v where "(k, v) \<in> set d" by auto
    with assms(4) obtain w where "dict_get e k = Some w" by blast
    then have "(k, w) \<in> set e" by (rule dict_get_Some_mem)
    then show "k \<in> fst ` set e" by force
  qed
  have "card (fst ` set d) = length d"
    using assms(1) by (metis distinct_card length_map set_map)
  moreover have "card (fst ` set e) = length e"
    using assms(2) by (metis distinct_card length_map set_map)
  ultimately have "card (fst ` set d) = card (fst ` set e)" using assms(3) by simp
  with sub show ?thesis by (simp add: card_subset_eq)
qed

lemma bound_imp_pointwise:
  assumes "distinct (map fst d)" and "distinct (map fst e)" and "length d = length e"
    and "\<forall>(k, v) \<in> set d. \<exists>w. dict_get e k = Some w \<and> P v w"
  shows "rel_option P (dict_get d k) (dict_get e k)"
proof (cases "dict_get d k")
  case None
  then have "k \<notin> fst ` set d" by (simp add: dict_get_None_iff)
  then have "k \<notin> fst ` set e" using keys_eq_of_bound[OF assms] by simp
  then have "dict_get e k = None" by (simp add: dict_get_None_iff)
  with None show ?thesis by simp
next
  case (Some v)
  then have "(k, v) \<in> set d" by (rule dict_get_Some_mem)
  with assms(4) obtain w where "dict_get e k = Some w" "P v w" by blast
  with Some show ?thesis by simp
qed

lemma pointwise_imp_bound:
  assumes "distinct (map fst d)" and "distinct (map fst e)"
    and "\<forall>k. rel_option P (dict_get d k) (dict_get e k)"
  shows "length d = length e"
    and "\<forall>(k, v) \<in> set d. \<exists>w. dict_get e k = Some w \<and> P v w"
proof -
  have "fst ` set d = fst ` set e"
  proof (rule set_eqI)
    fix k
    from assms(3) have "rel_option P (dict_get d k) (dict_get e k)" by blast
    then have "dict_get d k = None \<longleftrightarrow> dict_get e k = None"
      by (cases "dict_get d k"; cases "dict_get e k") simp_all
    then show "k \<in> fst ` set d \<longleftrightarrow> k \<in> fst ` set e"
      by (simp add: dict_get_None_iff)
  qed
  moreover have "card (fst ` set d) = length d"
    using assms(1) by (metis distinct_card length_map set_map)
  moreover have "card (fst ` set e) = length e"
    using assms(2) by (metis distinct_card length_map set_map)
  ultimately show "length d = length e" by simp
  show "\<forall>(k, v) \<in> set d. \<exists>w. dict_get e k = Some w \<and> P v w"
  proof (clarify)
    fix k v assume "(k, v) \<in> set d"
    with assms(1) have "dict_get d k = Some v" by (intro dict_get_mem)
    moreover from assms(3) have "rel_option P (dict_get d k) (dict_get e k)" by blast
    ultimately show "\<exists>w. dict_get e k = Some w \<and> P v w"
      by (cases "dict_get e k") simp_all
  qed
qed

lemma same_tree_Table_iff:
  assumes "wf_dict d" and "wf_dict e"
  shows "same_tree (Table d) (Table e) \<longleftrightarrow>
         (\<forall>k. rel_option same_tree (dict_get d k) (dict_get e k))"
proof
  assume "same_tree (Table d) (Table e)"
  then have "length d = length e"
    and "\<forall>(k, v) \<in> set d. \<exists>w. dict_get e k = Some w \<and> same_tree v w"
    by (simp_all add: same_items_iff)
  with assms show "\<forall>k. rel_option same_tree (dict_get d k) (dict_get e k)"
    by (intro allI bound_imp_pointwise wf_dict_distinct)
next
  assume "\<forall>k. rel_option same_tree (dict_get d k) (dict_get e k)"
  with assms show "same_tree (Table d) (Table e)"
    using pointwise_imp_bound[of d e same_tree]
    by (simp add: same_items_iff wf_dict_distinct)
qed

lemma py_eq_Table_iff:
  assumes "wf_dict d" and "wf_dict e"
  shows "py_eq (Table d) (Table e) \<longleftrightarrow>
         (\<forall>k. rel_option py_eq (dict_get d k) (dict_get e k))"
proof
  assume "py_eq (Table d) (Table e)"
  then have "length d = length e"
    and "\<forall>(k, v) \<in> set d. \<exists>w. dict_get e k = Some w \<and> py_eq v w"
    by (simp_all add: py_eq_items_iff)
  with assms show "\<forall>k. rel_option py_eq (dict_get d k) (dict_get e k)"
    by (intro allI bound_imp_pointwise wf_dict_distinct)
next
  assume "\<forall>k. rel_option py_eq (dict_get d k) (dict_get e k)"
  with assms show "py_eq (Table d) (Table e)"
    using pointwise_imp_bound[of d e py_eq]
    by (simp add: py_eq_items_iff wf_dict_distinct)
qed

section \<open>The same tree up to the order of keys\<close>

lemma same_tree_Scalar_left [simp]: "same_tree (Scalar a) w \<longleftrightarrow> w = Scalar a"
  by (cases w) auto

lemma same_tree_Scalar_right [simp]: "same_tree v (Scalar a) \<longleftrightarrow> v = Scalar a"
  by (cases v) auto

lemma same_tree_Table_left: "same_tree (Table d) w \<Longrightarrow> \<exists>e. w = Table e"
  by (cases w) auto

lemma same_tree_Table_right: "same_tree v (Table e) \<Longrightarrow> \<exists>d. v = Table d"
  by (cases v) auto

lemma same_tree_is_dict: "same_tree v w \<Longrightarrow> is_dict v = is_dict w"
  by (cases v; cases w) auto

lemma same_tree_Nil_left [simp]: "same_tree (Table []) (Table e) \<longleftrightarrow> e = []"
  by auto

lemma same_tree_Nil_right [simp]: "same_tree (Table d) (Table []) \<longleftrightarrow> d = []"
  by auto

lemma same_tree_refl: "wf_value v \<Longrightarrow> same_tree v v"
proof (induction v)
  case (Scalar s)
  show ?case by simp
next
  case (Table d)
  from Table.prems have wf: "wf_dict d" by simp
  have "rel_option same_tree (dict_get d k) (dict_get d k)" for k
  proof (cases "dict_get d k")
    case None
    then show ?thesis by simp
  next
    case (Some v)
    then have "(k, v) \<in> set d" by (rule dict_get_Some_mem)
    moreover have "wf_value v" using wf Some by (rule dict_get_wf_value)
    ultimately have "same_tree v v" by (intro Table.IH[of "(k, v)" v]) simp_all
    with Some show ?thesis by simp
  qed
  then have "\<forall>k. rel_option same_tree (dict_get d k) (dict_get d k)" by blast
  with same_tree_Table_iff[OF wf wf] show ?case by blast
qed

lemma same_tree_sym: "wf_value v \<Longrightarrow> wf_value w \<Longrightarrow> same_tree v w \<Longrightarrow> same_tree w v"
proof (induction v arbitrary: w)
  case (Scalar s)
  then show ?case by simp
next
  case (Table d)
  from Table.prems(3) obtain e where w: "w = Table e" by (auto dest: same_tree_Table_left)
  from Table.prems have wd: "wf_dict d" and we: "wf_dict e" by (simp_all add: w)
  have pw: "\<forall>k. rel_option same_tree (dict_get d k) (dict_get e k)"
    using Table.prems(3) same_tree_Table_iff[OF wd we] unfolding w by blast
  have "rel_option same_tree (dict_get e k) (dict_get d k)" for k
  proof (cases "dict_get d k")
    case None
    with pw[rule_format, of k] show ?thesis by (cases "dict_get e k") simp_all
  next
    case (Some x)
    with pw[rule_format, of k] obtain y where y: "dict_get e k = Some y" "same_tree x y"
      by (cases "dict_get e k") simp_all
    have "(k, x) \<in> set d" using Some by (rule dict_get_Some_mem)
    moreover have "wf_value x" using wd Some by (rule dict_get_wf_value)
    moreover have "wf_value y" using we y(1) by (rule dict_get_wf_value)
    ultimately have "same_tree y x" using y(2) by (intro Table.IH[of "(k, x)" x]) simp_all
    with Some y(1) show ?thesis by simp
  qed
  then have "\<forall>k. rel_option same_tree (dict_get e k) (dict_get d k)" by blast
  with same_tree_Table_iff[OF we wd] show ?case unfolding w by blast
qed

lemma same_tree_trans:
  "wf_value u \<Longrightarrow> wf_value v \<Longrightarrow> wf_value w \<Longrightarrow> same_tree u v \<Longrightarrow> same_tree v w \<Longrightarrow>
   same_tree u w"
proof (induction u arbitrary: v w)
  case (Scalar s)
  then show ?case by simp
next
  case (Table d)
  from Table.prems(4) obtain e where v: "v = Table e" by (auto dest: same_tree_Table_left)
  from Table.prems(5) obtain f where w: "w = Table f" by (auto simp: v dest: same_tree_Table_left)
  from Table.prems have wd: "wf_dict d" and we: "wf_dict e" and wf: "wf_dict f"
    by (simp_all add: v w)
  have de: "\<forall>k. rel_option same_tree (dict_get d k) (dict_get e k)"
    using Table.prems(4) same_tree_Table_iff[OF wd we] unfolding v by blast
  have ef: "\<forall>k. rel_option same_tree (dict_get e k) (dict_get f k)"
    using Table.prems(5) same_tree_Table_iff[OF we wf] unfolding v w by blast
  have "rel_option same_tree (dict_get d k) (dict_get f k)" for k
  proof (cases "dict_get d k")
    case None
    with de[rule_format, of k] have "dict_get e k = None" by (cases "dict_get e k") simp_all
    with ef[rule_format, of k] have "dict_get f k = None" by (cases "dict_get f k") simp_all
    with None show ?thesis by simp
  next
    case (Some x)
    with de[rule_format, of k] obtain y where y: "dict_get e k = Some y" "same_tree x y"
      by (cases "dict_get e k") simp_all
    with ef[rule_format, of k] obtain z where z: "dict_get f k = Some z" "same_tree y z"
      by (cases "dict_get f k") simp_all
    have "(k, x) \<in> set d" using Some by (rule dict_get_Some_mem)
    moreover have "wf_value x" using wd Some by (rule dict_get_wf_value)
    moreover have "wf_value y" using we y(1) by (rule dict_get_wf_value)
    moreover have "wf_value z" using wf z(1) by (rule dict_get_wf_value)
    ultimately have "same_tree x z" using y(2) z(2)
      by (intro Table.IH[of "(k, x)" x y z]) simp_all
    with Some z(1) show ?thesis by simp
  qed
  then have "\<forall>k. rel_option same_tree (dict_get d k) (dict_get f k)" by blast
  with same_tree_Table_iff[OF wd wf] show ?case unfolding w by blast
qed

text \<open>Python's \<^verbatim>\<open>==\<close> does not see the order of keys.\<close>

lemma py_eq_same_tree:
  "wf_value v \<Longrightarrow> wf_value v' \<Longrightarrow> wf_value w \<Longrightarrow> wf_value w' \<Longrightarrow>
   same_tree v v' \<Longrightarrow> same_tree w w' \<Longrightarrow> py_eq v w \<Longrightarrow> py_eq v' w'"
proof (induction v arbitrary: v' w w')
  case (Scalar s)
  from Scalar.prems(5) have v': "v' = Scalar s" by simp
  from Scalar.prems(7) obtain t where w: "w = Scalar t" by (cases w) simp_all
  from Scalar.prems(6) have w': "w' = Scalar t" by (simp add: w)
  from Scalar.prems(7) show ?case by (simp add: v' w w')
next
  case (Table d)
  from Table.prems(5) obtain d' where v': "v' = Table d'" by (auto dest: same_tree_Table_left)
  from Table.prems(7) obtain e where w: "w = Table e" by (cases w) simp_all
  from Table.prems(6) obtain e' where w': "w' = Table e'"
    by (auto simp: w dest: same_tree_Table_left)
  from Table.prems have wd: "wf_dict d" and wd': "wf_dict d'" and we: "wf_dict e"
    and we': "wf_dict e'"
    by (simp_all add: v' w w')
  have dd: "\<forall>k. rel_option same_tree (dict_get d k) (dict_get d' k)"
    using Table.prems(5) same_tree_Table_iff[OF wd wd'] unfolding v' by blast
  have ee: "\<forall>k. rel_option same_tree (dict_get e k) (dict_get e' k)"
    using Table.prems(6) same_tree_Table_iff[OF we we'] unfolding w w' by blast
  have de: "\<forall>k. rel_option py_eq (dict_get d k) (dict_get e k)"
    using Table.prems(7) py_eq_Table_iff[OF wd we] unfolding w by blast
  have "rel_option py_eq (dict_get d' k) (dict_get e' k)" for k
  proof (cases "dict_get d k")
    case None
    with dd[rule_format, of k] have 1: "dict_get d' k = None"
      by (cases "dict_get d' k") simp_all
    from None de[rule_format, of k] have "dict_get e k = None"
      by (cases "dict_get e k") simp_all
    with ee[rule_format, of k] have "dict_get e' k = None"
      by (cases "dict_get e' k") simp_all
    with 1 show ?thesis by simp
  next
    case (Some x)
    with dd[rule_format, of k] obtain x' where x': "dict_get d' k = Some x'" "same_tree x x'"
      by (cases "dict_get d' k") simp_all
    from Some de[rule_format, of k] obtain y where y: "dict_get e k = Some y" "py_eq x y"
      by (cases "dict_get e k") simp_all
    with ee[rule_format, of k] obtain y' where y': "dict_get e' k = Some y'" "same_tree y y'"
      by (cases "dict_get e' k") simp_all
    have "(k, x) \<in> set d" using Some by (rule dict_get_Some_mem)
    moreover have "wf_value x" using wd Some by (rule dict_get_wf_value)
    moreover have "wf_value x'" using wd' x'(1) by (rule dict_get_wf_value)
    moreover have "wf_value y" using we y(1) by (rule dict_get_wf_value)
    moreover have "wf_value y'" using we' y'(1) by (rule dict_get_wf_value)
    ultimately have "py_eq x' y'" using x'(2) y'(2) y(2)
      by (intro Table.IH[of "(k, x)" x x' y y']) simp_all
    with x'(1) y'(1) show ?thesis by simp
  qed
  then have "\<forall>k. rel_option py_eq (dict_get d' k) (dict_get e' k)" by blast
  with py_eq_Table_iff[OF wd' we'] show ?case unfolding v' w' by blast
qed

lemma py_eq_same_tree_iff:
  assumes "wf_value v" "wf_value v'" "wf_value w" "wf_value w'"
    and "same_tree v v'" and "same_tree w w'"
  shows "py_eq v w \<longleftrightarrow> py_eq v' w'"
proof
  assume "py_eq v w"
  with assms(1-4) assms(5,6) show "py_eq v' w'" by (rule py_eq_same_tree)
next
  assume a: "py_eq v' w'"
  have 1: "same_tree v' v" using assms(1,2,5) by (rule same_tree_sym)
  have 2: "same_tree w' w" using assms(3,4,6) by (rule same_tree_sym)
  from assms(2,1,4,3) 1 2 a show "py_eq v w" by (rule py_eq_same_tree)
qed

section \<open>The operations on paths keep the keys distinct\<close>

declare same_tree.simps(2) [simp del]

lemma dict_get_del:
  "distinct (map fst d) \<Longrightarrow>
   dict_get (dict_del d k) k' = (if k' = k then None else dict_get d k')"
  by (simp add: dict_get_del_same dict_get_del_other)

lemma wf_dict_set: "wf_dict d \<Longrightarrow> wf_value v \<Longrightarrow> wf_dict (dict_set d k v)"
  by (induction d) (auto simp: dict_get_set)

lemma wf_dict_del: "wf_dict d \<Longrightarrow> wf_dict (dict_del d k)"
  by (induction d) (auto simp: dict_get_del_other)

lemma wf_child_table: "wf_dict d \<Longrightarrow> wf_dict (child_table d k)"
proof (cases "dict_get d k")
  case None
  then show ?thesis by (simp add: child_table_def)
next
  case (Some v)
  assume wf: "wf_dict d"
  show ?thesis
  proof (cases v)
    case (Scalar s)
    with Some show ?thesis by (simp add: child_table_def)
  next
    case (Table c)
    with Some wf show ?thesis by (simp add: wf_dict_child)
  qed
qed

lemma wf_pset: "wf_dict d \<Longrightarrow> wf_value v \<Longrightarrow> p \<noteq> [] \<Longrightarrow> wf_dict (pset d p v)"
proof (induction p arbitrary: d)
  case Nil
  then show ?case by simp
next
  case (Cons k q)
  show ?case
  proof (cases "q = []")
    case True
    with Cons.prems show ?thesis by (simp add: wf_dict_set)
  next
    case False
    have "wf_dict (pset (child_table d k) q v)"
      using wf_child_table[OF Cons.prems(1)] Cons.prems(2) False by (rule Cons.IH)
    then show ?thesis
      using Cons.prems(1) by (simp add: pset_Cons[OF False] wf_dict_set)
  qed
qed

lemma wf_path_delete_rec: "wf_dict d \<Longrightarrow> wf_dict (snd (path_delete_rec d p))"
proof (induction d p rule: path_delete_rec.induct)
  case (1 d)
  then show ?case by simp
next
  case (2 d k)
  then show ?case by (simp add: wf_dict_del)
next
  case (3 d k k' q)
  show ?case
  proof (cases "dict_get d k")
    case None
    with "3.prems" show ?thesis by simp
  next
    case (Some v)
    show ?thesis
    proof (cases v)
      case (Scalar s)
      with Some "3.prems" show ?thesis by simp
    next
      case (Table c)
      have wc: "wf_dict c" using "3.prems" Some Table by (simp add: wf_dict_child)
      obtain fl c' where rec: "path_delete_rec c (k' # q) = (fl, c')"
        by (cases "path_delete_rec c (k' # q)")
      from "3.IH"[OF Some Table wc] have "wf_dict c'" by (simp add: rec)
      with "3.prems" show ?thesis
        by (cases fl) (simp_all add: Some Table rec wf_dict_del wf_dict_set)
    qed
  qed
qed

lemma wf_path_get_from: "wf_value v \<Longrightarrow> path_get_from v p = Some w \<Longrightarrow> wf_value w"
proof (induction p arbitrary: v)
  case Nil
  then show ?case by simp
next
  case (Cons k q)
  from Cons.prems(2) obtain d where v: "v = Table d" by (cases v) simp_all
  from Cons.prems(2) obtain x where x: "dict_get d k = Some x" "path_get_from x q = Some w"
    by (cases "dict_get d k") (simp_all add: v)
  have "wf_value x" using Cons.prems(1) x(1) by (simp add: v dict_get_wf_value)
  then show ?case using x(2) by (rule Cons.IH)
qed

lemma wf_path_get:
  assumes "wf_dict d" and "path_get d p = Some w"
  shows "wf_value w"
proof -
  have "wf_value (Table d)" using assms(1) by simp
  moreover have "path_get_from (Table d) p = Some w" using assms(2) unfolding path_get_def .
  ultimately show ?thesis by (rule wf_path_get_from)
qed

section \<open>The operations on paths do not see the order of keys\<close>

lemma same_dict_get:
  assumes "wf_dict d" "wf_dict d'" "same_tree (Table d) (Table d')"
  shows "rel_option same_tree (dict_get d k) (dict_get d' k)"
proof -
  from assms(3) have "\<forall>k. rel_option same_tree (dict_get d k) (dict_get d' k)"
    unfolding same_tree_Table_iff[OF assms(1,2)] .
  then show ?thesis by (rule spec)
qed

lemma same_dict_contains:
  assumes "wf_dict d" "wf_dict d'" "same_tree (Table d) (Table d')"
  shows "dict_contains d k = dict_contains d' k"
  using same_dict_get[OF assms, of k]
  by (cases "dict_get d k"; cases "dict_get d' k") (simp_all add: dict_contains_def)

lemma same_dict_set:
  assumes "wf_dict d" "wf_dict d'" "same_tree (Table d) (Table d')"
    and "wf_value v" "wf_value v'" "same_tree v v'"
  shows "same_tree (Table (dict_set d k v)) (Table (dict_set d' k v'))"
proof -
  have "rel_option same_tree (dict_get (dict_set d k v) k') (dict_get (dict_set d' k v') k')"
    for k'
    using same_dict_get[OF assms(1-3), of k'] assms(6) by (simp add: dict_get_set)
  then have "\<forall>k'. rel_option same_tree (dict_get (dict_set d k v) k')
      (dict_get (dict_set d' k v') k')" by blast
  with same_tree_Table_iff[OF wf_dict_set[OF assms(1,4)] wf_dict_set[OF assms(2,5)]]
  show ?thesis by blast
qed

lemma same_dict_del:
  assumes "wf_dict d" "wf_dict d'" "same_tree (Table d) (Table d')"
  shows "same_tree (Table (dict_del d k)) (Table (dict_del d' k))"
proof -
  have "rel_option same_tree (dict_get (dict_del d k) k') (dict_get (dict_del d' k) k')"
    for k'
    using same_dict_get[OF assms, of k'] assms(1,2)
    by (simp add: dict_get_del wf_dict_distinct)
  then have "\<forall>k'. rel_option same_tree (dict_get (dict_del d k) k')
      (dict_get (dict_del d' k) k')" by blast
  with same_tree_Table_iff[OF wf_dict_del[OF assms(1)] wf_dict_del[OF assms(2)]]
  show ?thesis by blast
qed

lemma same_child_table:
  assumes "wf_dict d" "wf_dict d'" "same_tree (Table d) (Table d')"
  shows "same_tree (Table (child_table d k)) (Table (child_table d' k))"
proof (cases "dict_get d k")
  case None
  with same_dict_get[OF assms, of k] have "dict_get d' k = None"
    by (cases "dict_get d' k") simp_all
  with None show ?thesis by (simp add: child_table_def)
next
  case (Some x)
  with same_dict_get[OF assms, of k] obtain x' where x': "dict_get d' k = Some x'"
    "same_tree x x'"
    by (cases "dict_get d' k") simp_all
  show ?thesis
  proof (cases x)
    case (Scalar s)
    with x'(2) have "x' = Scalar s" by simp
    with Some x'(1) Scalar show ?thesis by (simp add: child_table_def)
  next
    case (Table c)
    with x'(2) obtain c' where c': "x' = Table c'" by (auto dest: same_tree_Table_left)
    with Some x' Table show ?thesis by simp
  qed
qed

lemma same_path_get_from:
  "wf_value v \<Longrightarrow> wf_value v' \<Longrightarrow> same_tree v v' \<Longrightarrow>
   rel_option same_tree (path_get_from v p) (path_get_from v' p)"
proof (induction p arbitrary: v v')
  case Nil
  then show ?case by simp
next
  case (Cons k q)
  show ?case
  proof (cases v)
    case (Scalar s)
    with Cons.prems(3) have "v' = Scalar s" by simp
    with Scalar show ?thesis by simp
  next
    case (Table d)
    with Cons.prems(3) obtain d' where v': "v' = Table d'" by (auto dest: same_tree_Table_left)
    from Cons.prems have wd: "wf_dict d" and wd': "wf_dict d'"
      and st: "same_tree (Table d) (Table d')"
      by (simp_all add: Table v')
    show ?thesis
    proof (cases "dict_get d k")
      case None
      with same_dict_get[OF wd wd' st, of k] have "dict_get d' k = None"
        by (cases "dict_get d' k") simp_all
      with None show ?thesis by (simp add: Table v' path_get_Cons)
    next
      case (Some x)
      with same_dict_get[OF wd wd' st, of k] obtain x' where x': "dict_get d' k = Some x'"
        "same_tree x x'"
        by (cases "dict_get d' k") simp_all
      have "wf_value x" using wd Some by (rule dict_get_wf_value)
      moreover have "wf_value x'" using wd' x'(1) by (rule dict_get_wf_value)
      ultimately have "rel_option same_tree (path_get_from x q) (path_get_from x' q)"
        using x'(2) by (rule Cons.IH)
      then show ?thesis by (simp add: Table v' path_get_Cons Some x'(1))
    qed
  qed
qed

lemma same_path_get:
  assumes "wf_dict d" "wf_dict d'" "same_tree (Table d) (Table d')"
  shows "rel_option same_tree (path_get d p) (path_get d' p)"
proof -
  have "wf_value (Table d)" "wf_value (Table d')" using assms(1,2) by simp_all
  then show ?thesis unfolding path_get_def using assms(3) by (rule same_path_get_from)
qed

lemma same_pset:
  "wf_dict d \<Longrightarrow> wf_dict d' \<Longrightarrow> same_tree (Table d) (Table d') \<Longrightarrow>
   wf_value v \<Longrightarrow> wf_value v' \<Longrightarrow> same_tree v v' \<Longrightarrow> p \<noteq> [] \<Longrightarrow>
   same_tree (Table (pset d p v)) (Table (pset d' p v'))"
proof (induction p arbitrary: d d')
  case Nil
  then show ?case by simp
next
  case (Cons k q)
  show ?case
  proof (cases "q = []")
    case True
    with Cons.prems show ?thesis by (simp add: same_dict_set)
  next
    case False
    have c: "wf_dict (child_table d k)" "wf_dict (child_table d' k)"
      using Cons.prems(1,2) by (simp_all add: wf_child_table)
    have s: "same_tree (Table (child_table d k)) (Table (child_table d' k))"
      using Cons.prems(1-3) by (rule same_child_table)
    have 1: "same_tree (Table (pset (child_table d k) q v)) (Table (pset (child_table d' k) q v'))"
      using c s Cons.prems(4-6) False by (rule Cons.IH)
    have 2: "wf_value (Table (pset (child_table d k) q v))"
      "wf_value (Table (pset (child_table d' k) q v'))"
      using c Cons.prems(4,5) False by (simp_all add: wf_pset)
    show ?thesis
      unfolding pset_Cons[OF False]
      using Cons.prems(1-3) 2 1 by (rule same_dict_set)
  qed
qed

lemma same_path_delete_rec:
  "wf_dict d \<Longrightarrow> wf_dict d' \<Longrightarrow> same_tree (Table d) (Table d') \<Longrightarrow>
   fst (path_delete_rec d p) = fst (path_delete_rec d' p)
   \<and> same_tree (Table (snd (path_delete_rec d p))) (Table (snd (path_delete_rec d' p)))"
proof (induction d p arbitrary: d' rule: path_delete_rec.induct)
  case (1 d)
  then show ?case by simp
next
  case (2 d k)
  from "2.prems" have "dict_contains d k = dict_contains d' k" by (rule same_dict_contains)
  with "2.prems" show ?case by (simp add: same_dict_del)
next
  case (3 d k k' q)
  note wd = "3.prems"(1) and wd' = "3.prems"(2) and st = "3.prems"(3)
  show ?case
  proof (cases "dict_get d k")
    case None
    with same_dict_get[OF wd wd' st, of k] have "dict_get d' k = None"
      by (cases "dict_get d' k") simp_all
    with None st show ?thesis by simp
  next
    case (Some x)
    with same_dict_get[OF wd wd' st, of k] obtain x' where x': "dict_get d' k = Some x'"
      "same_tree x x'"
      by (cases "dict_get d' k") simp_all
    show ?thesis
    proof (cases x)
      case (Scalar s)
      with x'(2) have "x' = Scalar s" by simp
      with Some x'(1) Scalar st show ?thesis by simp
    next
      case (Table c)
      with x'(2) obtain c' where c': "x' = Table c'" by (auto dest: same_tree_Table_left)
      have wc: "wf_dict c" using wd Some Table by (simp add: wf_dict_child)
      have wc': "wf_dict c'" using wd' x'(1) c' by (simp add: wf_dict_child)
      have sc: "same_tree (Table c) (Table c')" using x'(2) Table c' by simp
      obtain fl c1 where r: "path_delete_rec c (k' # q) = (fl, c1)"
        by (cases "path_delete_rec c (k' # q)")
      obtain fl' c1' where r': "path_delete_rec c' (k' # q) = (fl', c1')"
        by (cases "path_delete_rec c' (k' # q)")
      from "3.IH"[OF Some Table wc wc' sc]
      have fl: "fl' = fl" and s1: "same_tree (Table c1) (Table c1')"
        by (simp_all add: r r')
      have w1: "wf_dict c1" using wf_path_delete_rec[OF wc, of "k' # q"] by (simp add: r)
      have w1': "wf_dict c1'" using wf_path_delete_rec[OF wc', of "k' # q"] by (simp add: r')
      have emp: "c1 = [] \<longleftrightarrow> c1' = []" using s1 by (cases c1; cases c1') auto
      show ?thesis
      proof (cases fl)
        case False
        with st show ?thesis by (simp add: Some Table x'(1) c' r r' fl)
      next
        case True
        show ?thesis
        proof (cases "c1 = []")
          case e: True
          with emp have "c1' = []" by simp
          with e True show ?thesis
            by (simp add: Some Table x'(1) c' r r' fl same_dict_del[OF wd wd' st])
        next
          case ne: False
          with emp have ne': "c1' \<noteq> []" by simp
          have "same_tree (Table (dict_set d k (Table c1))) (Table (dict_set d' k (Table c1')))"
            using wd wd' st w1 w1' s1 by (intro same_dict_set) simp_all
          with ne ne' True show ?thesis
            by (simp add: Some Table x'(1) c' r r' fl)
        qed
      qed
    qed
  qed
qed

section \<open>The rollback loops do not see the order of keys\<close>

lemma ro_same:
  "list_all2 same_override es es' \<Longrightarrow> \<forall>e \<in> set es. entry_path e \<noteq> [] \<Longrightarrow>
   wf_dict d \<Longrightarrow> wf_dict d' \<Longrightarrow> same_tree (Table d) (Table d') \<Longrightarrow>
   snd (ro es d s) = snd (ro es' d' s)
   \<and> wf_dict (fst (ro es d s)) \<and> wf_dict (fst (ro es' d' s))
   \<and> same_tree (Table (fst (ro es d s))) (Table (fst (ro es' d' s)))"
proof (induction es es' arbitrary: d d' s rule: list_all2_induct)
  case Nil
  then show ?case by simp
next
  case (Cons e es e' es')
  note wd = Cons.prems(2) and wd' = Cons.prems(3) and st = Cons.prems(4)
  from Cons.hyps(1) have p: "entry_path e' = entry_path e"
    and wr: "wf_value (entry_repo e)" and wr': "wf_value (entry_repo e')"
    and sr: "same_tree (entry_repo e) (entry_repo e')"
    and wp: "wf_value (entry_previous e)" and wp': "wf_value (entry_previous e')"
    and sp: "same_tree (entry_previous e) (entry_previous e')"
    by (simp_all add: same_override_def)
  from Cons.prems(1) have ne: "entry_path e \<noteq> []" and rest: "\<forall>e \<in> set es. entry_path e \<noteq> []"
    by simp_all
  show ?case
  proof (cases "path_get d (entry_path e)")
    case None
    with same_path_get[OF wd wd' st, of "entry_path e"]
    have None': "path_get d' (entry_path e) = None"
      by (cases "path_get d' (entry_path e)") simp_all
    from Cons.IH[OF rest wd wd' st, of s] show ?thesis
      by (simp add: None None' p)
  next
    case (Some cur)
    with same_path_get[OF wd wd' st, of "entry_path e"]
    obtain cur' where Some': "path_get d' (entry_path e) = Some cur'" and sc: "same_tree cur cur'"
      by (cases "path_get d' (entry_path e)") simp_all
    have wc: "wf_value cur" using wd Some by (rule wf_path_get)
    have wc': "wf_value cur'" using wd' Some' by (rule wf_path_get)
    have eq: "py_eq cur (entry_repo e) \<longleftrightarrow> py_eq cur' (entry_repo e')"
      using wc wc' wr wr' sc sr by (rule py_eq_same_tree_iff)
    show ?thesis
    proof (cases "py_eq cur (entry_repo e)")
      case True
      with eq have True': "py_eq cur' (entry_repo e')" by simp
      have 1: "wf_dict (pset d (entry_path e) (entry_previous e))"
        using wd wp ne by (rule wf_pset)
      have 2: "wf_dict (pset d' (entry_path e) (entry_previous e'))"
        using wd' wp' ne by (rule wf_pset)
      have 3: "same_tree (Table (pset d (entry_path e) (entry_previous e)))
                 (Table (pset d' (entry_path e) (entry_previous e')))"
        using wd wd' st wp wp' sp ne by (rule same_pset)
      from Cons.IH[OF rest 1 2 3, of s] show ?thesis
        by (simp add: Some Some' p True True')
    next
      case False
      with eq have False': "\<not> py_eq cur' (entry_repo e')" by simp
      from Cons.IH[OF rest wd wd' st, of "s + 1"] show ?thesis
        by (simp add: Some Some' p False False')
    qed
  qed
qed

lemma ra_same:
  "list_all2 same_addition es es' \<Longrightarrow>
   wf_dict d \<Longrightarrow> wf_dict d' \<Longrightarrow> same_tree (Table d) (Table d') \<Longrightarrow>
   snd (ra es d s) = snd (ra es' d' s)
   \<and> wf_dict (fst (ra es d s)) \<and> wf_dict (fst (ra es' d' s))
   \<and> same_tree (Table (fst (ra es d s))) (Table (fst (ra es' d' s)))"
proof (induction es es' arbitrary: d d' s rule: list_all2_induct)
  case Nil
  then show ?case by simp
next
  case (Cons e es e' es')
  note wd = Cons.prems(1) and wd' = Cons.prems(2) and st = Cons.prems(3)
  from Cons.hyps(1) have p: "entry_path e' = entry_path e"
    and wr: "wf_value (entry_repo e)" and wr': "wf_value (entry_repo e')"
    and sr: "same_tree (entry_repo e) (entry_repo e')"
    by (simp_all add: same_addition_def)
  show ?case
  proof (cases "path_get d (entry_path e)")
    case None
    with same_path_get[OF wd wd' st, of "entry_path e"]
    have None': "path_get d' (entry_path e) = None"
      by (cases "path_get d' (entry_path e)") simp_all
    from Cons.IH[OF wd wd' st, of s] show ?thesis
      by (simp add: None None' p)
  next
    case (Some cur)
    with same_path_get[OF wd wd' st, of "entry_path e"]
    obtain cur' where Some': "path_get d' (entry_path e) = Some cur'" and sc: "same_tree cur cur'"
      by (cases "path_get d' (entry_path e)") simp_all
    have wc: "wf_value cur" using wd Some by (rule wf_path_get)
    have wc': "wf_value cur'" using wd' Some' by (rule wf_path_get)
    have eq: "py_eq cur (entry_repo e) \<longleftrightarrow> py_eq cur' (entry_repo e')"
      using wc wc' wr wr' sc sr by (rule py_eq_same_tree_iff)
    show ?thesis
    proof (cases "py_eq cur (entry_repo e)")
      case True
      with eq have True': "py_eq cur' (entry_repo e')" by simp
      have 1: "wf_dict (snd (path_delete_rec d (entry_path e)))"
        using wd by (rule wf_path_delete_rec)
      have 2: "wf_dict (snd (path_delete_rec d' (entry_path e)))"
        using wd' by (rule wf_path_delete_rec)
      have 3: "same_tree (Table (snd (path_delete_rec d (entry_path e))))
                 (Table (snd (path_delete_rec d' (entry_path e))))"
        using same_path_delete_rec[OF wd wd' st, of "entry_path e"] by simp
      from Cons.IH[OF 1 2 3, of s] show ?thesis
        by (simp add: Some Some' p True True')
    next
      case False
      with eq have False': "\<not> py_eq cur' (entry_repo e')" by simp
      from Cons.IH[OF wd wd' st, of "s + 1"] show ?thesis
        by (simp add: Some Some' p False False')
    qed
  qed
qed

lemma same_addition_paths:
  "list_all2 same_addition xs ys \<Longrightarrow> \<forall>e \<in> set xs. entry_path e \<noteq> [] \<Longrightarrow>
   \<forall>e \<in> set ys. entry_path e \<noteq> []"
  by (induction xs ys rule: list_all2_induct) (auto simp: same_addition_def)

lemma same_override_paths:
  "list_all2 same_override xs ys \<Longrightarrow> \<forall>e \<in> set xs. entry_path e \<noteq> [] \<Longrightarrow>
   \<forall>e \<in> set ys. entry_path e \<noteq> []"
  by (induction xs ys rule: list_all2_induct) (auto simp: same_override_def)

lemma rollback_same:
  assumes "list_all2 same_addition adds adds'" and "list_all2 same_override ovs ovs'"
    and "\<forall>e \<in> set adds. entry_path e \<noteq> []" and "\<forall>e \<in> set ovs. entry_path e \<noteq> []"
    and "wf_dict d" and "wf_dict d'" and "same_tree (Table d) (Table d')"
    and "rollback adds ovs d = Inr (data, skipped)"
  shows "\<exists>data'. rollback adds' ovs' d' = Inr (data', skipped)
           \<and> wf_dict data \<and> wf_dict data' \<and> same_tree (Table data) (Table data')"
proof -
  have pa: "\<forall>e \<in> set adds'. entry_path e \<noteq> []"
    using assms(1,3) by (rule same_addition_paths)
  have po: "\<forall>e \<in> set ovs'. entry_path e \<noteq> []"
    using assms(2,4) by (rule same_override_paths)
  obtain d1 s1 where r1: "ro ovs d 0 = (d1, s1)" by (cases "ro ovs d 0")
  obtain d1' s1' where r1': "ro ovs' d' 0 = (d1', s1')" by (cases "ro ovs' d' 0")
  from ro_same[OF assms(2,4,5,6,7), of 0]
  have s1: "s1' = s1" and w1: "wf_dict d1" and w1': "wf_dict d1'"
    and t1: "same_tree (Table d1) (Table d1')"
    by (simp_all add: r1 r1')
  obtain d2 s2 where r2: "ra adds d1 s1 = (d2, s2)" by (cases "ra adds d1 s1")
  obtain d2' s2' where r2': "ra adds' d1' s1 = (d2', s2')" by (cases "ra adds' d1' s1")
  from ra_same[OF assms(1) w1 w1' t1, of s1]
  have s2: "s2' = s2" and w2: "wf_dict d2" and w2': "wf_dict d2'"
    and t2: "same_tree (Table d2) (Table d2')"
    by (simp_all add: r2 r2')
  have a: "rollback adds ovs d = Inr (d2, s2)"
    by (simp add: rollback_def rollback_overrides_eq[OF assms(4)] r1
        rollback_additions_eq[OF assms(3)] r2)
  have b: "rollback adds' ovs' d' = Inr (d2', s2)"
    by (simp add: rollback_def rollback_overrides_eq[OF po] r1' s1
        rollback_additions_eq[OF pa] r2' s2)
  from a assms(8) have "data = d2" "skipped = s2" by simp_all
  with b w2 w2' t2 show ?thesis by simp
qed

section \<open>The state file keeps the ledger up to the order of keys\<close>

lemma dict_get_sorted_insert:
  "dict_get d k = None \<Longrightarrow>
   dict_get (sorted_insert k v d) k' = (if k' = k then Some v else dict_get d k')"
  by (induction d) (auto split: if_splits)

lemma wf_sorted_insert:
  "wf_dict d \<Longrightarrow> wf_value v \<Longrightarrow> dict_get d k = None \<Longrightarrow> wf_dict (sorted_insert k v d)"
  by (induction d) (auto simp: dict_get_sorted_insert split: if_splits)

lemma json_same:
  "wf_value v \<Longrightarrow> wf_value (json_value v) \<and> same_tree v (json_value v)"
  "wf_dict d \<Longrightarrow> wf_dict (json_items d) \<and> same_tree (Table d) (Table (json_items d))"
proof (induction v and d rule: wf_value_wf_dict.induct)
  case (1 s)
  show ?case by simp
next
  case (2 d)
  then show ?case by simp
next
  case 3
  show ?case by simp
next
  case (4 k v rest)
  from "4.prems" have fresh: "dict_get rest k = None" and wv: "wf_value v"
    and wr: "wf_dict rest"
    by simp_all
  from "4.IH"(1)[OF wv] have jv: "wf_value (json_value v)" "same_tree v (json_value v)"
    by simp_all
  from "4.IH"(2)[OF wr] have jr: "wf_dict (json_items rest)"
    "same_tree (Table rest) (Table (json_items rest))"
    by simp_all
  have fresh': "dict_get (json_items rest) k = None"
    using same_dict_get[OF wr jr, of k] fresh
    by (cases "dict_get (json_items rest) k") simp_all
  have w: "wf_dict (json_items ((k, v) # rest))"
    using jr(1) jv(1) fresh' by (simp add: wf_sorted_insert)
  have "rel_option same_tree (dict_get ((k, v) # rest) k')
      (dict_get (json_items ((k, v) # rest)) k')" for k'
    using same_dict_get[OF wr jr, of k'] jv(2)
    by (simp add: dict_get_sorted_insert[OF fresh'])
  then have "\<forall>k'. rel_option same_tree (dict_get ((k, v) # rest) k')
      (dict_get (json_items ((k, v) # rest)) k')" by blast
  with same_tree_Table_iff[OF "4.prems" w] w show ?case by blast
qed

section \<open>Claim about install followed by remove\<close>

lemma json_additions_same:
  "\<forall>a \<in> set adds. wf_value (entry_repo a) \<Longrightarrow>
   list_all2 same_addition adds (map json_addition adds)"
  by (induction adds) (simp_all add: same_addition_def json_addition_def json_same(1))

lemma json_overrides_same:
  "\<forall>e \<in> set ovs. wf_value (entry_repo e) \<and> wf_value (entry_previous e) \<Longrightarrow>
   list_all2 same_override ovs (map json_override ovs)"
  by (induction ovs) (simp_all add: same_override_def json_override_def json_same(1))

lemma settle_items_Nil [simp]: "settle_items [] r = []"
  by simp

text \<open>
  C1 as stated does not hold.  With no target document and the repo tree
  \<^verbatim>\<open>a = {}\<close>, the ledger is empty, the rollback returns \<^verbatim>\<open>a = {}\<close> and \<^verbatim>\<open>remove\<close>
  rewrites the document instead of removing it.  With the existing tree \<^verbatim>\<open>a = {}\<close>
  and the repo tree \<^verbatim>\<open>a = {x = 1}\<close>, the rollback prunes the table that existed before
  and returns the empty tree.  With the existing tree \<^verbatim>\<open>a = true\<close> and the repo tree
  \<^verbatim>\<open>a = 1\<close>, no override is recorded (\<^verbatim>\<open>True == 1\<close>) and the rollback returns
  \<^verbatim>\<open>a = 1\<close>.  With the existing tree \<^verbatim>\<open>a = {z = 1, b = 2}\<close> and the repo tree
  \<^verbatim>\<open>a = 5\<close>, the table comes back from the state file with its keys sorted, and the
  rollback returns \<^verbatim>\<open>a = {b = 2, z = 1}\<close>.
\<close>

theorem round_trip_counterexample:
  "install_changes [(''a'', Table [])] [] [] [] = ([], [])
   \<and> rollback [] [] (merge_dicts [] [(''a'', Table [])]) = Inr ([(''a'', Table [])], 0)
   \<and> remove (Some (json_state (install_state (install [(''a'', Table [])] [] None))))
        (Some (merge_dicts [] [(''a'', Table [])]))
       = Inr \<lparr>remove_status = 0, remove_target = Written [(''a'', Table [])] [],
              state_unlinked = True, printed = []\<rparr>
   \<and> rollback
        (fst (install_changes [(''a'', Table [(''x'', Scalar (PInt 1))])] [(''a'', Table [])] [] []))
        (snd (install_changes [(''a'', Table [(''x'', Scalar (PInt 1))])] [(''a'', Table [])] [] []))
        (merge_dicts [(''a'', Table [])] [(''a'', Table [(''x'', Scalar (PInt 1))])])
       = Inr ([], 0)
   \<and> rollback
        (fst (install_changes [(''a'', Scalar (PInt 1))] [(''a'', Scalar (PBool True))] [] []))
        (snd (install_changes [(''a'', Scalar (PInt 1))] [(''a'', Scalar (PBool True))] [] []))
        (merge_dicts [(''a'', Scalar (PBool True))] [(''a'', Scalar (PInt 1))])
       = Inr ([(''a'', Scalar (PInt 1))], 0)
   \<and> rollback
        (additions (json_state (install_state
           (install [(''a'', Scalar (PInt 5))] []
              (Some ([(''a'', Table [(''z'', Scalar (PInt 1)), (''b'', Scalar (PInt 2))])], []))))))
        (overrides (json_state (install_state
           (install [(''a'', Scalar (PInt 5))] []
              (Some ([(''a'', Table [(''z'', Scalar (PInt 1)), (''b'', Scalar (PInt 2))])], []))))))
        (merge_dicts [(''a'', Table [(''z'', Scalar (PInt 1)), (''b'', Scalar (PInt 2))])]
           [(''a'', Scalar (PInt 5))])
       = Inr ([(''a'', Table [(''b'', Scalar (PInt 2)), (''z'', Scalar (PInt 1))])], 0)
   \<and> [(''a'', Table [(''b'', Scalar (PInt 2)), (''z'', Scalar (PInt 1))])]
       \<noteq> [(''a'', Table [(''z'', Scalar (PInt 1)), (''b'', Scalar (PInt 2))])]"
  by (simp add: merge_dicts.simps dict_contains_def rollback_def remove_def install_def
      json_state_def json_override_def json_addition_def path_get_Cons path_delete_def
      path_set_def)

text \<open>
  C1, amended.  Let the repo tree and the existing tree be built from booleans,
  integers, strings, lists and tables (the values of the model; floating-point values
  are not covered), with no empty table below the root; the existing tree is empty when
  there is no target document.  Let \<open>state\<close> be the ledger of \<^verbatim>\<open>install\<close> as it comes
  back from the state file, and \<open>loaded\<close> a tree that differs from the merged tree
  that \<^verbatim>\<open>install\<close> wrote in the order of keys at most, as \<^verbatim>\<open>remove\<close> loads it from the
  unmodified document.  Then the rollback of \<open>state\<close> on \<open>loaded\<close> skips nothing and
  returns a tree that is equal to the existing tree in the sense of Python's \<^verbatim>\<open>==\<close>;
  the two are the same tree up to the order of keys if no leaf of the existing tree is
  equal without being identical to the repo's leaf at the same path.  \<^verbatim>\<open>remove\<close>
  returns 0, prints nothing, deletes the state file, and removes the target document if
  there was none before the install, and otherwise rewrites it with the tree of the
  rollback under the header recorded in the ledger.
\<close>

theorem install_remove_round_trip:
  assumes "wf_dict repo_data" and "no_empty_tables repo_data"
    and "wf_dict existing_data" and "no_empty_tables existing_data"
    and "target = Some (existing_data, existing_text) \<or> (target = None \<and> existing_data = [])"
    and "result = install repo_data repo_text target"
    and "state = json_state (install_state result)"
    and "wf_dict loaded"
    and "same_tree (Table loaded) (Table (merge_dicts existing_data repo_data))"
  shows "\<exists>header data.
           install_target result = Written (merge_dicts existing_data repo_data) header
         \<and> rollback (additions state) (overrides state) loaded = Inr (data, 0)
         \<and> py_eq (Table data) (Table existing_data)
         \<and> ((\<forall>p a b. path_get existing_data p = Some (Scalar a)
                \<and> path_get repo_data p = Some (Scalar b) \<and> py_eq_scalar a b \<longrightarrow> a = b)
              \<longrightarrow> same_tree (Table data) (Table existing_data))
         \<and> remove (Some state) (Some loaded)
             = Inr \<lparr>remove_status = 0,
                    remove_target =
                      (if target = None then Unlinked
                       else Written data (existing_header state)),
                    state_unlinked = True, printed = []\<rparr>"
proof -
  let ?st = "install_state result"
  let ?M = "merge_dicts existing_data repo_data"
  let ?S = "settle_items existing_data repo_data"
  let ?adds = "concat (map (item_additions existing_data) repo_data)"
  let ?ovs = "concat (map (item_overrides existing_data) repo_data)"
  have ex: "(case target of Some (data, text) \<Rightarrow> data | None \<Rightarrow> []) = existing_data"
    using assms(5) by auto
  have adds: "additions ?st = ?adds" and ovs: "overrides ?st = ?ovs"
    unfolding assms(6) install_state_lists ex by simp_all
  have had: "had_config state = (target \<noteq> None)"
    by (simp add: assms(6,7) json_state_def install_def Let_def split: prod.splits)
  have tgt: "\<exists>header. install_target result = Written ?M header"
    by (simp add: assms(6) install_def Let_def ex split: prod.splits)
  have sadds: "additions state = map json_addition ?adds"
    and sovs: "overrides state = map json_override ?ovs"
    by (simp_all add: assms(7) json_state_def adds ovs)
  have ic: "install_changes repo_data existing_data [] [] = (?adds, ?ovs)"
    by (rule install_changes_concat)
  note sound = install_changes_sound[OF assms(1) ic]
  have wa: "\<forall>a \<in> set ?adds. wf_value (entry_repo a)"
  proof
    fix a assume "a \<in> set ?adds"
    with sound(1) have "path_get repo_data (entry_path a) = Some (entry_repo a)" by blast
    with assms(1) show "wf_value (entry_repo a)" by (rule wf_path_get)
  qed
  have wo: "\<forall>e \<in> set ?ovs. wf_value (entry_repo e) \<and> wf_value (entry_previous e)"
  proof
    fix e assume "e \<in> set ?ovs"
    with sound(2) have "path_get repo_data (entry_path e) = Some (entry_repo e)"
      and "path_get existing_data (entry_path e) = Some (entry_previous e)" by blast+
    then show "wf_value (entry_repo e) \<and> wf_value (entry_previous e)"
      using assms(1,3) by (auto intro: wf_path_get)
  qed
  have la: "list_all2 same_addition ?adds (additions state)"
    unfolding sadds using wa by (rule json_additions_same)
  have lo: "list_all2 same_override ?ovs (overrides state)"
    unfolding sovs using wo by (rule json_overrides_same)
  have wM: "wf_dict ?M" using assms(3,1) by (rule wf_merge_dicts)
  have sML: "same_tree (Table ?M) (Table loaded)"
  proof (rule same_tree_sym)
    show "wf_value (Table loaded)" using assms(8) by simp
    show "wf_value (Table ?M)" using wM by simp
    show "same_tree (Table loaded) (Table ?M)" by (rule assms(9))
  qed
  have rb: "rollback ?adds ?ovs ?M = Inr (?S, 0)"
    using assms(3,1,4,2) by (rule rollback_install)
  from rollback_same[OF la lo sound(3,4) wM assms(8) sML rb]
  obtain data where r: "rollback (additions state) (overrides state) loaded = Inr (data, 0)"
    and wS: "wf_dict ?S" and wd: "wf_dict data" and sSd: "same_tree (Table ?S) (Table data)"
    by blast
  have sdS: "same_tree (Table data) (Table ?S)"
  proof (rule same_tree_sym)
    show "wf_value (Table ?S)" using wS by simp
    show "wf_value (Table data)" using wd by simp
    show "same_tree (Table ?S) (Table data)" by (rule sSd)
  qed
  have pS: "py_eq (Table ?S) (Table existing_data)"
    using assms(3) tree_sim_settle(2) by (rule dict_sim_imp_py_eq)
  have wE: "wf_value (Table existing_data)" using assms(3) by simp
  have sE: "same_tree (Table existing_data) (Table existing_data)"
    using wE by (rule same_tree_refl)
  have wS': "wf_value (Table ?S)" using wS by simp
  have wd': "wf_value (Table data)" using wd by simp
  have eq: "py_eq (Table data) (Table existing_data)"
    using wS' wd' wE wE sSd sE pS by (rule py_eq_same_tree)
  have ident: "(\<forall>p a b. path_get existing_data p = Some (Scalar a)
                \<and> path_get repo_data p = Some (Scalar b) \<and> py_eq_scalar a b \<longrightarrow> a = b)
              \<longrightarrow> same_tree (Table data) (Table existing_data)"
  proof
    assume "\<forall>p a b. path_get existing_data p = Some (Scalar a)
                \<and> path_get repo_data p = Some (Scalar b) \<and> py_eq_scalar a b \<longrightarrow> a = b"
    with settle_identity(2)[OF assms(3)] have "?S = existing_data" by blast
    with sdS show "same_tree (Table data) (Table existing_data)" by simp
  qed
  have empty: "data = []" if "target = None"
  proof -
    from that assms(5) have "existing_data = []" by auto
    with sdS show ?thesis by simp
  qed
  have rm: "remove (Some state) (Some loaded)
      = Inr \<lparr>remove_status = 0,
             remove_target = (if target = None then Unlinked
                              else Written data (existing_header state)),
             state_unlinked = True, printed = []\<rparr>"
    using empty by (auto simp: remove_def r had)
  from tgt r eq ident rm show ?thesis by blast
qed

theorem install_remove_round_trip_witness:
  "wf_dict [(''mode'', Scalar (PStr ''auto'')), (''opts'', Scalar (PInt 5)),
        (''timeout'', Scalar (PInt 30))]
   \<and> no_empty_tables [(''mode'', Scalar (PStr ''auto'')), (''opts'', Scalar (PInt 5)),
        (''timeout'', Scalar (PInt 30))]
   \<and> wf_dict [(''tools'', Table [(''shell'', Scalar (PBool False))]),
        (''opts'', Table [(''z'', Scalar (PInt 1)), (''b'', Scalar (PInt 2))]),
        (''mode'', Scalar (PStr ''manual''))]
   \<and> no_empty_tables [(''tools'', Table [(''shell'', Scalar (PBool False))]),
        (''opts'', Table [(''z'', Scalar (PInt 1)), (''b'', Scalar (PInt 2))]),
        (''mode'', Scalar (PStr ''manual''))]
   \<and> wf_dict [(''opts'', Scalar (PInt 5)), (''mode'', Scalar (PStr ''auto'')),
        (''timeout'', Scalar (PInt 30)),
        (''tools'', Table [(''shell'', Scalar (PBool False))])]
   \<and> same_tree
        (Table [(''opts'', Scalar (PInt 5)), (''mode'', Scalar (PStr ''auto'')),
        (''timeout'', Scalar (PInt 30)),
        (''tools'', Table [(''shell'', Scalar (PBool False))])])
        (Table (merge_dicts
           [(''tools'', Table [(''shell'', Scalar (PBool False))]),
        (''opts'', Table [(''z'', Scalar (PInt 1)), (''b'', Scalar (PInt 2))]),
        (''mode'', Scalar (PStr ''manual''))]
           [(''mode'', Scalar (PStr ''auto'')), (''opts'', Scalar (PInt 5)),
        (''timeout'', Scalar (PInt 30))]))
   \<and> rollback
        (additions (json_state (install_state
           (install [(''mode'', Scalar (PStr ''auto'')), (''opts'', Scalar (PInt 5)),
                    (''timeout'', Scalar (PInt 30))] []
              (Some ([(''tools'', Table [(''shell'', Scalar (PBool False))]),
                     (''opts'', Table [(''z'', Scalar (PInt 1)), (''b'', Scalar (PInt 2))]),
                     (''mode'', Scalar (PStr ''manual''))], []))))))
        (overrides (json_state (install_state
           (install [(''mode'', Scalar (PStr ''auto'')), (''opts'', Scalar (PInt 5)),
                    (''timeout'', Scalar (PInt 30))] []
              (Some ([(''tools'', Table [(''shell'', Scalar (PBool False))]),
                     (''opts'', Table [(''z'', Scalar (PInt 1)), (''b'', Scalar (PInt 2))]),
                     (''mode'', Scalar (PStr ''manual''))], []))))))
        [(''opts'', Scalar (PInt 5)), (''mode'', Scalar (PStr ''auto'')),
        (''timeout'', Scalar (PInt 30)),
        (''tools'', Table [(''shell'', Scalar (PBool False))])]
       = Inr ([(''opts'', Table [(''b'', Scalar (PInt 2)), (''z'', Scalar (PInt 1))]),
        (''mode'', Scalar (PStr ''manual'')),
        (''tools'', Table [(''shell'', Scalar (PBool False))])], 0)
   \<and> py_eq
        (Table [(''opts'', Table [(''b'', Scalar (PInt 2)), (''z'', Scalar (PInt 1))]),
        (''mode'', Scalar (PStr ''manual'')),
        (''tools'', Table [(''shell'', Scalar (PBool False))])])
        (Table [(''tools'', Table [(''shell'', Scalar (PBool False))]),
        (''opts'', Table [(''z'', Scalar (PInt 1)), (''b'', Scalar (PInt 2))]),
        (''mode'', Scalar (PStr ''manual''))])
   \<and> same_tree
        (Table [(''opts'', Table [(''b'', Scalar (PInt 2)), (''z'', Scalar (PInt 1))]),
        (''mode'', Scalar (PStr ''manual'')),
        (''tools'', Table [(''shell'', Scalar (PBool False))])])
        (Table [(''tools'', Table [(''shell'', Scalar (PBool False))]),
        (''opts'', Table [(''z'', Scalar (PInt 1)), (''b'', Scalar (PInt 2))]),
        (''mode'', Scalar (PStr ''manual''))])
   \<and> remove
        (Some (json_state (install_state
           (install [(''mode'', Scalar (PStr ''auto'')), (''opts'', Scalar (PInt 5)),
                    (''timeout'', Scalar (PInt 30))] []
              (Some ([(''tools'', Table [(''shell'', Scalar (PBool False))]),
                     (''opts'', Table [(''z'', Scalar (PInt 1)), (''b'', Scalar (PInt 2))]),
                     (''mode'', Scalar (PStr ''manual''))], []))))))
        (Some [(''opts'', Scalar (PInt 5)), (''mode'', Scalar (PStr ''auto'')),
        (''timeout'', Scalar (PInt 30)),
        (''tools'', Table [(''shell'', Scalar (PBool False))])])
       = Inr \<lparr>remove_status = 0,
              remove_target = Written
                [(''opts'', Table [(''b'', Scalar (PInt 2)), (''z'', Scalar (PInt 1))]),
        (''mode'', Scalar (PStr ''manual'')),
        (''tools'', Table [(''shell'', Scalar (PBool False))])] [],
              state_unlinked = True, printed = []\<rparr>"
proof -
  let ?R = "[(''mode'', Scalar (PStr ''auto'')), (''opts'', Scalar (PInt 5)),
        (''timeout'', Scalar (PInt 30))]"
  let ?E = "[(''tools'', Table [(''shell'', Scalar (PBool False))]),
        (''opts'', Table [(''z'', Scalar (PInt 1)), (''b'', Scalar (PInt 2))]),
        (''mode'', Scalar (PStr ''manual''))]"
  let ?L = "[(''opts'', Scalar (PInt 5)), (''mode'', Scalar (PStr ''auto'')),
        (''timeout'', Scalar (PInt 30)),
        (''tools'', Table [(''shell'', Scalar (PBool False))])]"
  let ?D = "[(''opts'', Table [(''b'', Scalar (PInt 2)), (''z'', Scalar (PInt 1))]),
        (''mode'', Scalar (PStr ''manual'')),
        (''tools'', Table [(''shell'', Scalar (PBool False))])]"
  let ?ST = "json_state (install_state (install ?R [] (Some (?E, []))))"
  have w: "wf_dict ?R" "no_empty_tables ?R" "wf_dict ?E" "no_empty_tables ?E" "wf_dict ?L"
    by simp_all
  have s: "same_tree (Table ?L) (Table (merge_dicts ?E ?R))"
    by (simp add: merge_dicts.simps dict_contains_def same_tree.simps)
  have t: "Some (?E, []) = Some (?E, []) \<or> (Some (?E, []) = None \<and> ?E = [])"
    by simp
  have leaves: "\<forall>p a b. path_get ?E p = Some (Scalar a)
      \<and> path_get ?R p = Some (Scalar b) \<and> py_eq_scalar a b \<longrightarrow> a = b"
  proof (intro allI impI)
    fix p a b
    assume h: "path_get ?E p = Some (Scalar a)
      \<and> path_get ?R p = Some (Scalar b) \<and> py_eq_scalar a b"
    show "a = b"
    proof (cases p)
      case Nil
      with h show ?thesis by simp
    next
      case (Cons k q)
      with h show ?thesis
        by (auto simp: path_get_Cons path_get_from_Scalar split: if_splits)
    qed
  qed
  have rb: "rollback (additions ?ST) (overrides ?ST) ?L = Inr (?D, 0)"
    by (simp add: rollback_def install_def json_state_def json_override_def json_addition_def
        path_get_Cons path_delete_def path_set_def dict_contains_def)
  have hdr: "existing_header ?ST = []"
    by (simp add: install_def json_state_def Let_def split: prod.splits)
  note th = install_remove_round_trip
    [where repo_text = "[]" and existing_text = "[]", OF w(1-4) t refl refl w(5) s]
  have "\<exists>data. rollback (additions ?ST) (overrides ?ST) ?L = Inr (data, 0)
      \<and> py_eq (Table data) (Table ?E)
      \<and> ((\<forall>p a b. path_get ?E p = Some (Scalar a)
            \<and> path_get ?R p = Some (Scalar b) \<and> py_eq_scalar a b \<longrightarrow> a = b)
          \<longrightarrow> same_tree (Table data) (Table ?E))
      \<and> remove (Some ?ST) (Some ?L)
          = Inr \<lparr>remove_status = 0, remove_target = Written data (existing_header ?ST),
                 state_unlinked = True, printed = []\<rparr>"
    using th by (simp only: option.simps if_False) (elim exE conjE, intro exI conjI)
  then obtain data where 1: "rollback (additions ?ST) (overrides ?ST) ?L = Inr (data, 0)"
    and 2: "py_eq (Table data) (Table ?E)"
    and 3: "(\<forall>p a b. path_get ?E p = Some (Scalar a)
      \<and> path_get ?R p = Some (Scalar b) \<and> py_eq_scalar a b \<longrightarrow> a = b)
      \<longrightarrow> same_tree (Table data) (Table ?E)"
    and 4: "remove (Some ?ST) (Some ?L)
      = Inr \<lparr>remove_status = 0, remove_target = Written data (existing_header ?ST),
             state_unlinked = True, printed = []\<rparr>"
    by (elim exE conjE) (rule that)
  from 1 rb have d: "data = ?D" by simp
  from 3 leaves have 5: "same_tree (Table data) (Table ?E)" by (rule mp)
  show ?thesis
    using w s rb 2[unfolded d] 5[unfolded d] 4[unfolded d hdr] by (intro conjI)
qed

end
